(* ===== verification/Badger_Prelude.thy ===== *)
theory Badger_Prelude
  imports Main "HOL-Library.Word"
begin

unbundle bit_operations_syntax

text \<open>
  Shared vocabulary of the development: the names of the machine integer types the kernel uses,
  the error values its operations report, the collections of rewrite rules the component theories
  add to, and the facts on words that several components need.

  The machine modelled is the 64-bit RISC-V target: \<^verbatim>\<open>size_t\<close> and pointers have 64 bits,
  \<^verbatim>\<open>int\<close> has 32.
\<close>

section \<open>Machine types\<close>

type_synonym u8 = "8 word"
type_synonym u16 = "16 word"
type_synonym u32 = "32 word"
type_synonym u64 = "64 word"
type_synonym usize = "64 word"

section \<open>Rule collections\<close>

named_theorems word_nat_simps \<open>read word operations as operations on natural numbers\<close>
named_theorems packed_simps \<open>operations on words that pack several small fields\<close>

section \<open>Words as natural numbers\<close>

lemma unat_less: "unat (x :: 'a::len word) < 2 ^ LENGTH('a)"
  by (rule unsigned_less)

lemma unat_push_bit_small:
  assumes "unat x * 2 ^ k < 2 ^ LENGTH('a)"
  shows "unat (push_bit k (x :: 'a::len word)) = unat x * 2 ^ k"
proof -
  have "unat (push_bit k x) = take_bit LENGTH('a) (unat x * 2 ^ k)"
    by (simp only: unsigned_push_bit_eq) (simp add: push_bit_eq_mult)
  then show ?thesis using assms by (simp add: take_bit_nat_eq_self)
qed

lemma unat_drop_bit_div [word_nat_simps]: "unat (drop_bit k (x :: 'a::len word)) = unat x div 2 ^ k"
  by (subst unat_drop_bit_eq) (simp only: drop_bit_eq_div)

lemma unat_add_small:
  "unat x + unat y < 2 ^ LENGTH('a) \<Longrightarrow> unat ((x :: 'a::len word) + y) = unat x + unat y"
  using unat_add_lem[of x y] by simp

lemma unat_sub_wrap:
  assumes "x < y"
  shows "unat ((x :: 'a::len word) - y) = 2 ^ LENGTH('a) - unat y + unat x"
proof -
  have "unat (x - y) = unat x + 2 ^ LENGTH('a) - unat y"
    using unat_sub_if'[of x y] assms by (simp add: word_less_nat_alt word_le_nat_alt split: if_splits)
  then show ?thesis using unat_less[of y] by linarith
qed

lemma of_nat_unat_id: "of_nat (unat x) = (x :: 'a::len word)"
  by simp

lemma unat_plus_one: "x < y \<Longrightarrow> unat ((x :: 'a::len word) + 1) = unat x + 1"
  using unat_add_small[of x 1] unat_less[of y] by (simp add: word_less_nat_alt)

lemma unat_of_nat_small: "n < 2 ^ LENGTH('a) \<Longrightarrow> unat (of_nat n :: 'a::len word) = n"
  by (simp add: unsigned_of_nat take_bit_nat_eq_self)

lemma unat_ucast_widen:
  assumes "LENGTH('a) \<le> LENGTH('b)"
  shows "unat (ucast (x :: 'a::len word) :: 'b::len word) = unat x"
proof -
  have "unat x < 2 ^ LENGTH('a)" by (rule unsigned_less)
  also have "\<dots> \<le> 2 ^ LENGTH('b)" using assms by (simp add: power_increasing)
  finally show ?thesis by (simp add: unsigned_ucast_eq take_bit_nat_eq_self)
qed

lemma unat_sub_small: "y \<le> x \<Longrightarrow> unat ((x :: 'a::len word) - y) = unat x - unat y"
  by (rule unat_sub)

lemma bit_top_iff: "bit (x :: 'a::len word) (LENGTH('a) - 1) \<longleftrightarrow> 2 ^ (LENGTH('a) - 1) \<le> unat x"
proof -
  let ?q = "unat x div 2 ^ (LENGTH('a) - 1)"
  have "(2::nat) ^ LENGTH('a) = 2 * 2 ^ (LENGTH('a) - 1)" by (simp flip: power_Suc)
  then have q: "?q < 2" using unat_less[of x] by (simp add: less_mult_imp_div_less)
  have "bit x (LENGTH('a) - 1) = bit (unat x) (LENGTH('a) - 1)" by (simp add: bit_unsigned_iff)
  also have "\<dots> = odd ?q" by (rule bit_iff_odd)
  also have "\<dots> \<longleftrightarrow> ?q \<noteq> 0" using q by (cases ?q) auto
  finally show ?thesis by (simp add: div_eq_0_iff not_less)
qed

lemma sless_0_iff: "(x :: 'a::len word) <s 0 \<longleftrightarrow> 2 ^ (LENGTH('a) - 1) \<le> unat x"
  using bit_last_iff[of x] bit_top_iff[of x] by (simp add: word_sless_alt)

text \<open>The magnitude of a signed value, as code negates it: the minimal value included.\<close>

lemma unat_magnitude:
  fixes x :: "'a::len word"
  shows "unat (if x <s 0 then - x else x) = nat \<bar>sint x\<bar>"
proof -
  have u: "uint x = sint x mod 2 ^ LENGTH('a)" by (simp only: uint_sint take_bit_eq_mod)
  have L: "(2::int) ^ LENGTH('a) = 2 * 2 ^ (LENGTH('a) - 1)" by (simp flip: power_Suc)
  have lo: "- (2 ^ (LENGTH('a) - 1)) \<le> sint x" and hi: "sint x < 2 ^ (LENGTH('a) - 1)"
    by (rule sint_ge, rule sint_lt)
  show ?thesis
  proof (cases "x <s 0")
    case True
    then have neg: "sint x < 0" by (simp add: word_sless_alt)
    have "uint (- x) = (- uint x) mod 2 ^ LENGTH('a)" by (simp only: uint_word_ariths)
    also have "\<dots> = (- sint x) mod 2 ^ LENGTH('a)" unfolding u by (rule mod_minus_eq)
    also have "\<dots> = - sint x"
      using neg lo L zero_less_power[of "2::int" "LENGTH('a) - 1"] by (intro mod_pos_pos_trivial; linarith)
    finally show ?thesis using True neg by (simp only: unat_eq_nat_uint if_True)
  next
    case False
    then have ge: "0 \<le> sint x" by (simp add: word_sless_alt)
    then have "uint x = sint x" unfolding u
      using hi L zero_less_power[of "2::int" "LENGTH('a) - 1"] by (intro mod_pos_pos_trivial; linarith)
    then show ?thesis using False ge by (simp only: unat_eq_nat_uint if_False abs_of_nonneg)
  qed
qed

section \<open>The lowest set bit\<close>

text \<open>Position \<open>k\<close> holds the lowest set bit of \<open>x\<close>.\<close>

definition lowest_bit :: "'a::len word \<Rightarrow> nat \<Rightarrow> bool" where
  "lowest_bit x k \<longleftrightarrow> bit x k \<and> (\<forall>j<k. \<not> bit x j)"

lemma lowest_bit_exists: "x \<noteq> 0 \<Longrightarrow> \<exists>k. lowest_bit x k"
  by (metis (mono_tags, lifting) LeastI_ex bit_eqI bit_0_eq bot_apply bot_bool_def lowest_bit_def not_less_Least)

lemma lowest_bit_less: "lowest_bit (x :: 'a::len word) k \<Longrightarrow> k < LENGTH('a)"
  by (auto simp: lowest_bit_def dest: bit_imp_le_length)

lemma lowest_bit_pred:
  assumes "lowest_bit (x :: 'a::len word) k"
  shows "bit (x - 1) n \<longleftrightarrow> n < LENGTH('a) \<and> (n < k \<or> k < n \<and> bit x n)"
proof -
  let ?h = "x AND NOT (mask (Suc k))"
  have "x = ?h OR push_bit k 1"
    by (rule bit_word_eqI) (use assms in \<open>auto simp: lowest_bit_def bit_simps less_Suc_eq nat_neq_iff\<close>)
  also have "\<dots> = ?h + push_bit k 1"
    by (rule disjunctive_add_eq_or [symmetric], rule bit_word_eqI) (auto simp: bit_simps)
  finally have "x - 1 = ?h + mask k" by (simp add: mask_eq_decr_exp push_bit_eq_mult)
  also have "\<dots> = ?h OR mask k"
    by (rule disjunctive_add_eq_or, rule bit_word_eqI) (auto simp: bit_simps)
  finally show ?thesis by (auto simp: bit_simps bit_imp_le_length)
qed

lemma and_minus_lowest_bit:
  assumes "lowest_bit (x :: 'a::len word) k"
  shows "x AND - x = push_bit k 1"
proof (rule bit_word_eqI)
  fix n assume "n < LENGTH('a)"
  have "- x = NOT (x - 1)" by (simp add: minus_eq_not_minus_1)
  then show "bit (x AND - x) n = bit (push_bit k (1::'a word)) n"
    using assms lowest_bit_pred[OF assms, of n] \<open>n < LENGTH('a)\<close>
    by (auto simp: bit_simps lowest_bit_def)
qed

lemma length_filter_update:
  "i < length xs \<Longrightarrow> length (filter P (xs[i := y])) + of_bool (P (xs ! i)) = length (filter P xs) + of_bool (P y)"
proof (induction xs arbitrary: i)
  case (Cons a xs)
  then show ?case by (cases i) auto
qed simp

end
