(* ===== verification/Bitops.thy ===== *)
theory Bitops
  imports Badger_Prelude
begin

text \<open>
  The bit-counting helpers of \<^verbatim>\<open>kernel/src/malloc/bitops.h\<close>. The kernel is built with
  \<^verbatim>\<open>-DSOFTBIT\<close> (\<^verbatim>\<open>kernel/CMakeLists.txt\<close>), so the software branch of every helper
  is the one modelled. C's \<^verbatim>\<open>int\<close> results are in \<open>0..64\<close> and are integers here; the
  \<^verbatim>\<open>uint32_t\<close> wrappers convert them.
\<close>

section \<open>Definitions\<close>

subsection \<open>Counting leading zeroes\<close>

definition clz32 :: "u32 \<Rightarrow> int" where
  "clz32 x =
     (if x = 0 then 32 else
      let (n, x) = (if x \<le> 0x0000FFFF then (0 + 16, push_bit 16 x) else (0, x));
          (n, x) = (if x \<le> 0x00FFFFFF then (n + 8, push_bit 8 x) else (n, x));
          (n, x) = (if x \<le> 0x0FFFFFFF then (n + 4, push_bit 4 x) else (n, x));
          (n, x) = (if x \<le> 0x3FFFFFFF then (n + 2, push_bit 2 x) else (n, x));
          n = (if x \<le> 0x7FFFFFFF then n + 1 else n)
      in n)"

definition clz64 :: "u64 \<Rightarrow> int" where
  "clz64 x =
     (if x = 0 then 64 else
      let (n, x) = (if x \<le> 0x00000000FFFFFFFF then (0 + 32, push_bit 32 x) else (0, x));
          (n, x) = (if x \<le> 0x0000FFFFFFFFFFFF then (n + 16, push_bit 16 x) else (n, x));
          (n, x) = (if x \<le> 0x00FFFFFFFFFFFFFF then (n + 8, push_bit 8 x) else (n, x));
          (n, x) = (if x \<le> 0x0FFFFFFFFFFFFFFF then (n + 4, push_bit 4 x) else (n, x));
          (n, x) = (if x \<le> 0x3FFFFFFFFFFFFFFF then (n + 2, push_bit 2 x) else (n, x));
          n = (if x \<le> 0x7FFFFFFFFFFFFFFF then n + 1 else n)
      in n)"

subsection \<open>Counting trailing zeroes\<close>

definition bitpositions32 :: "int list" where
  "bitpositions32 =
     [0,  1,  28, 2,  29, 14, 24, 3, 30, 22, 20, 15, 25, 17, 4,  8,
      31, 27, 13, 23, 21, 19, 16, 7, 26, 12, 18, 6,  11, 5,  10, 9]"

definition ctz32 :: "u32 \<Rightarrow> int" where
  "ctz32 x =
     (if x = 0 then 32
      else bitpositions32 ! unat (drop_bit 27 ((x AND - x) * 0x077CB531)))"

definition bitpositions64 :: "int list" where
  "bitpositions64 =
     [0,  1,  2,  53, 3,  7,  54, 27, 4,  38, 41, 8,  34, 55, 48, 28,
      62, 5,  39, 46, 44, 42, 22, 9,  24, 35, 59, 56, 49, 18, 29, 11,
      63, 52, 6,  26, 37, 40, 33, 47, 61, 45, 43, 21, 23, 58, 17, 10,
      51, 25, 36, 32, 60, 20, 57, 16, 50, 31, 19, 15, 30, 14, 13, 12]"

definition ctz64 :: "u64 \<Rightarrow> int" where
  "ctz64 x =
     (if x = 0 then 64
      else bitpositions64 ! unat (drop_bit 58 ((x AND - x) * 0x022FDD63CC95386D)))"

subsection \<open>Finding the first set bit\<close>

text \<open>The loop \<^verbatim>\<open>while (x != 0)\<close> shared by \<^verbatim>\<open>ffs32\<close> and \<^verbatim>\<open>ffs64\<close>.\<close>

function ffs_loop :: "'a::len word \<Rightarrow> int \<Rightarrow> int" where
  "ffs_loop x position =
     (if x = 0 then 0
      else if x AND 1 \<noteq> 0 then position
      else ffs_loop (drop_bit 1 x) (position + 1))"
  by pat_completeness auto
termination
proof (relation "measure (\<lambda>(x, position). unat x)")
  fix x :: "'a word" and position :: int
  assume "x \<noteq> 0"
  then have "0 < unat x" by (simp add: unat_gt_0)
  then have "unat x div 2 < unat x" by simp
  then show "((drop_bit 1 x, position + 1), x, position) \<in> measure (\<lambda>(x, position). unat x)"
    using unat_drop_bit_div[of 1 x] by simp
qed simp

declare ffs_loop.simps [simp del]

definition ffs32 :: "u32 \<Rightarrow> int" where
  "ffs32 x = (if x = 0 then 0 else ffs_loop x 1)"

definition ffs64 :: "u64 \<Rightarrow> int" where
  "ffs64 x = (if x = 0 then 0 else ffs_loop x 1)"

subsection \<open>The unsigned wrappers\<close>

definition count_trailing_set_bits64 :: "u64 \<Rightarrow> u32" where
  "count_trailing_set_bits64 w = word_of_int (ctz64 (NOT w))"

definition count_trailing_unset_bits64 :: "u64 \<Rightarrow> u32" where
  "count_trailing_unset_bits64 w = word_of_int (ctz64 w)"

definition count_leading_set_bits64 :: "u64 \<Rightarrow> u32" where
  "count_leading_set_bits64 w = word_of_int (clz64 (NOT w))"

definition count_leading_unset_bits64 :: "u64 \<Rightarrow> u32" where
  "count_leading_unset_bits64 w = word_of_int (clz64 w)"

definition find_first_trailing_set_bit64 :: "u64 \<Rightarrow> u32" where
  "find_first_trailing_set_bit64 w = word_of_int (ffs64 w - 1)"

definition count_trailing_set_bits32 :: "u32 \<Rightarrow> u32" where
  "count_trailing_set_bits32 w = word_of_int (ctz32 (NOT w))"

definition count_trailing_unset_bits32 :: "u32 \<Rightarrow> u32" where
  "count_trailing_unset_bits32 w = word_of_int (ctz32 w)"

definition count_leading_set_bits32 :: "u32 \<Rightarrow> u32" where
  "count_leading_set_bits32 w = word_of_int (clz32 (NOT w))"

definition count_leading_unset_bits32 :: "u32 \<Rightarrow> u32" where
  "count_leading_unset_bits32 w = word_of_int (clz32 w)"

text \<open>The parameter of the 32-bit search is declared \<^verbatim>\<open>uint64_t\<close> and narrowed at the call.\<close>

definition find_first_trailing_set_bit32 :: "u64 \<Rightarrow> u32" where
  "find_first_trailing_set_bit32 w = word_of_int (ffs32 (ucast w) - 1)"


section \<open>Leading zeroes\<close>

text \<open>
  One step of the binary search: after it the word is normalised so that it reaches into the top
  \<open>k\<close> bits, and it is still the input shifted left by the count.
\<close>

lemma clz_step:
  fixes y :: "'a::len word"
  assumes y: "unat y = v * 2 ^ m" and low: "2 ^ (LENGTH('a) - 2 * k) \<le> unat y"
    and n: "n = int m" and c: "c = int k" and k: "2 * k \<le> LENGTH('a)" and thr: "unat thr = 2 ^ (LENGTH('a) - k) - 1"
  shows "\<exists>m' y'. (if y \<le> thr then (n + c, push_bit k y) else (n, y)) = (int m', y') \<and>
    unat y' = v * 2 ^ m' \<and> 2 ^ (LENGTH('a) - k) \<le> unat y'"
proof (cases "y \<le> thr")
  case True
  then have "unat y \<le> 2 ^ (LENGTH('a) - k) - 1" by (simp add: word_le_nat_alt thr)
  then have lt: "unat y < 2 ^ (LENGTH('a) - k)"
    by (metis Suc_pred' less_Suc_eq_le zero_less_numeral zero_less_power)
  have "unat y * 2 ^ k < 2 ^ (LENGTH('a) - k) * 2 ^ k" using lt by simp
  also have "\<dots> = 2 ^ LENGTH('a)" using k by (simp flip: power_add)
  finally have sh: "unat (push_bit k y) = unat y * 2 ^ k" by (rule unat_push_bit_small)
  have "2 ^ (LENGTH('a) - k) = (2 ^ (LENGTH('a) - 2 * k) * 2 ^ k :: nat)"
    using k by (simp flip: power_add)
  also have "\<dots> \<le> unat y * 2 ^ k" using low by simp
  finally have "2 ^ (LENGTH('a) - k) \<le> unat (push_bit k y)" by (simp add: sh)
  moreover have "unat (push_bit k y) = v * 2 ^ (m + k)" by (simp add: sh y power_add)
  ultimately show ?thesis using True n c by (intro exI[of _ "m + k"] exI[of _ "push_bit k y"]) simp
next
  case False
  then have "2 ^ (LENGTH('a) - k) \<le> unat y" by (simp add: word_le_nat_alt thr)
  with False y n show ?thesis by (intro exI[of _ m] exI[of _ y]) simp
qed

text \<open>The last comparison only counts; it does not shift any more.\<close>

lemma clz_last:
  fixes y :: "'a::len word"
  assumes y: "unat y = v * 2 ^ m" and low: "2 ^ (LENGTH('a) - 2) \<le> unat y" and L: "2 \<le> LENGTH('a)"
    and thr: "unat thr = 2 ^ (LENGTH('a) - 1) - 1"
  shows "\<exists>m'. (if y \<le> thr then int m + 1 else int m) = int m' \<and>
    2 ^ (LENGTH('a) - 1) \<le> v * 2 ^ m' \<and> v * 2 ^ m' < 2 ^ LENGTH('a)"
proof -
  from clz_step[OF y, of 1 "int m" 1 thr] low L thr
  obtain m' y' where "(if y \<le> thr then (int m + 1, push_bit 1 y) else (int m, y)) = (int m', y')"
    "unat y' = v * 2 ^ m'" "2 ^ (LENGTH('a) - 1) \<le> unat y'" by auto
  moreover have "unat y' < 2 ^ LENGTH('a)" by (rule unsigned_less)
  ultimately show ?thesis by (intro exI[of _ m']) (auto split: if_splits)
qed

lemma clz32_normalises:
  assumes "x \<noteq> 0"
  shows "\<exists>n. clz32 x = int n \<and> 2 ^ 31 \<le> unat x * 2 ^ n \<and> unat x * 2 ^ n < 2 ^ 32"
proof -
  let ?v = "unat x"
  have 0: "unat x = ?v * 2 ^ 0" and z: "0 = int 0" by simp_all
  have l1: "2 ^ (LENGTH(32) - 2 * 16) \<le> ?v" using assms by (simp add: Suc_leI unat_gt_0)
  have t1: "2 * 16 \<le> LENGTH(32)" "unat (0x0000FFFF :: u32) = 2 ^ (LENGTH(32) - 16) - 1" by simp_all
  from clz_step[OF 0 l1 z of_nat_numeral[symmetric] t1] obtain m1 x1 where
    1: "(if x \<le> 0x0000FFFF then (0 + 16, push_bit 16 x) else (0, x)) = (int m1, x1)"
    "unat x1 = ?v * 2 ^ m1" "2 ^ (LENGTH(32) - 16) \<le> unat x1" by (elim exE conjE) (rule that)
  have l2: "2 ^ (LENGTH(32) - 2 * 8) \<le> unat x1" using 1(3) by simp
  have t2: "2 * 8 \<le> LENGTH(32)" "unat (0x00FFFFFF :: u32) = 2 ^ (LENGTH(32) - 8) - 1" by simp_all
  from clz_step[OF 1(2) l2 refl of_nat_numeral[symmetric] t2] obtain m2 x2 where
    2: "(if x1 \<le> 0x00FFFFFF then (int m1 + 8, push_bit 8 x1) else (int m1, x1)) = (int m2, x2)"
    "unat x2 = ?v * 2 ^ m2" "2 ^ (LENGTH(32) - 8) \<le> unat x2" by (elim exE conjE) (rule that)
  have l3: "2 ^ (LENGTH(32) - 2 * 4) \<le> unat x2" using 2(3) by simp
  have t3: "2 * 4 \<le> LENGTH(32)" "unat (0x0FFFFFFF :: u32) = 2 ^ (LENGTH(32) - 4) - 1" by simp_all
  from clz_step[OF 2(2) l3 refl of_nat_numeral[symmetric] t3] obtain m3 x3 where
    3: "(if x2 \<le> 0x0FFFFFFF then (int m2 + 4, push_bit 4 x2) else (int m2, x2)) = (int m3, x3)"
    "unat x3 = ?v * 2 ^ m3" "2 ^ (LENGTH(32) - 4) \<le> unat x3" by (elim exE conjE) (rule that)
  have l4: "2 ^ (LENGTH(32) - 2 * 2) \<le> unat x3" using 3(3) by simp
  have t4: "2 * 2 \<le> LENGTH(32)" "unat (0x3FFFFFFF :: u32) = 2 ^ (LENGTH(32) - 2) - 1" by simp_all
  from clz_step[OF 3(2) l4 refl of_nat_numeral[symmetric] t4] obtain m4 x4 where
    4: "(if x3 \<le> 0x3FFFFFFF then (int m3 + 2, push_bit 2 x3) else (int m3, x3)) = (int m4, x4)"
    "unat x4 = ?v * 2 ^ m4" "2 ^ (LENGTH(32) - 2) \<le> unat x4" by (elim exE conjE) (rule that)
  have t: "2 \<le> LENGTH(32)" "unat (0x7FFFFFFF :: u32) = 2 ^ (LENGTH(32) - 1) - 1" by simp_all
  from clz_last[OF 4(2) 4(3) t] obtain n where
    5: "(if x4 \<le> 0x7FFFFFFF then int m4 + 1 else int m4) = int n"
    "2 ^ (LENGTH(32) - 1) \<le> ?v * 2 ^ n" "?v * 2 ^ n < 2 ^ LENGTH(32)" by (elim exE conjE) (rule that)
  have "clz32 x = int n"
    unfolding clz32_def Let_def using assms by (simp only: 1(1) 2(1) 3(1) 4(1) 5(1) if_False prod.case)
  moreover have "2 ^ 31 \<le> ?v * 2 ^ n" "?v * 2 ^ n < 2 ^ 32" using 5(2,3) by simp_all
  ultimately show ?thesis by (intro exI conjI)
qed

lemma clz64_normalises:
  assumes "x \<noteq> 0"
  shows "\<exists>n. clz64 x = int n \<and> 2 ^ 63 \<le> unat x * 2 ^ n \<and> unat x * 2 ^ n < 2 ^ 64"
proof -
  let ?v = "unat x"
  have 0: "unat x = ?v * 2 ^ 0" and z: "0 = int 0" by simp_all
  have l1: "2 ^ (LENGTH(64) - 2 * 32) \<le> ?v" using assms by (simp add: Suc_leI unat_gt_0)
  have t1: "2 * 32 \<le> LENGTH(64)" "unat (0x00000000FFFFFFFF :: u64) = 2 ^ (LENGTH(64) - 32) - 1" by simp_all
  from clz_step[OF 0 l1 z of_nat_numeral[symmetric] t1] obtain m1 x1 where
    1: "(if x \<le> 0x00000000FFFFFFFF then (0 + 32, push_bit 32 x) else (0, x)) = (int m1, x1)"
    "unat x1 = ?v * 2 ^ m1" "2 ^ (LENGTH(64) - 32) \<le> unat x1" by (elim exE conjE) (rule that)
  have l2: "2 ^ (LENGTH(64) - 2 * 16) \<le> unat x1" using 1(3) by simp
  have t2: "2 * 16 \<le> LENGTH(64)" "unat (0x0000FFFFFFFFFFFF :: u64) = 2 ^ (LENGTH(64) - 16) - 1" by simp_all
  from clz_step[OF 1(2) l2 refl of_nat_numeral[symmetric] t2] obtain m2 x2 where
    2: "(if x1 \<le> 0x0000FFFFFFFFFFFF then (int m1 + 16, push_bit 16 x1) else (int m1, x1)) = (int m2, x2)"
    "unat x2 = ?v * 2 ^ m2" "2 ^ (LENGTH(64) - 16) \<le> unat x2" by (elim exE conjE) (rule that)
  have l3: "2 ^ (LENGTH(64) - 2 * 8) \<le> unat x2" using 2(3) by simp
  have t3: "2 * 8 \<le> LENGTH(64)" "unat (0x00FFFFFFFFFFFFFF :: u64) = 2 ^ (LENGTH(64) - 8) - 1" by simp_all
  from clz_step[OF 2(2) l3 refl of_nat_numeral[symmetric] t3] obtain m3 x3 where
    3: "(if x2 \<le> 0x00FFFFFFFFFFFFFF then (int m2 + 8, push_bit 8 x2) else (int m2, x2)) = (int m3, x3)"
    "unat x3 = ?v * 2 ^ m3" "2 ^ (LENGTH(64) - 8) \<le> unat x3" by (elim exE conjE) (rule that)
  have l4: "2 ^ (LENGTH(64) - 2 * 4) \<le> unat x3" using 3(3) by simp
  have t4: "2 * 4 \<le> LENGTH(64)" "unat (0x0FFFFFFFFFFFFFFF :: u64) = 2 ^ (LENGTH(64) - 4) - 1" by simp_all
  from clz_step[OF 3(2) l4 refl of_nat_numeral[symmetric] t4] obtain m4 x4 where
    4: "(if x3 \<le> 0x0FFFFFFFFFFFFFFF then (int m3 + 4, push_bit 4 x3) else (int m3, x3)) = (int m4, x4)"
    "unat x4 = ?v * 2 ^ m4" "2 ^ (LENGTH(64) - 4) \<le> unat x4" by (elim exE conjE) (rule that)
  have l5: "2 ^ (LENGTH(64) - 2 * 2) \<le> unat x4" using 4(3) by simp
  have t5: "2 * 2 \<le> LENGTH(64)" "unat (0x3FFFFFFFFFFFFFFF :: u64) = 2 ^ (LENGTH(64) - 2) - 1" by simp_all
  from clz_step[OF 4(2) l5 refl of_nat_numeral[symmetric] t5] obtain m5 x5 where
    5: "(if x4 \<le> 0x3FFFFFFFFFFFFFFF then (int m4 + 2, push_bit 2 x4) else (int m4, x4)) = (int m5, x5)"
    "unat x5 = ?v * 2 ^ m5" "2 ^ (LENGTH(64) - 2) \<le> unat x5" by (elim exE conjE) (rule that)
  have t: "2 \<le> LENGTH(64)" "unat (0x7FFFFFFFFFFFFFFF :: u64) = 2 ^ (LENGTH(64) - 1) - 1" by simp_all
  from clz_last[OF 5(2) 5(3) t] obtain n where
    6: "(if x5 \<le> 0x7FFFFFFFFFFFFFFF then int m5 + 1 else int m5) = int n"
    "2 ^ (LENGTH(64) - 1) \<le> ?v * 2 ^ n" "?v * 2 ^ n < 2 ^ LENGTH(64)" by (elim exE conjE) (rule that)
  have "clz64 x = int n"
    unfolding clz64_def Let_def using assms by (simp only: 1(1) 2(1) 3(1) 4(1) 5(1) 6(1) if_False prod.case)
  moreover have "2 ^ 63 \<le> ?v * 2 ^ n" "?v * 2 ^ n < 2 ^ 64" using 6(2,3) by simp_all
  ultimately show ?thesis by (intro exI conjI)
qed

section \<open>Trailing zeroes and the first set bit\<close>

text \<open>
  The multiplier of each table is a de Bruijn sequence: multiplying an isolated bit \<open>2 ^ k\<close> by it
  leaves the index of \<open>k\<close> in the top bits.
\<close>

lemma bitpositions32_de_bruijn:
  "list_all (\<lambda>k. bitpositions32 ! unat (drop_bit 27 (push_bit k 1 * (0x077CB531::u32))) = int k) [0..<32]"
  by code_simp
lemma bitpositions64_de_bruijn:
  "list_all (\<lambda>k. bitpositions64 ! unat (drop_bit 58 (push_bit k 1 * (0x022FDD63CC95386D::u64))) = int k) [0..<64]"
  by code_simp

lemma ctz32_lowest: "lowest_bit x k \<Longrightarrow> ctz32 x = int k"
  using bitpositions32_de_bruijn lowest_bit_less[of x k]
  by (auto simp: ctz32_def and_minus_lowest_bit list_all_iff lowest_bit_def)

lemma ctz64_lowest: "lowest_bit x k \<Longrightarrow> ctz64 x = int k"
  using bitpositions64_de_bruijn lowest_bit_less[of x k]
  by (auto simp: ctz64_def and_minus_lowest_bit list_all_iff lowest_bit_def)

lemma ffs_loop_lowest: "lowest_bit x k \<Longrightarrow> ffs_loop x p = p + int k"
proof (induction x p arbitrary: k rule: ffs_loop.induct)
  case (1 x p)
  have nz: "x \<noteq> 0" using "1.prems" by (auto simp: lowest_bit_def)
  show ?case
  proof (cases "bit x 0")
    case True
    then have "k = 0" using "1.prems" by (auto simp: lowest_bit_def intro: ccontr)
    with True nz show ?thesis by (subst ffs_loop.simps) (simp add: and_one_eq bit_0 mod_2_eq_odd)
  next
    case False
    then obtain j where k: "k = Suc j" using "1.prems" by (cases k) (auto simp: lowest_bit_def)
    have "lowest_bit (drop_bit 1 x) j"
      using "1.prems" unfolding lowest_bit_def by (auto simp: bit_simps k)
    moreover have "x AND 1 = 0" using False by (simp add: and_one_eq bit_0 mod_2_eq_odd)
    ultimately show ?thesis
      using "1.IH"[of j] nz by (subst ffs_loop.simps) (simp add: k)
  qed
qed

lemma ffs32_lowest: "lowest_bit x k \<Longrightarrow> ffs32 x = 1 + int k"
  by (auto simp: ffs32_def ffs_loop_lowest lowest_bit_def)

lemma ffs64_lowest: "lowest_bit x k \<Longrightarrow> ffs64 x = 1 + int k"
  by (auto simp: ffs64_def ffs_loop_lowest lowest_bit_def)

lemmas bit_search_lowest = ctz32_lowest ctz64_lowest ffs32_lowest ffs64_lowest

section \<open>Properties\<close>

text \<open>
  C34: the leading-zero count of a non-zero 64-bit word locates its highest set bit: the count is
  at most 63, and shifting the value left by it fills the word exactly up to bit 63.
\<close>

theorem clz64_locates_top_bit:
  assumes "x \<noteq> 0"
  shows "0 \<le> clz64 x \<and> clz64 x \<le> 63 \<and> 2 ^ (63 - nat (clz64 x)) \<le> unat x \<and> unat x < 2 ^ (64 - nat (clz64 x))"
proof -
  obtain n where n: "clz64 x = int n" "2 ^ 63 \<le> unat x * 2 ^ n" "unat x * 2 ^ n < 2 ^ 64"
    using clz64_normalises[OF assms] by blast
  have "1 * 2 ^ n \<le> unat x * 2 ^ n" using assms by (intro mult_le_mono1) (simp add: Suc_leI unat_gt_0)
  then have "(2::nat) ^ n < 2 ^ 64" using n(3) by linarith
  then have "n < 64" by (rule power_less_imp_less_exp[rotated]) simp
  then have "n \<le> 63" by simp
  have "(2::nat) ^ (63 - n) * 2 ^ n \<le> unat x * 2 ^ n" "unat x * 2 ^ n < 2 ^ (64 - n) * 2 ^ n"
    using n(2,3) \<open>n \<le> 63\<close> by (simp_all flip: power_add)
  then show ?thesis using n(1) \<open>n \<le> 63\<close> by simp
qed

theorem clz64_locates_top_bit_witness:
  "(0x1F00 :: u64) \<noteq> 0 \<and> clz64 0x1F00 = 51 \<and> 2 ^ (63 - nat (clz64 0x1F00)) \<le> unat (0x1F00 :: u64)"
  using clz64_locates_top_bit[of "0x1F00"] by (simp add: clz64_def)

text \<open>
  C35: on every non-zero 64-bit word the table-driven \<^verbatim>\<open>ctz64\<close>, the bit-by-bit
  \<^verbatim>\<open>ffs64\<close> and the \<^verbatim>\<open>uint32_t\<close> wrapper around it find the same position, and it is
  the position of the lowest set bit.
\<close>

theorem first_set_bit_agree:
  assumes "x \<noteq> 0"
  shows "\<exists>k<64. bit x k \<and> (\<forall>j<k. \<not> bit x j) \<and> ctz64 x = int k \<and> ffs64 x = int k + 1 \<and>
    unat (find_first_trailing_set_bit64 x) = k"
proof -
  obtain k where k: "lowest_bit x k" using lowest_bit_exists[OF assms] by blast
  have "k < 64" using lowest_bit_less[OF k] by simp
  then have "unat (find_first_trailing_set_bit64 x) = k"
    by (simp add: find_first_trailing_set_bit64_def ffs64_lowest[OF k] unsigned_of_nat take_bit_nat_eq_self)
  then show ?thesis
    using k \<open>k < 64\<close> by (intro exI[of _ k]) (auto simp: bit_search_lowest lowest_bit_def)
qed

theorem first_set_bit_agree_witness:
  "(0x50 :: u64) \<noteq> 0 \<and> (\<exists>k<64. bit (0x50 :: u64) k \<and> ctz64 0x50 = int k \<and> ffs64 0x50 = int k + 1)"
  using first_set_bit_agree[of "0x50"] by auto

end
