(* ===== verification/Int_Routines.thy ===== *)
theory Int_Routines
  imports Bitops "HOL-Library.Signed_Division"
begin

text \<open>
  The compiler's integer support routines, \<^verbatim>\<open>kernel/src/freestanding/int_routines.c\<close>. A macro
  that the file instantiates at several widths is one definition, polymorphic in the word length;
  signed arguments are words read with \<^const>\<open>sint\<close>. The theorems on division are for widths up to 64:
  the 128-bit instance shifts the 64-bit constant \<^verbatim>\<open>1ull\<close> by up to 127, which C leaves undefined. Negations of the smallest
  signed value and signed products that overflow, which C leaves undefined too, wrap around as the target's
  instructions do.
\<close>

section \<open>Definitions\<close>

subsection \<open>Division\<close>

partial_function (option) divmod_normalise :: "'a::len word \<Rightarrow> nat \<Rightarrow> ('a word \<times> nat) option" where
  "divmod_normalise divisor shift =
     (if divisor AND push_bit (LENGTH('a) - 1) 1 \<noteq> 0 then Some (divisor, shift)
      else divmod_normalise (push_bit 1 divisor) (shift + 1))"

definition divmod_step :: "nat \<Rightarrow> nat \<Rightarrow> 'a::len word \<times> 'a word \<times> 'a word \<Rightarrow> 'a word \<times> 'a word \<times> 'a word" where
  "divmod_step shift i = (\<lambda>(remainder, divisor, result).
     let (remainder, result) =
       (if divisor \<le> remainder then (remainder - divisor, result OR ucast (push_bit (shift - i) (1 :: u64)))
        else (remainder, result))
     in (remainder, drop_bit 1 divisor, result))"

text \<open>The result pair is \<open>(remainder, result)\<close>, as in the struct the macro declares.\<close>

definition divmod_impl :: "'a::len word \<Rightarrow> 'a word \<Rightarrow> ('a word \<times> 'a word) option" where
  "divmod_impl remainder divisor =
     map_option (\<lambda>(divisor, shift).
       let (remainder, _, result) = fold (divmod_step shift) [0..<shift + 1] (remainder, divisor, 0)
       in (remainder, result)) (divmod_normalise divisor 0)"

text \<open>The quotient is returned, the remainder stored through the pointer \<^verbatim>\<open>rem\<close>.\<close>

definition udivmod4 :: "'a::len word \<Rightarrow> 'a word \<Rightarrow> ('a word \<times> 'a word) option" where
  "udivmod4 a b =
     (if b = 0 then Some (- 1, a)
      else map_option (\<lambda>(remainder, result). (result, remainder)) (divmod_impl a b))"

definition udiv3 :: "'a::len word \<Rightarrow> 'a word \<Rightarrow> 'a word option" where
  "udiv3 a b = (if b = 0 then Some (- 1) else map_option snd (divmod_impl a b))"

definition umod3 :: "'a::len word \<Rightarrow> 'a word \<Rightarrow> 'a word option" where
  "umod3 a b = (if b = 0 then Some a else map_option fst (divmod_impl a b))"

definition divmod4 :: "'a::len word \<Rightarrow> 'a word \<Rightarrow> ('a word \<times> 'a word) option" where
  "divmod4 a b =
     (if b = 0 then Some (- 1, a)
      else let div_sign = ((a <s 0) \<noteq> (b <s 0)); mod_sign = a <s b
           in map_option (\<lambda>(remainder, result).
                (if div_sign then - result else result, if mod_sign then - remainder else remainder)) (divmod_impl a b))"

definition div3 :: "'a::len word \<Rightarrow> 'a word \<Rightarrow> 'a word option" where
  "div3 a b =
     (if b = 0 then Some (- 1)
      else let sign = ((a <s 0) \<noteq> (b <s 0));
               a = (if a <s 0 then - a else a);
               b = (if b <s 0 then - b else b)
           in map_option (\<lambda>(remainder, result). if sign then - result else result) (divmod_impl a b))"

definition mod3 :: "'a::len word \<Rightarrow> 'a word \<Rightarrow> 'a word option" where
  "mod3 a b =
     (if b = 0 then Some a
      else let sign = (a <s 0);
               a = (if a <s 0 then - a else a);
               b = (if b <s 0 then - b else b)
           in map_option (\<lambda>(remainder, result). if sign then - remainder else remainder) (divmod_impl a b))"

subsection \<open>Shifts and products\<close>

text \<open>\<^verbatim>\<open>FAKE_OPER\<close> masks the right operand to the width; its operands have a signed type.\<close>

definition oper_mask :: "'a::len word \<Rightarrow> 'a word" where
  "oper_mask b = b AND of_nat (LENGTH('a) - 1)"

definition ashl3 :: "'a::len word \<Rightarrow> 'a word \<Rightarrow> 'a word" where
  "ashl3 a b = push_bit (unat (oper_mask b)) a"

definition ashr3 :: "'a::len word \<Rightarrow> 'a word \<Rightarrow> 'a word" where
  "ashr3 a b = signed_drop_bit (unat (oper_mask b)) a"

definition lshr3 :: "'a::len word \<Rightarrow> 'a word \<Rightarrow> 'a word" where
  "lshr3 a b = signed_drop_bit (unat (oper_mask b)) a"

definition mulsi3_step :: "u32 \<times> u32 \<times> u32 \<Rightarrow> u32 \<times> u32 \<times> u32" where
  "mulsi3_step = (\<lambda>(res, a, b).
     (if b AND 1 \<noteq> 0 then res + a else res, push_bit 1 a, signed_drop_bit 1 b))"

definition mulsi3 :: "u32 \<Rightarrow> u32 \<Rightarrow> u32" where
  "mulsi3 a b = fst ((mulsi3_step ^^ 32) (0, a, b))"

definition mul3 :: "'a::len word \<Rightarrow> 'a word \<Rightarrow> 'a word" where
  "mul3 a b = a * oper_mask b"

subsection \<open>Byte order\<close>

definition word_bytes :: "'a::len word \<Rightarrow> u8 list" where
  "word_bytes a = map (\<lambda>i. ucast (drop_bit (8 * i) a)) [0..<LENGTH('a) div 8]"

definition bytes_word :: "u8 list \<Rightarrow> 'a::len word" where
  "bytes_word bs = foldr (\<lambda>b w. push_bit 8 w OR ucast b) bs 0"

definition bswap2 :: "'a::len word \<Rightarrow> 'a word" where
  "bswap2 a =
     (let arr_in = word_bytes a; n = LENGTH('a) div 8
      in bytes_word (fold (\<lambda>i out. out[n - i - 1 := arr_in ! i]) [0..<n] (replicate n 0)))"

subsection \<open>Counting zeroes\<close>

text \<open>The smearing loop \<^verbatim>\<open>for (i = 1; i < W; i *= 2) a |= a >> i\<close>, for \<open>W = 2 ^ n\<close>.\<close>

primrec smear :: "nat \<Rightarrow> nat \<Rightarrow> 'a::len word \<Rightarrow> 'a word" where
  "smear 0 i a = a"
| "smear (Suc n) i a = smear n (i * 2) (a OR drop_bit i a)"

definition clzsi2_table :: "int list" where
  "clzsi2_table =
     [0, 31, 9, 30, 3, 8,  13, 29, 2,  5,  7,  21, 12, 24, 28, 19,
      1, 10, 4, 14, 6, 22, 25, 20, 11, 15, 23, 26, 16, 27, 17, 18]"

definition clzsi2 :: "u32 \<Rightarrow> int" where
  "clzsi2 a = (let a = smear 5 1 a; a = a + 1 in clzsi2_table ! unat (drop_bit 27 (a * 0x076be629)))"

definition clzdi2_table :: "int list" where
  "clzdi2_table =
     [0,  63, 62, 57, 61, 51, 56, 45, 60, 39, 50, 36, 55, 30, 44, 24, 59, 47, 38, 26, 49, 18,
      35, 16, 54, 33, 29, 10, 43, 14, 23, 7,  1,  58, 52, 46, 40, 37, 31, 25, 48, 27, 19, 17,
      34, 11, 15, 8,  2,  53, 41, 32, 28, 20, 12, 9,  3,  42, 21, 13, 4,  22, 5,  6]"

definition clzdi2 :: "u64 \<Rightarrow> int" where
  "clzdi2 a = (let a = smear 6 1 a; a = a + 1 in clzdi2_table ! unat (drop_bit 58 (a * 0x0218a392cd3d5dbf)))"

definition ctzsi2_table :: "int list" where
  "ctzsi2_table =
     [0,  1,  23, 2,  29, 24, 19, 3,  30, 27, 25, 11, 20, 8, 4,  13,
      31, 22, 28, 18, 26, 10, 7,  12, 21, 17, 9,  6,  16, 5, 15, 14]"

definition ctzsi2 :: "u32 \<Rightarrow> int" where
  "ctzsi2 a = (let a = a AND NOT (a - 1) in ctzsi2_table ! unat (drop_bit 27 (a * 0x076be629)))"

definition ctzdi2_table :: "int list" where
  "ctzdi2_table =
     [0,  1,  2,  7,  3,  13, 8,  19, 4,  25, 14, 28, 9,  34, 20, 40, 5,  17, 26, 38, 15, 46,
      29, 48, 10, 31, 35, 54, 21, 50, 41, 57, 63, 6,  12, 18, 24, 27, 33, 39, 16, 37, 45, 47,
      30, 53, 49, 56, 62, 11, 23, 32, 36, 44, 52, 55, 61, 22, 43, 51, 60, 42, 59, 58]"

definition ctzdi2 :: "u64 \<Rightarrow> int" where
  "ctzdi2 a = (let a = a AND NOT (a - 1) in ctzdi2_table ! unat (drop_bit 58 (a * 0x0218a392cd3d5dbf)))"

section \<open>Division\<close>

lemma msb_test: "(x :: 'a::len word) AND push_bit (LENGTH('a) - 1) 1 \<noteq> 0 \<longleftrightarrow> 2 ^ (LENGTH('a) - 1) \<le> unat x"
  using and_exp_eq_0_iff_not_bit[of x "LENGTH('a) - 1"] bit_top_iff[of x] by (simp add: push_bit_eq_mult)

text \<open>Normalising a non-zero divisor ends, and shifts it without losing bits.\<close>

lemma divmod_normalise_ends:
  fixes d :: "'a::len word"
  assumes "d \<noteq> 0"
  shows "\<exists>n d'. divmod_normalise d s = Some (d', s + n) \<and> unat d' = unat d * 2 ^ n \<and> 2 ^ (LENGTH('a) - 1) \<le> unat d'"
  using assms
proof (induction "2 ^ LENGTH('a) - unat d" arbitrary: d s rule: less_induct)
  case less
  show ?case
  proof (cases "2 ^ (LENGTH('a) - 1) \<le> unat d")
    case True
    then have "divmod_normalise d s = Some (d, s)"
      using msb_test[of d] by (subst divmod_normalise.simps) simp
    then show ?thesis using True by (intro exI[of _ 0] exI[of _ d]) simp
  next
    case False
    have L: "(2::nat) ^ LENGTH('a) = 2 * 2 ^ (LENGTH('a) - 1)" by (simp flip: power_Suc)
    then have lt: "unat d * 2 ^ 1 < 2 ^ LENGTH('a)" using False by simp
    then have d2: "unat (push_bit 1 d) = unat d * 2" using unat_push_bit_small[OF lt] by simp
    have pos: "0 < unat d" using less.prems by (simp add: unat_gt_0)
    have "2 ^ LENGTH('a) - unat (push_bit 1 d) < 2 ^ LENGTH('a) - unat d"
      using d2 pos lt by simp
    moreover have "push_bit 1 d \<noteq> 0" using d2 pos by (metis less_numeral_extra(3) mult_eq_0_iff unsigned_0 zero_neq_numeral)
    ultimately obtain n d' where n: "divmod_normalise (push_bit 1 d) (s + 1) = Some (d', s + 1 + n)"
      "unat d' = unat (push_bit 1 d) * 2 ^ n" "2 ^ (LENGTH('a) - 1) \<le> unat d'"
      using less.hyps by blast
    have "divmod_normalise d s = divmod_normalise (push_bit 1 d) (s + 1)"
      using False msb_test[of d] by (subst divmod_normalise.simps) simp
    then show ?thesis using n d2 by (intro exI[of _ "Suc n"] exI[of _ d']) (simp add: mult.assoc)
  qed
qed

lemma or_exp_add:
  assumes "2 ^ Suc k dvd (n::nat)"
  shows "n OR 2 ^ k = n + 2 ^ k"
proof -
  obtain q where q: "n = push_bit (Suc k) q" using assms by (auto simp: push_bit_eq_mult mult.commute elim!: dvdE)
  have "n AND 2 ^ k = 0"
    unfolding q by (simp add: and_exp_eq_0_iff_not_bit bit_push_bit_iff del: push_bit_Suc)
  then show ?thesis by (rule disjunctive_add_eq_or[symmetric])
qed

lemma unat_ull_bit:
  assumes "k < LENGTH('a)" and "LENGTH('a) \<le> 64"
  shows "unat (ucast (push_bit k (1 :: u64)) :: 'a::len word) = 2 ^ k"
proof -
  have "(2::nat) ^ k < 2 ^ LENGTH('a)" "(2::nat) ^ k < 2 ^ 64"
    by (rule power_strict_increasing; use assms in simp)+
  moreover have "unat (push_bit k (1 :: u64)) = 2 ^ k" 
    using unat_push_bit_small[of "1 :: u64" k] \<open>(2::nat) ^ k < 2 ^ 64\<close> by simp
  ultimately show ?thesis by (simp only: unsigned_ucast_eq take_bit_nat_eq_self)
qed

text \<open>The loop invariant of the shift-and-subtract division after \<open>i\<close> rounds.\<close>

definition divmod_inv :: "'a::len word \<Rightarrow> 'a word \<Rightarrow> nat \<Rightarrow> nat \<Rightarrow> 'a word \<times> 'a word \<times> 'a word \<Rightarrow> bool" where
  "divmod_inv a b shift i = (\<lambda>(remainder, divisor, result).
     unat a = unat remainder + unat result * unat b \<and> unat remainder < unat b * 2 ^ (shift + 1 - i) \<and>
     unat divisor = unat b * 2 ^ shift div 2 ^ i \<and> 2 ^ (shift + 1 - i) dvd unat result)"

lemma divmod_step_inv:
  fixes a b :: "'a::len word"
  assumes inv: "divmod_inv a b shift i (r, d, q)" and b: "b \<noteq> 0"
    and i: "i \<le> shift" and shift: "shift < LENGTH('a)" and L: "LENGTH('a) \<le> 64"
  shows "divmod_inv a b shift (Suc i) (divmod_step shift i (r, d, q))"
proof -
  define k where "k = shift - i"
  have s: "shift + 1 - i = Suc k" "shift + 1 - Suc i = k" "shift = k + i" using i by (simp_all add: k_def)
  have I: "unat a = unat r + unat q * unat b" "unat r < unat b * 2 ^ Suc k" "2 ^ Suc k dvd unat q"
    using inv by (simp_all only: divmod_inv_def s(1) prod.case)
  have d: "unat d = unat b * 2 ^ k" using inv by (simp add: divmod_inv_def s(3) power_add)
  have d': "unat (drop_bit 1 d) = unat b * 2 ^ shift div 2 ^ Suc i"
    using inv by (simp add: divmod_inv_def unat_drop_bit_div div_mult2_eq mult.commute[of 2])
  have bpos: "0 < unat b" using b by (simp add: unat_gt_0)
  show ?thesis
  proof (cases "d \<le> r")
    case True
    then have le: "unat b * 2 ^ k \<le> unat r" using d by (simp add: word_le_nat_alt)
    have r': "unat (r - d) = unat r - unat b * 2 ^ k" using unat_sub[OF True] d by simp
    have u: "unat (ucast (push_bit k (1 :: u64)) :: 'a word) = 2 ^ k"
      using shift s(3) L by (intro unat_ull_bit) simp_all
    have q': "unat (q OR ucast (push_bit k (1 :: u64))) = unat q + 2 ^ k"
      by (simp only: unsigned_or_eq u or_exp_add[OF I(3)])
    have "unat a = (unat r - unat b * 2 ^ k) + (unat q + 2 ^ k) * unat b"
      using I(1) le by (simp add: algebra_simps)
    moreover have "unat r - unat b * 2 ^ k < unat b * 2 ^ k" using I(2) le by simp
    moreover have "2 ^ k dvd unat q + 2 ^ k" using I(3) by (auto intro: dvd_trans[OF le_imp_power_dvd])
    ultimately show ?thesis
      using True by (simp only: divmod_step_def divmod_inv_def s(2) k_def[symmetric] Let_def prod.case if_True r' q' d')
  next
    case False
    then have "unat r < unat b * 2 ^ k" using d by (simp add: word_le_nat_alt)
    moreover have "2 ^ k dvd unat q" using I(3) by (auto intro: dvd_trans[OF le_imp_power_dvd])
    ultimately show ?thesis
      using False I(1) by (simp only: divmod_step_def divmod_inv_def s(2) Let_def prod.case if_False d')
  qed
qed

lemma divmod_impl_correct:
  fixes a b :: "'a::len word"
  assumes b: "b \<noteq> 0" and L: "LENGTH('a) \<le> 64"
  shows "divmod_impl a b = Some (a mod b, a div b)"
proof -
  obtain shift d where n: "divmod_normalise b 0 = Some (d, shift)" "unat d = unat b * 2 ^ shift"
    "2 ^ (LENGTH('a) - 1) \<le> unat d"
    using divmod_normalise_ends[OF b, of 0] by auto
  have bpos: "0 < unat b" using b by (simp add: unat_gt_0)
  have "2 ^ shift \<le> unat d" using n(2) bpos by simp
  then have "(2::nat) ^ shift < 2 ^ LENGTH('a)" using unat_less[of d] by linarith
  then have shift: "shift < LENGTH('a)" by (rule power_less_imp_less_exp[rotated]) simp
  have "i \<le> shift + 1 \<Longrightarrow> divmod_inv a b shift i (fold (divmod_step shift) [0..<i] (a, d, 0))" for i
  proof (induction i)
    case 0
    have "unat a < 2 ^ LENGTH('a)" by (rule unat_less)
    also have "\<dots> = 2 * 2 ^ (LENGTH('a) - 1)" by (simp flip: power_Suc)
    also have "\<dots> \<le> 2 * unat d" using n(3) by simp
    finally have "unat a < unat b * 2 ^ (shift + 1)" using n(2) by simp
    then show ?case using n(2) by (simp add: divmod_inv_def)
  next
    case (Suc i)
    then show ?case
      using divmod_step_inv[OF _ b _ shift L, of a i] by (cases "fold (divmod_step shift) [0..<i] (a, d, 0)") simp
  qed
  from this[of "shift + 1"] obtain r e q where
    f: "fold (divmod_step shift) [0..<shift + 1] (a, d, 0) = (r, e, q)" and "divmod_inv a b shift (shift + 1) (r, e, q)"
    by (cases "fold (divmod_step shift) [0..<shift + 1] (a, d, 0)") simp
  then have r: "unat a = unat r + unat q * unat b" "unat r < unat b" by (simp_all add: divmod_inv_def)
  have "unat (a div b) = unat q" "unat (a mod b) = unat r"
    using r bpos by (simp_all add: unat_div_distrib unat_mod_distrib)
  then have "a div b = q" "a mod b = r" by (simp_all add: word_unat_eq_iff)
  then show ?thesis by (simp only: divmod_impl_def n(1) option.map prod.case Let_def f)
qed

lemma div3_eq:
  fixes a b :: "'a::len word"
  assumes "b \<noteq> 0" and L: "LENGTH('a) \<le> 64"
  shows "div3 a b = Some (word_of_int (sint a sdiv sint b))"
    and "mod3 a b = Some (word_of_int (sint a smod sint b))"
proof -
  define x y where "x = (if a <s 0 then - a else a)" and "y = (if b <s 0 then - b else b)"
  have xy: "unat x = nat \<bar>sint a\<bar>" "unat y = nat \<bar>sint b\<bar>" unfolding x_def y_def unat_magnitude by simp_all
  have y: "y \<noteq> 0" using assms(1) by (simp add: y_def)
  have sb: "sint b \<noteq> 0" using assms(1) by (simp add: signed_eq_0_iff)
  have u: "unat (x div y) = nat (\<bar>sint a\<bar> div \<bar>sint b\<bar>)" "unat (x mod y) = nat (\<bar>sint a\<bar> mod \<bar>sint b\<bar>)"
    by (simp_all only: unat_div_distrib unat_mod_distrib xy nat_div_distrib nat_mod_distrib abs_ge_zero)
  have nn: "0 \<le> \<bar>sint a\<bar> div \<bar>sint b\<bar>" "0 \<le> \<bar>sint a\<bar> mod \<bar>sint b\<bar>"
    using sb by (simp_all add: pos_imp_zdiv_nonneg_iff)
  have q: "x div y = word_of_int (\<bar>sint a\<bar> div \<bar>sint b\<bar>)" "x mod y = word_of_int (\<bar>sint a\<bar> mod \<bar>sint b\<bar>)"
    by (rule of_nat_unat_id[of "x div y", unfolded u of_nat_nat[OF nn(1)], symmetric],
        rule of_nat_unat_id[of "x mod y", unfolded u of_nat_nat[OF nn(2)], symmetric])
  have sg: "a <s 0 \<longleftrightarrow> sint a < 0" "b <s 0 \<longleftrightarrow> sint b < 0" by (simp_all add: word_sless_alt)
  have "div3 a b = Some (if (sint a < 0) \<noteq> (sint b < 0) then - (x div y) else x div y)"
    using assms divmod_impl_correct[OF y L, of x] by (simp add: div3_def Let_def x_def y_def sg)
  also have "\<dots> = Some (word_of_int (sint a sdiv sint b))"
    using sb by (auto simp: q signed_divide_int_def sgn_if)
  finally show "div3 a b = Some (word_of_int (sint a sdiv sint b))" .
  have "mod3 a b = Some (if sint a < 0 then - (x mod y) else x mod y)"
    using assms divmod_impl_correct[OF y L, of x] by (simp add: mod3_def Let_def x_def y_def sg)
  also have "\<dots> = Some (word_of_int (sint a smod sint b))"
    using sb by (auto simp: q signed_modulo_int_def sgn_if)
  finally show "mod3 a b = Some (word_of_int (sint a smod sint b))" .
qed

section \<open>Products\<close>

lemma take_bit_Suc_word:
  "take_bit (Suc i) (b :: 'a::len word) = take_bit i b + (if bit b i then push_bit i 1 else 0)"
proof -
  let ?t = "if bit b i then push_bit i 1 else 0 :: 'a word"
  have "take_bit (Suc i) b = take_bit i b OR ?t"
    by (rule bit_word_eqI) (auto simp: bit_simps less_Suc_eq)
  also have "\<dots> = take_bit i b + ?t"
    by (rule disjunctive_add_eq_or[symmetric], rule bit_word_eqI) (auto simp: bit_simps)
  finally show ?thesis .
qed

lemma mulsi3_loop:
  assumes "i \<le> 32"
  shows "\<exists>r y. (mulsi3_step ^^ i) (0, a, b) = (r, push_bit i a, y) \<and> r = a * take_bit i b \<and>
    (\<forall>n. n + i < 32 \<longrightarrow> bit y n = bit b (n + i))"
  using assms
proof (induction i)
  case (Suc i)
  then obtain r y where IH: "(mulsi3_step ^^ i) (0, a, b) = (r, push_bit i a, y)" "r = a * take_bit i b"
    "\<forall>n. n + i < 32 \<longrightarrow> bit y n = bit b (n + i)" by auto
  have y0: "y AND 1 \<noteq> 0 \<longleftrightarrow> bit b i"
    using IH(3) Suc.prems and_exp_eq_0_iff_not_bit[of y 0] by simp
  have t: "take_bit (Suc i) b = take_bit i b + (if bit b i then push_bit i 1 else 0)"
    by (rule take_bit_Suc_word)
  have "(if y AND 1 \<noteq> 0 then r + push_bit i a else r) = a * take_bit (Suc i) b"
    unfolding y0 t IH(2) by (simp add: push_bit_eq_mult algebra_simps)
  moreover have "\<forall>n. n + Suc i < 32 \<longrightarrow> bit (signed_drop_bit 1 y) n = bit b (n + Suc i)"
    using IH(3) by (auto simp: bit_signed_drop_bit_iff)
  moreover have "push_bit 1 (push_bit i a) = push_bit (Suc i) a" by (simp add: push_bit_push_bit del: push_bit_Suc)
  moreover have "(mulsi3_step ^^ Suc i) (0, a, b) =
    (if y AND 1 \<noteq> 0 then r + push_bit i a else r, push_bit 1 (push_bit i a), signed_drop_bit 1 y)"
    unfolding funpow.simps comp_apply IH(1) by (simp only: mulsi3_step_def prod.case)
  ultimately show ?case by auto
qed simp

lemma mulsi3_eq: "mulsi3 a b = a * b"
proof -
  have "take_bit 32 b = b" by (rule bit_word_eqI) (simp add: bit_take_bit_iff)
  then show ?thesis using mulsi3_loop[of 32 a b] by (auto simp: mulsi3_def)
qed

lemma odd_mult_cancel:
  fixes x y z :: "'a::len word"
  assumes "odd (unat x)" and "x * y = x * z"
  shows "y = z"
proof -
  have "x * (y - z) = 0" using assms(2) by (simp add: right_diff_distrib)
  then have "unat x * unat (y - z) mod 2 ^ LENGTH('a) = 0" by (metis unat_word_ariths(2) unsigned_0)
  then have "2 ^ LENGTH('a) dvd unat x * unat (y - z)" by (simp add: mod_eq_0_iff_dvd)
  moreover have "coprime (2 ^ LENGTH('a)) (unat x)" using assms(1) by simp
  ultimately have "2 ^ LENGTH('a) dvd unat (y - z)" by (simp add: coprime_dvd_mult_right_iff)
  then have "unat (y - z) = 0" using unat_less[of "y - z"] by (meson nat_dvd_not_less neq0_conv)
  then show ?thesis by (simp add: unat_eq_0)
qed

section \<open>Zero counts\<close>

text \<open>Each round of the smearing loop doubles the distance a set bit has spread downwards.\<close>

lemma smear_bits:
  "(\<And>n. bit x n \<longleftrightarrow> (\<exists>j < i. bit a (n + j))) \<Longrightarrow> bit (smear k i x) n \<longleftrightarrow> (\<exists>j < i * 2 ^ k. bit a (n + j))"
proof (induction k arbitrary: i x n)
  case (Suc k)
  have "bit (x OR drop_bit i x) n \<longleftrightarrow> (\<exists>j < i * 2. bit a (n + j))" for n
  proof -
    have "bit (x OR drop_bit i x) n \<longleftrightarrow> (\<exists>j < i. bit a (n + j)) \<or> (\<exists>j < i. bit a (i + n + j))"
      by (simp add: bit_or_iff bit_drop_bit_eq Suc.prems)
    also have "\<dots> \<longleftrightarrow> (\<exists>j < i * 2. bit a (n + j))"
    proof
      assume "(\<exists>j < i. bit a (n + j)) \<or> (\<exists>j < i. bit a (i + n + j))"
      then show "\<exists>j < i * 2. bit a (n + j)"
      proof
        assume "\<exists>j < i. bit a (i + n + j)"
        then obtain j where "j < i" "bit a (n + (i + j))" by (auto simp: ac_simps)
        then show ?thesis by (intro exI[of _ "i + j"]) simp
      next
        assume "\<exists>j < i. bit a (n + j)"
        then obtain j where "j < i" "bit a (n + j)" by blast
        then show ?thesis by (intro exI[of _ j]) simp
      qed
    next
      assume "\<exists>j < i * 2. bit a (n + j)"
      then obtain j where j: "j < i * 2" "bit a (n + j)" by blast
      show "(\<exists>j < i. bit a (n + j)) \<or> (\<exists>j < i. bit a (i + n + j))"
      proof (cases "j < i")
        case False
        then have "bit a (i + n + (j - i))" "j - i < i" using j by (simp_all add: ac_simps)
        then show ?thesis by blast
      qed (use j in blast)
    qed
    finally show ?thesis .
  qed
  then show ?case using Suc.IH[of "x OR drop_bit i x" "i * 2"] by (simp add: ac_simps)
qed simp

text \<open>Position \<open>k\<close> holds the highest set bit.\<close>

definition highest_bit :: "'a::len word \<Rightarrow> nat \<Rightarrow> bool" where
  "highest_bit x k \<longleftrightarrow> bit x k \<and> (\<forall>j>k. \<not> bit x j)"

lemma highest_bit_exists:
  assumes "(x :: 'a::len word) \<noteq> 0"
  shows "\<exists>k < LENGTH('a). highest_bit x k"
proof -
  let ?S = "{k. bit x k}"
  have S: "finite ?S" "?S \<noteq> {}"
    using assms by (auto simp: bit_eq_iff dest: bit_imp_le_length intro: finite_subset[of _ "{..<LENGTH('a)}"])
  then have "Max ?S \<in> ?S" by (rule Max_in)
  moreover have "\<not> bit x j" if "Max ?S < j" for j
  proof
    assume "bit x j"
    then have "j \<le> Max ?S" by (intro Max_ge S(1)) simp
    then show False using that by simp
  qed
  ultimately have "highest_bit x (Max ?S)" unfolding highest_bit_def by blast
  moreover from this have "Max ?S < LENGTH('a)" unfolding highest_bit_def by (blast dest: bit_imp_le_length)
  ultimately show ?thesis by blast
qed

lemma smear_mask:
  fixes a :: "'a::len word"
  assumes "highest_bit a k" and "LENGTH('a) = 2 ^ n"
  shows "smear n 1 a = mask (Suc k)"
proof (rule bit_word_eqI)
  fix m assume m: "m < LENGTH('a)"
  have "bit (smear n 1 a) m \<longleftrightarrow> (\<exists>j < 1 * 2 ^ n. bit a (m + j))" by (rule smear_bits) auto
  also have "\<dots> \<longleftrightarrow> m \<le> k"
  proof
    assume "m \<le> k"
    moreover have "k < LENGTH('a)" using assms(1) by (auto simp: highest_bit_def dest: bit_imp_le_length)
    ultimately show "\<exists>j < 1 * 2 ^ n. bit a (m + j)"
      using assms by (intro exI[of _ "k - m"]) (auto simp: highest_bit_def)
  next
    assume "\<exists>j < 1 * 2 ^ n. bit a (m + j)"
    then show "m \<le> k" using assms(1) by (auto simp: highest_bit_def) (meson le_add1 le_trans not_le)
  qed
  finally show "bit (smear n 1 a) m = bit (mask (Suc k) :: 'a word) m"
    using m by (simp add: bit_mask_iff less_Suc_eq_le)
qed

lemma smear_plus_one:
  "highest_bit (a :: 'a::len word) k \<Longrightarrow> LENGTH('a) = 2 ^ n \<Longrightarrow> smear n 1 a + 1 = push_bit (Suc k) 1"
  by (simp only: smear_mask mask_eq_exp_minus_1 push_bit_eq_mult diff_add_cancel mult_1)

lemma clz_tables:
  "list_all (\<lambda>k. clzsi2_table ! unat (drop_bit 27 (push_bit (Suc k) 1 * (0x076be629 :: u32))) = 31 - int k) [0..<32]"
  "list_all (\<lambda>k. clzdi2_table ! unat (drop_bit 58 (push_bit (Suc k) 1 * (0x0218a392cd3d5dbf :: u64))) = 63 - int k) [0..<64]"
  by code_simp+

lemma ctz_tables:
  "list_all (\<lambda>k. ctzsi2_table ! unat (drop_bit 27 (push_bit k 1 * (0x076be629 :: u32))) = int k) [0..<32]"
  "list_all (\<lambda>k. ctzdi2_table ! unat (drop_bit 58 (push_bit k 1 * (0x0218a392cd3d5dbf :: u64))) = int k) [0..<64]"
  by code_simp+

lemma clz2_highest:
  "highest_bit a k \<Longrightarrow> clzsi2 a = 31 - int k" "highest_bit b k \<Longrightarrow> clzdi2 b = 63 - int k"
proof -
  assume h: "highest_bit a k"
  then have "k < 32" by (auto simp: highest_bit_def dest: bit_imp_le_length)
  then show "clzsi2 a = 31 - int k"
    using clz_tables(1) smear_plus_one[OF h, of 5] unfolding clzsi2_def Let_def list_all_iff by simp
next
  assume h: "highest_bit b k"
  then have "k < 64" by (auto simp: highest_bit_def dest: bit_imp_le_length)
  then show "clzdi2 b = 63 - int k"
    using clz_tables(2) smear_plus_one[OF h, of 6] unfolding clzdi2_def Let_def list_all_iff by simp
qed

lemma ctz2_lowest:
  "lowest_bit a k \<Longrightarrow> ctzsi2 a = int k" "lowest_bit b k \<Longrightarrow> ctzdi2 b = int k"
proof -
  assume h: "lowest_bit a k"
  have "a AND NOT (a - 1) = push_bit k 1"
    using and_minus_lowest_bit[OF h] by (simp add: minus_eq_not_minus_1)
  then show "ctzsi2 a = int k"
    using ctz_tables(1) lowest_bit_less[OF h] unfolding ctzsi2_def Let_def list_all_iff by simp
next
  assume h: "lowest_bit b k"
  have "b AND NOT (b - 1) = push_bit k 1"
    using and_minus_lowest_bit[OF h] by (simp add: minus_eq_not_minus_1)
  then show "ctzdi2 b = int k"
    using ctz_tables(2) lowest_bit_less[OF h] unfolding ctzdi2_def Let_def list_all_iff by simp
qed

text \<open>The highest set bit bounds the value, which fixes the binary search of \<^const>\<open>clz64\<close>.\<close>

lemma highest_bit_bounds:
  fixes x :: "'a::len word"
  assumes "highest_bit x k"
  shows "2 ^ k \<le> unat x" and "unat x < 2 ^ Suc k"
proof -
  have "take_bit (Suc k) x = x"
    by (rule bit_word_eqI) (use assms in \<open>auto simp: highest_bit_def bit_take_bit_iff not_less_eq\<close>)
  then have "take_bit (Suc k) (unat x) = unat x" by (metis unsigned_take_bit_eq)
  then show "unat x < 2 ^ Suc k" by (simp only: take_bit_nat_eq_self_iff)
  have "bit (unat x) k" using assms by (auto simp: highest_bit_def bit_unsigned_iff dest: bit_imp_le_length)
  then have "odd (unat x div 2 ^ k)" by (rule bit_iff_odd[THEN iffD1])
  then show "2 ^ k \<le> unat x" by (cases "unat x < 2 ^ k") auto
qed

lemma normal_exponent_unique:
  assumes "2 ^ w \<le> x * 2 ^ n" "x * 2 ^ n < 2 ^ Suc w" "2 ^ k \<le> x" "x < (2::nat) ^ Suc k"
  shows "n + k = w"
proof -
  have "(2::nat) ^ (k + n) \<le> x * 2 ^ n" "x * 2 ^ n < 2 ^ (Suc k + n)"
    using assms(3,4) by (simp_all add: power_add)
  then have "(2::nat) ^ (k + n) < 2 ^ Suc w" "(2::nat) ^ w < 2 ^ (Suc k + n)" using assms(1,2) by linarith+
  then have "k + n < Suc w" "w < Suc k + n" by (meson power_less_imp_less_exp one_less_numeral_iff semiring_norm(76))+
  then show ?thesis by simp
qed

lemma clz_highest: "highest_bit a k \<Longrightarrow> clz32 a = 31 - int k" "highest_bit b k \<Longrightarrow> clz64 b = 63 - int k"
proof -
  assume h: "highest_bit a k"
  then have "a \<noteq> 0" by (auto simp: highest_bit_def)
  then obtain n where n: "clz32 a = int n" "2 ^ 31 \<le> unat a * 2 ^ n" "unat a * 2 ^ n < 2 ^ Suc 31"
    using clz32_normalises by auto
  then show "clz32 a = 31 - int k"
    using normal_exponent_unique[OF n(2,3) highest_bit_bounds[OF h]] by linarith
next
  assume h: "highest_bit b k"
  then have "b \<noteq> 0" by (auto simp: highest_bit_def)
  then obtain n where n: "clz64 b = int n" "2 ^ 63 \<le> unat b * 2 ^ n" "unat b * 2 ^ n < 2 ^ Suc 63"
    using clz64_normalises by auto
  then show "clz64 b = 63 - int k"
    using normal_exponent_unique[OF n(2,3) highest_bit_bounds[OF h]] by linarith
qed

section \<open>Properties\<close>

text \<open>
  C19: the shift-and-subtract division returns for every pair of operands, with the quotient and
  remainder of the unsigned division; dividing by zero gives all ones and the dividend.
\<close>

theorem udivmod4_correct:
  fixes a b :: "'a::len word"
  assumes "LENGTH('a) \<le> 64"
  shows "udivmod4 a b = Some (if b = 0 then (- 1, a) else (a div b, a mod b))"
  using divmod_impl_correct[OF _ assms, of b a] by (simp add: udivmod4_def)

theorem udivmod4_correct_witness:
  "LENGTH(64) \<le> 64 \<and> udivmod4 (1000003 :: u64) 1009 = Some (991, 84)"
  using udivmod4_correct[where 'a = 64, of 1000003 1009] by simp

text \<open>
  C20: the signed division and remainder truncate towards zero as C prescribes, with the result
  wrapped to the width (the quotient of the minimal value by minus one).
\<close>

theorem signed_div_mod_correct:
  fixes a b :: "'a::len word"
  assumes "LENGTH('a) \<le> 64" and "b \<noteq> 0"
  shows "div3 a b = Some (word_of_int (sint a sdiv sint b)) \<and> mod3 a b = Some (word_of_int (sint a smod sint b))"
  using div3_eq[OF assms(2,1)] by blast

theorem signed_div_mod_correct_witness:
  "LENGTH(32) \<le> 64 \<and> (3 :: u32) \<noteq> 0 \<and> div3 (- 7 :: u32) 3 = Some (- 2) \<and> mod3 (- 7 :: u32) 3 = Some (- 1)"
  using signed_div_mod_correct[where 'a = 32, of 3 "- 7"] by simp

text \<open>
  C36: the compiler's table-driven zero counts agree with the kernel's own on every non-zero
  word, at both widths.
\<close>

theorem zero_counts_agree:
  assumes "a \<noteq> 0" and "b \<noteq> 0"
  shows "clzsi2 a = clz32 a \<and> ctzsi2 a = ctz32 a \<and> clzdi2 b = clz64 b \<and> ctzdi2 b = ctz64 b"
proof -
  obtain h l h' l' where "highest_bit a h" "lowest_bit a l" "highest_bit b h'" "lowest_bit b l'"
    using assms highest_bit_exists lowest_bit_exists by meson
  then show ?thesis by (simp only: clz2_highest clz_highest ctz2_lowest bit_search_lowest simp_thms)
qed

theorem zero_counts_agree_witness:
  "(0x00F0 :: u32) \<noteq> 0 \<and> (0x0F00 :: u64) \<noteq> 0 \<and> clzsi2 0x00F0 = clz32 0x00F0 \<and> ctzdi2 0x0F00 = ctz64 0x0F00"
  using zero_counts_agree[of "0x00F0" "0x0F00"] by simp

text \<open>
  C32: \<^verbatim>\<open>__mulsi3\<close> is the product; \<^verbatim>\<open>__muldi3\<close> is the product only when the multiplier is
  below 64, for every odd multiplicand: it masks the multiplier like a shift amount.
\<close>

theorem mul_routines:
  assumes "odd (unat x)"
  shows "mulsi3 a b = a * b \<and> (mul3 (x :: u64) y = x * y \<longleftrightarrow> y < 64)"
proof -
  have m: "oper_mask y = take_bit 6 y" by (simp add: oper_mask_def take_bit_eq_mask mask_eq_exp_minus_1)
  have "mul3 x y = x * y \<longleftrightarrow> take_bit 6 y = y"
    using odd_mult_cancel[OF assms, of "take_bit 6 y" y] by (auto simp: mul3_def m)
  also have "\<dots> \<longleftrightarrow> y < 64"
    by (simp add: word_less_nat_alt word_unat_eq_iff unsigned_take_bit_eq take_bit_nat_eq_self_iff)
  finally show ?thesis by (simp add: mulsi3_eq)
qed

theorem mul_routines_witness:
  "odd (unat (3 :: u64)) \<and> mul3 (3 :: u64) 64 \<noteq> 3 * 64"
  using mul_routines[of 3 0 0 64] by simp

end
