(* ===== verification/Packed_Fields.thy ===== *)
theory Packed_Fields
  imports Badger_Prelude
begin

text \<open>
  Words that hold several small fields side by side: the binary-coded-decimal buffers of
  \<^verbatim>\<open>num_to_str.c\<close> and the partial sums of the population counts of \<^verbatim>\<open>bitops.h\<close>.
  \<open>pack w ds\<close> is the number whose \<open>w\<close>-bit fields, lowest first, are \<open>ds\<close>.
\<close>

primrec pack :: "nat \<Rightarrow> nat list \<Rightarrow> nat" where
  "pack w [] = 0"
| "pack w (d # ds) = d + 2 ^ w * pack w ds"

abbreviation fields_below :: "nat \<Rightarrow> nat list \<Rightarrow> bool" where
  "fields_below b ds \<equiv> \<forall>d \<in> set ds. d < b"

lemma pack_append [packed_simps]: "pack w (as @ bs) = pack w as + 2 ^ (w * length as) * pack w bs"
  by (induction as) (simp_all add: power_add algebra_simps)

lemma pack_less: "fields_below (2 ^ w) ds \<Longrightarrow> pack w ds < 2 ^ (w * length ds)"
proof (induction ds)
  case (Cons d ds)
  then have "pack w ds + 1 \<le> 2 ^ (w * length ds)" and "d < 2 ^ w" by auto
  then have "d + 2 ^ w * pack w ds < 2 ^ w * (pack w ds + 1)" by simp
  also have "\<dots> \<le> 2 ^ w * 2 ^ (w * length ds)"
    using \<open>pack w ds + 1 \<le> 2 ^ (w * length ds)\<close> by (rule mult_le_mono2)
  finally show ?case by (simp add: power_add)
qed simp

text \<open>Bit \<open>n\<close> of a packed number is a bit of field \<open>n div w\<close>.\<close>

lemma bit_add_shifted:
  assumes "(d::nat) < 2 ^ w"
  shows "bit (d + 2 ^ w * x) n \<longleftrightarrow> (if n < w then bit d n else bit x (n - w))"
proof -
  have d: "take_bit w d = d" using assms by (simp add: take_bit_nat_eq_self)
  have "d + 2 ^ w * x = d + push_bit w x" by (simp add: push_bit_eq_mult mult.commute)
  also have "\<dots> = d OR push_bit w x"
    by (rule disjunctive_add_eq_or, rule bit_eqI)
       (metis bit_0_eq bit_and_iff bit_push_bit_iff bit_take_bit_iff bot_apply d leD bot_bool_def)
  finally show ?thesis
    by (auto simp: bit_or_iff bit_push_bit_iff) (metis bit_take_bit_iff d)+
qed

lemma bit_pack:
  assumes "fields_below (2 ^ w) ds" and "0 < w"
  shows "bit (pack w ds) n \<longleftrightarrow> n div w < length ds \<and> bit (ds ! (n div w)) (n mod w)"
  using assms(1)
proof (induction ds arbitrary: n)
  case (Cons d ds)
  then have IH: "bit (pack w ds) m \<longleftrightarrow> m div w < length ds \<and> bit (ds ! (m div w)) (m mod w)" for m
    by simp
  show ?case
  proof (cases "n < w")
    case True
    then show ?thesis using Cons.prems by (simp add: bit_add_shifted)
  next
    case False
    then have "n div w = Suc ((n - w) div w)" and "n mod w = (n - w) mod w"
      using assms(2) by (simp_all add: le_div_geq le_mod_geq)
    then show ?thesis using False Cons.prems IH[of "n - w"] by (simp add: bit_add_shifted)
  qed
qed simp

lemma replicate_numeral [packed_simps]: "replicate (numeral k) x = x # replicate (pred_numeral k) x"
  by (simp add: numeral_eq_Suc)

text \<open>Field-wise operations.\<close>

lemma pack_map_add [packed_simps]:
  "pack w (map (\<lambda>x. f x + g x) xs) = pack w (map f xs) + pack w (map g xs)"
  by (induction xs) (simp_all add: algebra_simps)

lemma pack_map_mult [packed_simps]: "pack w (map (\<lambda>x. c * f x) xs) = c * pack w (map f xs)"
  by (induction xs) (simp_all add: algebra_simps)

lemma pack_map_diff:
  "(\<forall>x \<in> set xs. g x \<le> f x) \<Longrightarrow> pack w (map (\<lambda>x. f x - g x) xs) = pack w (map f xs) - pack w (map g xs)"
proof (induction xs)
  case (Cons x xs)
  have "pack w (map g xs) \<le> pack w (map f xs)" using Cons.prems
    by (induction xs) (auto intro!: add_mono)
  then show ?case using Cons by (simp add: algebra_simps diff_mult_distrib2)
qed simp

lemma pack_eq_iff:
  "fields_below (2 ^ w) as \<Longrightarrow> fields_below (2 ^ w) bs \<Longrightarrow> length as = length bs \<Longrightarrow>
    pack w as = pack w bs \<longleftrightarrow> as = bs"
proof (induction as arbitrary: bs)
  case (Cons a as)
  then obtain b bs' where bs: "bs = b # bs'" by (cases bs) auto
  have "a = b" if "a + 2 ^ w * pack w as = b + 2 ^ w * pack w bs'"
  proof -
    from that have "(a + 2 ^ w * pack w as) mod 2 ^ w = (b + 2 ^ w * pack w bs') mod 2 ^ w" by simp
    then show ?thesis using Cons.prems by (simp add: bs)
  qed
  then show ?case using Cons by (auto simp: bs)
qed simp

text \<open>Reading field \<open>i\<close> back with a shift and a mask.\<close>

lemma pack_field:
  assumes "fields_below (2 ^ w) ds" and "i < length ds"
  shows "pack w ds div 2 ^ (w * i) mod 2 ^ w = ds ! i"
  using assms
proof (induction ds arbitrary: i)
  case (Cons d ds)
  then have d: "d < 2 ^ w" by simp
  show ?case
  proof (cases i)
    case 0
    then show ?thesis using d by simp
  next
    case (Suc j)
    have "(d + 2 ^ w * pack w ds) div 2 ^ (w * i) = ((d + 2 ^ w * pack w ds) div 2 ^ w) div 2 ^ (w * j)"
      by (simp add: Suc power_add div_mult2_eq)
    also have "(d + 2 ^ w * pack w ds) div 2 ^ w = pack w ds" using d by simp
    finally show ?thesis using Cons Suc by simp
  qed
qed simp

end
