(* ===== verification/Mem_String.thy ===== *)
theory Mem_String
  imports Badger_Prelude
begin

text \<open>
  The freestanding memory and string routines, \<^verbatim>\<open>kernel/src/freestanding/string.c\<close>. Memory is
  a map from 64-bit addresses to bytes; an access of \<open>w\<close> bytes reads or writes a list of \<open>w\<close> bytes
  (little endian), so a wide copy loads the whole element before it stores it.
\<close>

section \<open>Definitions\<close>

type_synonym mem = "usize \<Rightarrow> u8"

definition load :: "nat \<Rightarrow> mem \<Rightarrow> usize \<Rightarrow> u8 list" where
  "load w m a = map (\<lambda>j. m (a + of_nat j)) [0..<w]"

definition store :: "mem \<Rightarrow> usize \<Rightarrow> u8 list \<Rightarrow> mem" where
  "store m a bs = (\<lambda>x. if unat (x - a) < length bs then bs ! unat (x - a) else m x)"

subsection \<open>Strings\<close>

partial_function (option) strlen_loop :: "mem \<Rightarrow> usize \<Rightarrow> usize option" where
  "strlen_loop m ptr = (if m ptr = 0 then Some ptr else strlen_loop m (ptr + 1))"

definition strlen :: "mem \<Rightarrow> usize \<Rightarrow> usize option" where
  "strlen m string = map_option (\<lambda>ptr. ptr - string) (strlen_loop m string)"

function strnlen_loop :: "mem \<Rightarrow> usize \<Rightarrow> usize \<Rightarrow> usize \<Rightarrow> usize" where
  "strnlen_loop m string max_len i =
     (if i < max_len then
        if m (string + i) = 0 then i else strnlen_loop m string max_len (i + 1)
      else max_len)"
  by pat_completeness auto
termination
proof (relation "measure (\<lambda>(m, string, max_len, i). unat max_len - unat i)")
  fix m :: mem and string max_len i :: usize
  assume lt: "i < max_len"
  then have "unat i < unat max_len" "unat (i + 1) = unat i + 1"
    by (simp_all add: word_less_nat_alt unat_plus_one)
  then show "((m, string, max_len, i + 1), m, string, max_len, i)
      \<in> measure (\<lambda>(m, string, max_len, i). unat max_len - unat i)" by simp
qed simp

declare strnlen_loop.simps [simp del]

definition strnlen :: "mem \<Rightarrow> usize \<Rightarrow> usize \<Rightarrow> usize" where
  "strnlen m string max_len = strnlen_loop m string max_len 0"

subsection \<open>Copying\<close>

definition copy_elem :: "nat \<Rightarrow> usize \<Rightarrow> usize \<Rightarrow> nat \<Rightarrow> mem \<Rightarrow> mem" where
  "copy_elem w dest src i m = store m (dest + of_nat (i * w)) (load w m (src + of_nat (i * w)))"

definition mem_copy_impl :: "nat \<Rightarrow> mem \<Rightarrow> usize \<Rightarrow> usize \<Rightarrow> usize \<Rightarrow> mem" where
  "mem_copy_impl w m dest src sz =
     (let n = unat sz div w in
      if dest < src then fold (copy_elem w dest src) [0..<n] m
      else if src < dest then fold (copy_elem w dest src) (rev [0..<n]) m
      else m)"

definition memmove :: "mem \<Rightarrow> usize \<Rightarrow> usize \<Rightarrow> usize \<Rightarrow> mem \<times> usize" where
  "memmove m dest src sz =
     (let align_detector = dest OR src OR sz;
          m = (if align_detector AND 1 \<noteq> 0 then mem_copy_impl 1 m dest src sz
               else if align_detector AND 2 \<noteq> 0 then mem_copy_impl 2 m dest src sz
               else if align_detector AND 4 \<noteq> 0 then mem_copy_impl 4 m dest src sz
               else mem_copy_impl 8 m dest src sz)
      in (m, dest))"

definition memcpy :: "mem \<Rightarrow> usize \<Rightarrow> usize \<Rightarrow> usize \<Rightarrow> mem \<times> usize" where
  "memcpy m dest src sz = memmove m dest src sz"

subsection \<open>Filling\<close>

text \<open>The assignment converts the byte to the element type: its other bytes are zero.\<close>

definition mem_set_impl :: "nat \<Rightarrow> mem \<Rightarrow> usize \<Rightarrow> u8 \<Rightarrow> usize \<Rightarrow> mem" where
  "mem_set_impl w m dest value sz =
     fold (\<lambda>i m. store m (dest + of_nat (i * w)) (value # replicate (w - 1) 0)) [0..<unat sz div w] m"

definition memset :: "mem \<Rightarrow> usize \<Rightarrow> u8 \<Rightarrow> usize \<Rightarrow> mem \<times> usize" where
  "memset m dest value sz =
     (let align_detector = dest OR sz;
          m = (if align_detector AND 1 \<noteq> 0 then mem_set_impl 1 m dest value sz
               else if align_detector AND 2 \<noteq> 0 then mem_set_impl 2 m dest value sz
               else if align_detector AND 4 \<noteq> 0 then mem_set_impl 4 m dest value sz
               else mem_set_impl 8 m dest value sz)
      in (m, dest))"

section \<open>Element loops\<close>

lemma store_at: "store m a bs x = (if unat (x - a) < length bs then bs ! unat (x - a) else m x)"
  by (simp add: store_def)

lemma length_load [simp]: "length (load w m a) = w"
  by (simp add: load_def)

lemma nth_load: "k < w \<Longrightarrow> load w m a ! k = m (a + of_nat k)"
  by (simp add: load_def)

lemma copy_elem_at:
  "copy_elem w dest src i m x =
     (if unat (x - (dest + of_nat (i * w))) < w then m (src + (x - dest)) else m x)"
proof -
  let ?k = "of_nat (i * w) :: usize"
  have "src + ?k + (x - (dest + ?k)) = src + (x - dest)" by (simp only: diff_conv_add_uminus minus_add) (simp add: ac_simps)
  then show ?thesis
    unfolding copy_elem_def store_at length_load by (simp only: nth_load of_nat_unat_id cong: if_cong)
qed

text \<open>Offsets from the start of the area: which ones element \<open>i\<close> covers.\<close>

lemma sub_less_iff:
  fixes x k :: usize
  assumes "unat k + w \<le> 2 ^ 64 - 1"
  shows "unat (x - k) < w \<longleftrightarrow> unat k \<le> unat x \<and> unat x < unat k + w"
proof (cases "k \<le> x")
  case True
  then have "unat (x - k) = unat x - unat k" by (rule unat_sub)
  then show ?thesis using True unfolding word_le_nat_alt by linarith
next
  case False
  then have "unat (x - k) = 2 ^ LENGTH(64) - unat k + unat x" by (intro unat_sub_wrap) simp
  moreover have "(2::nat) ^ LENGTH(64) = 2 ^ 64" by simp
  ultimately show ?thesis using False assms unfolding word_le_nat_alt by linarith
qed

lemma elem_offset:
  fixes x dest :: usize
  assumes "(i + 1) * w \<le> 2 ^ 64 - 1"
  shows "unat (x - (dest + of_nat (i * w))) < w \<longleftrightarrow> i * w \<le> unat (x - dest) \<and> unat (x - dest) < (i + 1) * w"
proof -
  let ?k = "of_nat (i * w) :: usize"
  have iw: "(i + 1) * w = i * w + w" by simp
  have k: "unat ?k = i * w" using assms unfolding iw by (intro unat_of_nat_small) simp
  have "x - (dest + ?k) = (x - dest) - ?k" by (rule diff_diff_add[symmetric])
  then show ?thesis using sub_less_iff[of ?k w "x - dest"] assms unfolding k iw by (simp only:)
qed

text \<open>The forward loop, while the source lies above the destination.\<close>

lemma copy_forward:
  assumes "dest < src" and "unat src + N \<le> 2 ^ 64" and "n * w \<le> N" 
  shows "fold (copy_elem w dest src) [0..<n] m x =
    (if unat (x - dest) < n * w then m (src + (x - dest)) else m x)"
  using assms(3)
proof (induction n arbitrary: x)
  case (Suc n)
  let ?f = "fold (copy_elem w dest src) [0..<n] m"
  have pos: "0 < unat src" using assms(1) by (simp add: word_less_nat_alt)
  have off: "unat (x - (dest + of_nat (n * w))) < w \<longleftrightarrow> n * w \<le> unat (x - dest) \<and> unat (x - dest) < (n + 1) * w"
    using Suc.prems assms(2) pos by (intro elem_offset) simp
  have key: "?f (src + (x - dest)) = m (src + (x - dest))"
    if "n * w \<le> unat (x - dest)" "unat (x - dest) < (n + 1) * w"
  proof -
    have d: "unat (src - dest) = unat src - unat dest" and le: "unat dest < unat src"
      using assms(1) by (simp_all add: unat_sub word_less_nat_alt word_le_nat_alt)
    have "src + (x - dest) - dest = (src - dest) + (x - dest)" by simp
    moreover have "unat (src - dest) + unat (x - dest) < 2 ^ LENGTH(64)"
      using that(2) Suc.prems assms(2) d by simp
    ultimately have "unat (src + (x - dest) - dest) = unat (src - dest) + unat (x - dest)"
      by (simp only: unat_add_small)
    then have "\<not> unat (src + (x - dest) - dest) < n * w" using that(1) by linarith
    then show ?thesis using Suc by simp
  qed
  have "n * w \<le> N" using Suc.prems by simp
  note IH = Suc.IH[OF this]
  have "fold (copy_elem w dest src) [0..<Suc n] m x = copy_elem w dest src n ?f x" by simp
  also have "\<dots> = (if n * w \<le> unat (x - dest) \<and> unat (x - dest) < (n + 1) * w then ?f (src + (x - dest)) else ?f x)"
    by (simp only: copy_elem_at off)
  also have "\<dots> = (if unat (x - dest) < Suc n * w then m (src + (x - dest)) else m x)"
    using key IH[of x] by auto
  finally show ?case .
qed simp

text \<open>The backward loop, while the source lies below the destination.\<close>

lemma copy_backward:
  assumes "src < dest" and "unat dest + N \<le> 2 ^ 64" and "n * w \<le> N"
  shows "fold (copy_elem w dest src) (rev [0..<n]) m x =
    (if unat (x - dest) < n * w then m (src + (x - dest)) else m x)"
  using assms(3)
proof (induction n arbitrary: m)
  case (Suc n)
  have pos: "0 < unat dest" using assms(1) by (simp add: word_less_nat_alt)
  let ?g = "copy_elem w dest src n m"
  have off: "unat (y - (dest + of_nat (n * w))) < w \<longleftrightarrow> n * w \<le> unat (y - dest) \<and> unat (y - dest) < (n + 1) * w" for y
    using Suc.prems assms(2) pos by (intro elem_offset) simp
  have key: "?g (src + (x - dest)) = m (src + (x - dest))" if "unat (x - dest) < n * w"
  proof -
    have d: "unat (dest - src) = unat dest - unat src" and le: "unat src < unat dest"
      using assms(1) by (simp_all add: unat_sub word_less_nat_alt word_le_nat_alt)
    have e: "src + (x - dest) - dest = (x - dest) - (dest - src)" by simp
    have "unat (src + (x - dest) - dest) < n * w \<or> (n + 1) * w \<le> unat (src + (x - dest) - dest)"
    proof (cases "dest - src \<le> x - dest")
      case True
      then have "unat ((x - dest) - (dest - src)) = unat (x - dest) - unat (dest - src)" by (rule unat_sub)
      then show ?thesis unfolding e using that by linarith
    next
      case False
      then have "unat ((x - dest) - (dest - src)) = 2 ^ LENGTH(64) - unat (dest - src) + unat (x - dest)"
        by (intro unat_sub_wrap) simp
      moreover have "(n + 1) * w + unat (dest - src) \<le> 2 ^ LENGTH(64)"
        using d Suc.prems assms(2) by simp
      ultimately show ?thesis unfolding e by linarith
    qed
    then show ?thesis by (simp only: copy_elem_at off) auto
  qed
  have "n * w \<le> N" using Suc.prems by simp
  note IH = Suc.IH[OF this]
  have "fold (copy_elem w dest src) (rev [0..<Suc n]) m x = fold (copy_elem w dest src) (rev [0..<n]) ?g x" by simp
  also have "\<dots> = (if unat (x - dest) < n * w then m (src + (x - dest)) else ?g x)"
    using key IH[of ?g] by simp
  also have "?g x = (if n * w \<le> unat (x - dest) \<and> unat (x - dest) < (n + 1) * w then m (src + (x - dest)) else m x)"
    by (simp only: copy_elem_at off)
  finally show ?case by auto
qed simp


text \<open>The selected element size divides the size of the area.\<close>

lemma low_bits_dvd:
  fixes x :: usize
  assumes "\<And>j. j < k \<Longrightarrow> \<not> bit x j"
  shows "2 ^ k dvd unat x"
proof -
  have "take_bit k x = 0" by (rule bit_word_eqI) (auto simp: bit_take_bit_iff assms)
  then have "take_bit k (unat x) = 0" by (metis unsigned_take_bit_eq unsigned_0)
  then show ?thesis by (simp add: take_bit_eq_mod mod_eq_0_iff_dvd)
qed

lemma align_detector_bits:
  fixes x y :: usize
  shows "(x OR y) AND 1 = 0 \<Longrightarrow> \<not> bit y 0" "(x OR y) AND 2 = 0 \<Longrightarrow> \<not> bit y 1" "(x OR y) AND 4 = 0 \<Longrightarrow> \<not> bit y 2"
  using and_exp_eq_0_iff_not_bit[of "x OR y" 0] and_exp_eq_0_iff_not_bit[of "x OR y" 1]
    and_exp_eq_0_iff_not_bit[of "x OR y" 2] by (simp_all add: bit_or_iff)

lemma align_detector_dvd:
  fixes x sz :: usize
  defines "a \<equiv> x OR sz"
  shows "a AND 1 = 0 \<Longrightarrow> 2 dvd unat sz"
    and "a AND 1 = 0 \<Longrightarrow> a AND 2 = 0 \<Longrightarrow> 4 dvd unat sz"
    and "a AND 1 = 0 \<Longrightarrow> a AND 2 = 0 \<Longrightarrow> a AND 4 = 0 \<Longrightarrow> 8 dvd unat sz"
proof -
  have b: "a AND 1 = 0 \<Longrightarrow> \<not> bit sz 0" "a AND 2 = 0 \<Longrightarrow> \<not> bit sz 1" "a AND 4 = 0 \<Longrightarrow> \<not> bit sz 2"
    unfolding a_def by (rule align_detector_bits, assumption)+
  have "(j::nat) < 1 \<Longrightarrow> j = 0" "(j::nat) < 2 \<Longrightarrow> j = 0 \<or> j = 1" "(j::nat) < 3 \<Longrightarrow> j = 0 \<or> j = 1 \<or> j = 2" for j
    by arith+
  note j = this
  show "a AND 1 = 0 \<Longrightarrow> 2 dvd unat sz"
    using low_bits_dvd[of 1 sz] b j(1) by (metis power_one_right)
  show "a AND 1 = 0 \<Longrightarrow> a AND 2 = 0 \<Longrightarrow> 4 dvd unat sz"
    using low_bits_dvd[of 2 sz] b j(2) by (metis power2_eq_square mult_2 numeral_Bit0)
  show "a AND 1 = 0 \<Longrightarrow> a AND 2 = 0 \<Longrightarrow> a AND 4 = 0 \<Longrightarrow> 8 dvd unat sz"
  proof -
    assume "a AND 1 = 0" "a AND 2 = 0" "a AND 4 = 0"
    then have "2 ^ 3 dvd unat sz" using b j(3) by (intro low_bits_dvd) metis
    then show ?thesis by simp
  qed
qed

lemma mem_copy_impl_eq:
  assumes "unat dest + unat sz \<le> 2 ^ 64" and "unat src + unat sz \<le> 2 ^ 64" and "w dvd unat sz"
  shows "mem_copy_impl w m dest src sz = (\<lambda>x. if unat (x - dest) < unat sz then m (src + (x - dest)) else m x)"
proof -
  have n: "unat sz div w * w = unat sz" using assms(3) by simp
  show ?thesis
  proof (cases dest src rule: linorder_cases)
    case less
    then show ?thesis using copy_forward[OF less assms(2), of "unat sz div w" w m]
      by (auto simp: mem_copy_impl_def n)
  next
    case equal
    then show ?thesis by (auto simp: mem_copy_impl_def)
  next
    case greater
    then show ?thesis using copy_backward[OF greater assms(1), of "unat sz div w" w m]
      by (auto simp: mem_copy_impl_def n Let_def fun_eq_iff)
  qed
qed

lemma memmove_eq:
  assumes "unat dest + unat sz \<le> 2 ^ 64" and "unat src + unat sz \<le> 2 ^ 64"
  shows "memmove m dest src sz = ((\<lambda>x. if unat (x - dest) < unat sz then m (src + (x - dest)) else m x), dest)"
  unfolding memmove_def Let_def
  using align_detector_dvd[of "dest OR src" sz, unfolded or.assoc] mem_copy_impl_eq[OF assms] by simp

section \<open>Filling\<close>

lemma fill_loop:
  assumes "n * w \<le> 2 ^ 64 - 1" and "0 < w"
  shows "fold (\<lambda>i m. store m (dest + of_nat (i * w)) (value # replicate (w - 1) 0)) [0..<n] m x =
    (if unat (x - dest) < n * w then (if unat (x - dest) mod w = 0 then value else 0) else m x)"
  using assms(1)
proof (induction n)
  case (Suc n)
  let ?o = "unat (x - dest)" and ?k = "of_nat (n * w) :: usize"
  let ?f = "fold (\<lambda>i m. store m (dest + of_nat (i * w)) (value # replicate (w - 1) 0)) [0..<n] m"
  have lt: "(n + 1) * w \<le> 2 ^ 64 - 1" using Suc.prems by simp
  have off: "unat (x - (dest + ?k)) < w \<longleftrightarrow> n * w \<le> ?o \<and> ?o < (n + 1) * w"
    by (rule elem_offset[OF lt])
  have k: "unat ?k = n * w" using lt by (intro unat_of_nat_small) simp
  have e: "x - (dest + ?k) = (x - dest) - ?k" by (rule diff_diff_add[symmetric])
  have idx: "unat (x - (dest + ?k)) = ?o - n * w" if "n * w \<le> ?o"
    unfolding e using that k by (simp only: unat_sub_small word_le_nat_alt)
  have val: "(value # replicate (w - 1) 0) ! (?o - n * w) = (if ?o mod w = 0 then value else 0)"
    if "n * w \<le> ?o" "?o < (n + 1) * w"
  proof -
    define r where "r = ?o - n * w"
    then have r: "?o = n * w + r" "r < w" using that by simp_all
    have "?o mod w = r" unfolding r(1) using r(2) by simp
    then show ?thesis unfolding r_def[symmetric] using r(2) by (cases r) simp_all
  qed
  have "fold (\<lambda>i m. store m (dest + of_nat (i * w)) (value # replicate (w - 1) 0)) [0..<Suc n] m x =
    store ?f (dest + ?k) (value # replicate (w - 1) 0) x" by simp
  also have "\<dots> = (if n * w \<le> ?o \<and> ?o < (n + 1) * w then (value # replicate (w - 1) 0) ! (?o - n * w) else ?f x)"
    using assms(2) off idx by (simp add: store_at del: of_nat_mult)
  also have "\<dots> = (if ?o < Suc n * w then (if ?o mod w = 0 then value else 0) else m x)"
    using Suc val by auto
  finally show ?case .
qed simp


lemma mem_set_impl_at:
  assumes "w dvd unat sz" and "0 < w"
  shows "mem_set_impl w m dest value sz x =
    (if unat (x - dest) < unat sz then (if unat (x - dest) mod w = 0 then value else 0) else m x)"
proof -
  have n: "unat sz div w * w = unat sz" using assms(1) by simp
  have "unat sz \<le> 2 ^ 64 - 1" using unat_less[of sz] by simp
  then show ?thesis unfolding mem_set_impl_def using fill_loop[of "unat sz div w" w] assms(2) n by simp
qed

section \<open>String lengths\<close>

lemma strlen_loop_finds:
  "(\<And>j. j < k \<Longrightarrow> m (ptr + of_nat j) \<noteq> 0) \<Longrightarrow> m (ptr + of_nat k) = 0 \<Longrightarrow>
    strlen_loop m ptr = Some (ptr + of_nat k)"
proof (induction k arbitrary: ptr)
  case 0
  then show ?case by (simp add: strlen_loop.simps)
next
  case (Suc k)
  have "m ptr \<noteq> 0" using Suc.prems(1)[of 0] by simp
  moreover have "strlen_loop m (ptr + 1) = Some (ptr + 1 + of_nat k)"
    using Suc.prems(1)[of "Suc j" for j] Suc.prems(2) by (intro Suc.IH) (simp_all add: ac_simps)
  ultimately show ?case by (subst strlen_loop.simps) (simp add: ac_simps)
qed

lemma strnlen_loop_counts:
  "unat i + k \<le> unat max_len \<Longrightarrow> (\<And>j. j < k \<Longrightarrow> m (string + i + of_nat j) \<noteq> 0) \<Longrightarrow>
    unat i + k = unat max_len \<or> m (string + i + of_nat k) = 0 \<Longrightarrow>
    strnlen_loop m string max_len i = i + of_nat k"
proof (induction k arbitrary: i)
  case 0
  then show ?case
    by (subst strnlen_loop.simps) (auto simp: word_less_nat_alt word_unat_eq_iff)
next
  case (Suc k)
  have lt: "i < max_len" using Suc.prems(1) by (simp add: word_less_nat_alt)
  have i1: "unat (i + 1) = unat i + 1" using lt by (rule unat_plus_one)
  then have i2: "unat (1 + i) = unat i + 1" by (simp only: add.commute)
  have "m (string + i) \<noteq> 0" using Suc.prems(2)[of 0] by simp
  moreover have "strnlen_loop m string max_len (i + 1) = i + 1 + of_nat k"
    using Suc.prems(1) Suc.prems(2)[of "Suc j" for j] Suc.prems(3)
    by (intro Suc.IH) (simp_all add: i2 ac_simps)
  ultimately show ?case using lt by (subst strnlen_loop.simps) (simp add: ac_simps)
qed

section \<open>Copying between objects\<close>

text \<open>
  Callers outside this file copy between two separate objects through the library routine
  \<^verbatim>\<open>mem_copy\<close>. The contract they rely on: the bytes of the source range replace those of the
  destination range, and nothing else changes.
\<close>

type_synonym mem_copy_fn = "u8 list \<Rightarrow> nat \<Rightarrow> u8 list \<Rightarrow> nat \<Rightarrow> nat \<Rightarrow> u8 list"

locale mem_copier =
  fixes mem_copy :: mem_copy_fn
  assumes mem_copy_eq: "i + n \<le> length dst \<Longrightarrow> j + n \<le> length src \<Longrightarrow> length dst < 2 ^ 62 \<Longrightarrow> length src < 2 ^ 62 \<Longrightarrow>
    mem_copy dst i src j n = take i dst @ take n (drop j src) @ drop (i + n) dst"
begin

lemma length_mem_copy:
  "i + n \<le> length dst \<Longrightarrow> j + n \<le> length src \<Longrightarrow> length dst < 2 ^ 62 \<Longrightarrow> length src < 2 ^ 62 \<Longrightarrow>
    length (mem_copy dst i src j n) = length dst"
  by (simp add: mem_copy_eq)

end

text \<open>
  \<^verbatim>\<open>memmove\<close> between two objects: they are placed in one memory at addresses \<open>2 ^ 62\<close> and
  \<open>2 ^ 63\<close>, and the destination object is read back.
\<close>

definition memmove_objects :: mem_copy_fn where
  "memmove_objects dst i src j n =
     (let d = 2 ^ 62; s = 2 ^ 63;
          m = store (store (\<lambda>_. 0) d dst) s src
      in load (length dst) (fst (memmove m (d + of_nat i) (s + of_nat j) (of_nat n))) d)"

lemma store_hit: "q < length bs \<Longrightarrow> length bs < 2 ^ 62 \<Longrightarrow> store m a bs (a + of_nat q) = bs ! q"
  by (simp add: store_at unat_of_nat_small)

lemma unat_object_addr:
  assumes "q < 2 ^ 62"
  shows "unat (2 ^ 62 + of_nat q :: usize) = 2 ^ 62 + q" and "unat (2 ^ 63 + of_nat q :: usize) = 2 ^ 63 + q"
proof -
  have q: "unat (of_nat q :: usize) = q" using assms by (intro unat_of_nat_small) simp
  show "unat (2 ^ 62 + of_nat q :: usize) = 2 ^ 62 + q"
    using assms q by (subst unat_add_small) (simp_all add: unsigned_numeral)
  show "unat (2 ^ 63 + of_nat q :: usize) = 2 ^ 63 + q"
    using assms q by (subst unat_add_small) (simp_all add: unsigned_numeral)
qed

lemma store_miss_low:
  assumes "q < 2 ^ 62" and "length bs < 2 ^ 62"
  shows "store m (2 ^ 63) bs (2 ^ 62 + of_nat q) = m (2 ^ 62 + of_nat q)"
proof -
  have "(2 ^ 62 + of_nat q :: usize) < 2 ^ 63"
    using unat_object_addr(1)[OF assms(1)] assms(1) by (simp add: word_less_nat_alt)
  then have "unat (2 ^ 62 + of_nat q - 2 ^ 63 :: usize) = 2 ^ LENGTH(64) - unat (2 ^ 63 :: usize) + (2 ^ 62 + q)"
    by (simp only: unat_sub_wrap unat_object_addr(1)[OF assms(1)])
  then show ?thesis using assms(2) by (simp add: store_at)
qed

lemma memmove_objects_eq:
  assumes "i + n \<le> length dst" "j + n \<le> length src" "length dst < 2 ^ 62" "length src < 2 ^ 62"
  shows "memmove_objects dst i src j n = take i dst @ take n (drop j src) @ drop (i + n) dst"
proof (rule nth_equalityI)
  show "length (memmove_objects dst i src j n) = length (take i dst @ take n (drop j src) @ drop (i + n) dst)"
    using assms by (simp add: memmove_objects_def Let_def)
next
  fix k assume "k < length (memmove_objects dst i src j n)"
  then have k: "k < length dst" by (simp add: memmove_objects_def Let_def)
  let ?d = "2 ^ 62 :: usize" and ?s = "2 ^ 63 :: usize"
  let ?m = "store (store (\<lambda>_. 0) ?d dst) ?s src"
  show "memmove_objects dst i src j n ! k = (take i dst @ take n (drop j src) @ drop (i + n) dst) ! k"
  proof -
    have b: "i < 2 ^ 62" "j < 2 ^ 62" "k < 2 ^ 62" "n < 2 ^ 62"
      and u: "unat (of_nat n :: usize) = n" "unat (of_nat k :: usize) = k" "unat (of_nat i :: usize) = i"
      using assms k by (auto intro!: unat_of_nat_small)
    have "memmove_objects dst i src j n ! k = fst (memmove ?m (?d + of_nat i) (?s + of_nat j) (of_nat n)) (?d + of_nat k)"
      using k by (simp add: memmove_objects_def Let_def nth_load)
    also have "\<dots> = (if unat (?d + of_nat k - (?d + of_nat i)) < n
        then ?m (?s + of_nat j + (?d + of_nat k - (?d + of_nat i))) else ?m (?d + of_nat k))"
      using b unat_object_addr(1)[OF b(1)] unat_object_addr(2)[OF b(2)]
      by (subst memmove_eq) (simp_all add: u)
    also have "?d + of_nat k - (?d + of_nat i) = of_nat k - (of_nat i :: usize)" by simp
    also have "unat (of_nat k - of_nat i :: usize) < n \<longleftrightarrow> i \<le> k \<and> k < i + n"
      using sub_less_iff[of "of_nat i" n "of_nat k"] b u by simp
    also have "?m (?d + of_nat k) = dst ! k"
      using b(3) assms(3,4) k by (simp only: store_miss_low store_hit)
    finally have e: "memmove_objects dst i src j n ! k =
      (if i \<le> k \<and> k < i + n then ?m (?s + of_nat j + (of_nat k - of_nat i)) else dst ! k)" .
    have "?m (?s + of_nat j + (of_nat k - of_nat i)) = src ! (j + (k - i))" if "i \<le> k \<and> k < i + n"
    proof -
      have "?s + of_nat j + (of_nat k - of_nat i) = ?s + of_nat (j + (k - i))"
        using that by (simp add: of_nat_diff)
      moreover have "j + (k - i) < length src" using that assms(2) by linarith
      ultimately show ?thesis using assms(4) by (simp only: store_hit)
    qed
    then show ?thesis unfolding e using k assms(1,2) by (auto simp: nth_append)
  qed
qed

text \<open>The kernel's own \<^verbatim>\<open>memmove\<close> meets the contract.\<close>

interpretation memmove: mem_copier memmove_objects
  by unfold_locales (rule memmove_objects_eq)


section \<open>Properties\<close>

text \<open>
  C9: \<^verbatim>\<open>memmove\<close> is a simultaneous copy, whichever element size and direction the code
  selects: afterwards every byte of the destination range is the byte the source range held
  before, even where the two overlap, and every other byte of memory is unchanged. The ranges must
  not wrap around the address space.
\<close>

theorem memmove_correct:
  assumes "unat dest + unat sz \<le> 2 ^ 64" and "unat src + unat sz \<le> 2 ^ 64"
  shows "\<exists>m'. memmove m dest src sz = (m', dest) \<and>
    (\<forall>k < unat sz. m' (dest + of_nat k) = m (src + of_nat k)) \<and>
    (\<forall>x. unat sz \<le> unat (x - dest) \<longrightarrow> m' x = m x)"
proof -
  have "unat (of_nat k :: usize) = k" if "k < unat sz" for k
    using that unat_less[of sz] by (intro unat_of_nat_small) simp
  then show ?thesis using memmove_eq[OF assms] by auto
qed

theorem memmove_correct_witness:
  "unat (0x1001 :: usize) + unat (4 :: usize) \<le> 2 ^ 64 \<and> unat (0x1000 :: usize) + unat (4 :: usize) \<le> 2 ^ 64 \<and>
   (\<exists>m'. memmove (\<lambda>a. ucast a) 0x1001 0x1000 4 = (m', 0x1001) \<and>
     (\<forall>k < unat (4 :: usize). m' (0x1001 + of_nat k) = ucast (0x1000 + of_nat k :: usize)))"
  using memmove_correct[of "0x1001" "4" "0x1000" "\<lambda>a. ucast a"] by auto

text \<open>
  C30: exactly which bytes \<^verbatim>\<open>memset\<close> writes. With an element size of one (address or size odd)
  every byte of the range becomes the value; otherwise only the lowest byte of each 2-, 4- or
  8-byte element does and the others become zero.
\<close>

theorem memset_effect:
  shows "fst (memset m dest value sz) x =
    (let w = (if (dest OR sz) AND 1 \<noteq> 0 then 1 else if (dest OR sz) AND 2 \<noteq> 0 then 2
              else if (dest OR sz) AND 4 \<noteq> 0 then 4 else 8);
         o' = unat (x - dest)
     in if o' < unat sz then (if o' mod w = 0 then value else 0) else m x)"
  unfolding memset_def Let_def using align_detector_dvd[of dest sz] by (simp add: mem_set_impl_at)

text \<open>
  C37: \<^verbatim>\<open>strnlen\<close> returns the offset of the first null byte when it lies below the limit.
\<close>

theorem strnlen_correct:
  assumes "k \<le> unat max_len" and "\<forall>j < k. m (string + of_nat j) \<noteq> 0"
    and "k = unat max_len \<or> m (string + of_nat k) = 0"
  shows "unat (strnlen m string max_len) = k"
proof -
  have "k < 2 ^ 64" using assms(1) unat_less[of max_len] by simp
  then show ?thesis
    using strnlen_loop_counts[of 0 k max_len m string] assms by (simp add: strnlen_def unat_of_nat_small)
qed

theorem strnlen_correct_witness:
  "unat (strnlen (\<lambda>a. if a = 7 then 0 else 65) 5 16) = 2"
  by (rule strnlen_correct) (auto simp: less_2_cases_iff)

end
