(* ===== verification/Num_To_Str.thy ===== *)
theory Num_To_Str
  imports Packed_Fields Mem_String
begin

text \<open>
  Integer to decimal conversion, \<^verbatim>\<open>kernel/src/badgelib/num_to_str.c\<close>. The conversions of
  exact width run the double-dabble algorithm on a binary-coded-decimal buffer. A character buffer
  is a list of bytes; a pointer into it is an offset. \<^verbatim>\<open>-val\<close> of the smallest integer, which the C standard leaves
  undefined, is the two's complement negation that the target's compiler emits.
\<close>

section \<open>Definitions\<close>

subsection \<open>Conversions of exact width\<close>

definition dabble16 :: "u32 \<times> u16 \<Rightarrow> u32 \<times> u16" where
  "dabble16 = (\<lambda>(buf, val).
     let mask = ((buf OR drop_bit 1 buf) AND drop_bit 2 buf) OR drop_bit 3 buf;
         buf = buf + (mask AND 0x11111) * 3;
         buf = push_bit 1 buf;
         buf = buf OR ucast (drop_bit 15 val);
         val = push_bit 1 val
     in (buf, val))"

definition num_uint16_to_str :: "u16 \<Rightarrow> u8 list \<Rightarrow> nat \<Rightarrow> u8 list" where
  "num_uint16_to_str val outbuf off =
     (let buf = ucast (drop_bit 13 val);
          val = push_bit 3 val;
          (buf, val) = (dabble16 ^^ 13) (buf, val)
      in fold (\<lambda>i out. out[off + (4 - i) := 0x30 + ucast (drop_bit (4 * i) buf AND 15)]) [0..<5] outbuf)"

definition dabble32 :: "u64 \<times> u32 \<Rightarrow> u64 \<times> u32" where
  "dabble32 = (\<lambda>(buf, val).
     let mask = ((buf OR drop_bit 1 buf) AND drop_bit 2 buf) OR drop_bit 3 buf;
         buf = buf + (mask AND 0x1111111111) * 3;
         buf = push_bit 1 buf;
         buf = buf OR ucast (drop_bit 31 val);
         val = push_bit 1 val
     in (buf, val))"

definition num_uint32_to_str :: "u32 \<Rightarrow> u8 list \<Rightarrow> nat \<Rightarrow> u8 list" where
  "num_uint32_to_str val outbuf off =
     (let buf = ucast (drop_bit 29 val);
          val = push_bit 3 val;
          (buf, val) = (dabble32 ^^ 29) (buf, val)
      in fold (\<lambda>i out. out[off + (9 - i) := 0x30 + ucast (drop_bit (4 * i) buf AND 15)]) [0..<10] outbuf)"

definition dabble64 :: "u64 \<times> u16 \<times> u64 \<Rightarrow> u64 \<times> u16 \<times> u64" where
  "dabble64 = (\<lambda>(buf_lo, buf_hi, val).
     let mask = ((buf_lo OR drop_bit 1 buf_lo) AND drop_bit 2 buf_lo) OR drop_bit 3 buf_lo;
         buf_lo = buf_lo + (mask AND 0x1111111111111111) * 3;
         mask = ((buf_hi OR drop_bit 1 buf_hi) AND drop_bit 2 buf_hi) OR drop_bit 3 buf_hi;
         buf_hi = buf_hi + (mask AND 0x1111) * 3;
         buf_hi = push_bit 1 buf_hi;
         buf_hi = buf_hi OR ucast (drop_bit 63 buf_lo);
         buf_lo = push_bit 1 buf_lo;
         buf_lo = buf_lo OR drop_bit 63 val;
         val = push_bit 1 val
     in (buf_lo, buf_hi, val))"

definition num_uint64_to_str :: "u64 \<Rightarrow> u8 list \<Rightarrow> nat \<Rightarrow> u8 list" where
  "num_uint64_to_str val outbuf off =
     (let buf_lo = drop_bit 61 val;
          buf_hi = 0;
          val = push_bit 3 val;
          (buf_lo, buf_hi, val) = (dabble64 ^^ 61) (buf_lo, buf_hi, val);
          outbuf = fold (\<lambda>i out. out[off + (19 - i) := 0x30 + ucast (drop_bit (4 * i) buf_lo AND 15)]) [0..<16] outbuf
      in fold (\<lambda>i out. out[off + (3 - i) := 0x30 + ucast (drop_bit (4 * i) buf_hi AND 15)]) [0..<4] outbuf)"

subsection \<open>Conversion of any width\<close>

text \<open>\<^verbatim>\<open>while (buf_digits && outbuf[20 - buf_digits] == '0') buf_digits--;\<close>\<close>

primrec count_digits :: "u8 list \<Rightarrow> nat \<Rightarrow> nat" where
  "count_digits outbuf 0 = 0"
| "count_digits outbuf (Suc n) =
     (if outbuf ! (20 - Suc n) = 0x30 then count_digits outbuf n else Suc n)"

definition num_uint_to_str :: "u64 \<Rightarrow> u8 list \<Rightarrow> u8 list \<times> nat" where
  "num_uint_to_str val outbuf =
     (let (outbuf, buf_digits) =
        (if val AND 0xffffffffffff0000 = 0 then
           (fold (\<lambda>i out. out[i := 0x30]) [0..<15] (num_uint16_to_str (ucast val) outbuf 15), 5)
         else if val AND 0xffffffff00000000 = 0 then
           (fold (\<lambda>i out. out[i := 0x30]) [0..<10] (num_uint32_to_str (ucast val) outbuf 10), 10)
         else (num_uint64_to_str val outbuf 0, 20))
      in (outbuf, count_digits outbuf buf_digits))"

subsection \<open>C strings\<close>

text \<open>
  \<^verbatim>\<open>mem_copy\<close> is code of another library and a parameter here:
  \<open>mem_copy dst i src j n\<close> is the contents of the object \<open>dst\<close> after \<open>n\<close> bytes at offset \<open>j\<close>
  of the object \<open>src\<close> have been copied to offset \<open>i\<close>. \<open>buf\<close> is the uninitialised local array.
  A null output pointer is \<open>None\<close>.
\<close>

definition int_to_cstr :: "mem_copy_fn \<Rightarrow> u8 list \<Rightarrow> u64 \<Rightarrow> u8 list option \<Rightarrow> usize \<Rightarrow> usize \<times> u8 list option" where
  "int_to_cstr mem_copy buf val outbuf sz =
     (case outbuf of None \<Rightarrow> (0, None) | Some outbuf \<Rightarrow>
      if sz = 0 then (0, Some outbuf)
      else if sz = 1 then (0, Some (outbuf[0 := 0]))
      else
        let sign = val <s 0;
            (val, outbuf) = (if sign then (- val, outbuf[0 := 0x2D]) else (val, outbuf));
            (buf, digits) = num_uint_to_str val buf;
            digits = (if digits = 0 then 1 else of_nat digits);
            copy_size = (if digits + of_bool sign < sz - 1 then digits else sz - 1 - of_bool sign);
            outbuf = mem_copy outbuf (of_bool sign) buf (20 - unat copy_size) (unat copy_size);
            outbuf = outbuf[of_bool sign + unat copy_size := 0]
        in (copy_size + of_bool sign, Some outbuf))"

definition uint_to_cstr :: "mem_copy_fn \<Rightarrow> u8 list \<Rightarrow> u64 \<Rightarrow> u8 list option \<Rightarrow> usize \<Rightarrow> usize \<times> u8 list option" where
  "uint_to_cstr mem_copy buf val outbuf sz =
     (case outbuf of None \<Rightarrow> (0, None) | Some outbuf \<Rightarrow>
      if sz = 0 then (0, Some outbuf)
      else if sz = 1 then (0, Some (outbuf[0 := 0]))
      else
        let (buf, digits) = num_uint_to_str val buf;
            digits = (if digits = 0 then 1 else of_nat digits);
            copy_size = (if digits < sz - 1 then digits else sz - 1);
            outbuf = mem_copy outbuf 0 buf (20 - unat copy_size) (unat copy_size);
            outbuf = outbuf[unat copy_size := 0]
        in (copy_size, Some outbuf))"

definition int_to_cstr_packed :: "mem_copy_fn \<Rightarrow> u8 list \<Rightarrow> u64 \<Rightarrow> u8 list option \<Rightarrow> usize \<Rightarrow> usize \<times> u8 list option" where
  "int_to_cstr_packed mem_copy buf val outbuf sz =
     (case outbuf of None \<Rightarrow> (0, None) | Some outbuf \<Rightarrow>
      if sz = 0 then (0, Some outbuf)
      else
        let sign = val <s 0;
            (val, outbuf) = (if sign then (- val, outbuf[0 := 0x2D]) else (val, outbuf));
            (buf, digits) = num_uint_to_str val buf;
            digits = (if digits = 0 then 1 else of_nat digits);
            copy_size = (if digits < sz - of_bool sign then digits else sz - of_bool sign);
            outbuf = mem_copy outbuf (of_bool sign) buf (20 - unat copy_size) (unat copy_size);
            outbuf = (if of_bool sign + copy_size < sz then outbuf[of_bool sign + unat copy_size := 0] else outbuf)
        in (copy_size + of_bool sign, Some outbuf))"

definition uint_to_cstr_packed :: "mem_copy_fn \<Rightarrow> u8 list \<Rightarrow> u64 \<Rightarrow> u8 list option \<Rightarrow> usize \<Rightarrow> usize \<times> u8 list option" where
  "uint_to_cstr_packed mem_copy buf val outbuf sz =
     (case outbuf of None \<Rightarrow> (0, None) | Some outbuf \<Rightarrow>
      if sz = 0 then (0, Some outbuf)
      else if sz = 1 then (1, Some (outbuf[0 := 0x30 OR ucast (val mod 10)]))
      else
        let (buf, digits) = num_uint_to_str val buf;
            digits = (if digits = 0 then 1 else of_nat digits);
            copy_size = (if digits < sz then digits else sz);
            outbuf = mem_copy outbuf 0 buf (20 - unat copy_size) (unat copy_size);
            outbuf = (if copy_size < sz - 1 then outbuf[unat copy_size := 0] else outbuf)
        in (copy_size, Some outbuf))"

section \<open>Double dabble on digit lists\<close>

text \<open>The decimal value of a list of digits, lowest first.\<close>

primrec dec :: "nat list \<Rightarrow> nat" where
  "dec [] = 0"
| "dec (d # ds) = d + 10 * dec ds"

abbreviation digits :: "nat list \<Rightarrow> bool" where
  "digits ds \<equiv> \<forall>d \<in> set ds. d < 10"

text \<open>Doubling a digit list with a carry into the lowest digit, and the carry that falls out of the top.\<close>

primrec double_digits :: "nat \<Rightarrow> nat list \<Rightarrow> nat list" where
  "double_digits c [] = []"
| "double_digits c (d # ds) =
     (if 5 \<le> d then (2 * d - 10 + c) # double_digits 1 ds else (2 * d + c) # double_digits 0 ds)"

primrec carry_digits :: "nat \<Rightarrow> nat list \<Rightarrow> nat" where
  "carry_digits c [] = c"
| "carry_digits c (d # ds) = carry_digits (of_bool (5 \<le> d)) ds"

definition adjust :: "nat \<Rightarrow> nat" where
  "adjust d = d + 3 * of_bool (5 \<le> d)"

lemma length_double_digits [simp]: "length (double_digits c ds) = length ds"
  by (induction ds arbitrary: c) auto

lemma digits_double_digits: "digits ds \<Longrightarrow> c \<le> 1 \<Longrightarrow> digits (double_digits c ds)"
  by (induction ds arbitrary: c) auto

lemma carry_digits_le: "c \<le> 1 \<Longrightarrow> carry_digits c ds \<le> 1"
  by (induction ds arbitrary: c) auto

lemma dec_double_digits: "dec (double_digits c ds) + 10 ^ length ds * carry_digits c ds = 2 * dec ds + c"
proof (induction ds arbitrary: c)
  case (Cons d ds)
  show ?case
    using Cons.IH[of 1] Cons.IH[of 0] by (auto simp: algebra_simps)
qed simp

lemma pack_double_digits:
  "pack 4 (double_digits c ds) + 16 ^ length ds * carry_digits c ds = 2 * pack 4 (map adjust ds) + c"
proof (induction ds arbitrary: c)
  case (Cons d ds)
  show ?case
    using Cons.IH[of 1] Cons.IH[of 0] by (auto simp: adjust_def algebra_simps)
qed simp

lemma double_digits_append:
  "double_digits c (as @ bs) = double_digits c as @ double_digits (carry_digits c as) bs"
  by (induction as arbitrary: c) auto

lemma carry_digits_append: "carry_digits c (as @ bs) = carry_digits (carry_digits c as) bs"
  by (induction as arbitrary: c) auto

lemma dec_less: "digits ds \<Longrightarrow> dec ds < 10 ^ length ds"
  by (induction ds) auto

lemma no_carry: "2 * dec ds + c < 10 ^ length ds \<Longrightarrow> carry_digits c ds = 0"
  using dec_double_digits[of c ds] by (cases "carry_digits c ds") auto

lemma dabble_mask_digit:
  "(d::nat) < 10 \<Longrightarrow> ((bit d 0 \<or> bit d 1) \<and> bit d 2 \<or> bit d 3) \<longleftrightarrow> 5 \<le> d"
proof -
  assume "d < 10"
  then have "d = 0 \<or> d = 1 \<or> d = 2 \<or> d = 3 \<or> d = 4 \<or> d = 5 \<or> d = 6 \<or> d = 7 \<or> d = 8 \<or> d = 9" by arith
  then show ?thesis by (elim disjE) (simp_all add: bit_Suc_0_iff)
qed

lemma bit_of_bool_nat: "bit (of_bool b :: nat) n \<longleftrightarrow> b \<and> n = 0"
  by (cases b) (auto simp: bit_Suc_0_iff)

lemma dabble_mask_nat:
  assumes "digits ds"
  shows "((pack 4 ds OR drop_bit 1 (pack 4 ds)) AND drop_bit 2 (pack 4 ds) OR drop_bit 3 (pack 4 ds)) AND
      pack 4 (replicate (length ds) 1) = pack 4 (map (\<lambda>d. of_bool (5 \<le> d)) ds)" (is "?l = ?r")
proof (rule bit_eqI)
  fix n
  have b: "bit (pack 4 ds) k \<longleftrightarrow> k div 4 < length ds \<and> bit (ds ! (k div 4)) (k mod 4)" for k
    using assms by (intro bit_pack) auto
  have r: "bit (pack 4 (replicate (length ds) 1)) n \<longleftrightarrow> n div 4 < length ds \<and> n mod 4 = 0"
    by (subst bit_pack) (auto simp: bit_Suc_0_iff)
  have m: "bit ?r n \<longleftrightarrow> n div 4 < length ds \<and> 5 \<le> ds ! (n div 4) \<and> n mod 4 = 0"
    by (subst bit_pack) (auto simp: bit_of_bool_nat bit_Suc_0_iff)
  show "bit ?l n = bit ?r n"
  proof (cases "n mod 4 = 0 \<and> n div 4 < length ds")
    case True
    then have "n mod 4 = 0" by simp
    then have "(1 + n) div 4 = n div 4" "(2 + n) div 4 = n div 4" "(3 + n) div 4 = n div 4"
      "(1 + n) mod 4 = 1" "(2 + n) mod 4 = 2" "(3 + n) mod 4 = 3"
      by presburger+
    moreover have "ds ! (n div 4) < 10" using assms True by auto
    ultimately show ?thesis
      using True dabble_mask_digit[of "ds ! (n div 4)"]
      by (simp only: bit_and_iff bit_or_iff bit_drop_bit_eq comp_apply b r m) simp
  next
    case False
    then show ?thesis by (simp only: bit_and_iff r m) auto
  qed
qed

lemma adjust_word:
  fixes b :: "'a::len word"
  assumes b: "unat b = pack 4 ds" and ds: "digits ds"
    and M: "unat M = pack 4 (replicate (length ds) 1)" and L: "4 * length ds \<le> LENGTH('a)"
  shows "unat (b + (((b OR drop_bit 1 b) AND drop_bit 2 b OR drop_bit 3 b) AND M) * 3) = pack 4 (map adjust ds)"
proof -
  let ?v = "((b OR drop_bit 1 b) AND drop_bit 2 b OR drop_bit 3 b) AND M"
  have v: "unat ?v = pack 4 (map (\<lambda>d. of_bool (5 \<le> d)) ds)"
    by (simp only: unsigned_and_eq unsigned_or_eq unat_drop_bit_eq b M dabble_mask_nat[OF ds])
  have adj: "pack 4 ds + 3 * pack 4 (map (\<lambda>d. of_bool (5 \<le> d)) ds) = pack 4 (map adjust ds)"
    using pack_map_add[of 4 "\<lambda>d. d" "\<lambda>d. 3 * of_bool (5 \<le> d)" ds] pack_map_mult[of 4 3 "\<lambda>d. of_bool (5 \<le> d)" ds]
    by (simp add: adjust_def[abs_def])
  have "pack 4 (map adjust ds) < 2 ^ (4 * length (map adjust ds))"
    using ds by (intro pack_less) (auto simp: adjust_def)
  also have "\<dots> \<le> 2 ^ LENGTH('a)" using L by (simp add: power_increasing)
  finally have lt: "pack 4 (map adjust ds) < 2 ^ LENGTH('a)" .
  have "b + ?v * 3 = of_nat (unat b + 3 * unat ?v)" by simp
  also have "\<dots> = of_nat (pack 4 (map adjust ds))" by (simp only: b v adj)
  finally show ?thesis using lt by (simp add: unsigned_of_nat take_bit_nat_eq_self)
qed

lemma shift_in_word:
  fixes y :: "'a::len word"
  assumes "unat c \<le> 1"
  shows "unat (push_bit 1 y OR c) = (2 * unat y) mod 2 ^ LENGTH('a) + unat c"
proof -
  have c: "unat c = 0 \<or> unat c = 1" using assms by auto
  have p: "unat (push_bit 1 y) = (2 * unat y) mod 2 ^ LENGTH('a)"
    by (simp only: unsigned_push_bit_eq) (simp add: push_bit_eq_mult take_bit_eq_mod mult.commute)
  have e: "even (unat (push_bit 1 y))"
    by (simp only: unsigned_push_bit_eq) (simp add: even_take_bit_eq even_push_bit_iff)
  have "unat (push_bit 1 y OR c) = unat (push_bit 1 y) OR unat c" by (rule unsigned_or_eq)
  also have "\<dots> = unat (push_bit 1 y) + unat c"
    using c e by (auto simp: or_Suc_0_eq)
  finally show ?thesis by (simp only: p)
qed

lemma pack_digits_less: "digits ds \<Longrightarrow> pack 4 ds < 2 ^ (4 * length ds)"
  by (rule pack_less) auto

text \<open>One bit shifted into a buffer of digits doubles its decimal value.\<close>

lemma dabble_word:
  fixes b :: "'a::len word"
  assumes b: "unat b = pack 4 ds" and ds: "digits ds"
    and M: "unat M = pack 4 (replicate (length ds) 1)" and L: "4 * length ds \<le> LENGTH('a)"
    and c: "unat c \<le> 1" and top: "4 * length ds = LENGTH('a) \<or> carry_digits (unat c) ds = 0"
  shows "unat (push_bit 1 (b + (((b OR drop_bit 1 b) AND drop_bit 2 b OR drop_bit 3 b) AND M) * 3) OR c) =
    pack 4 (double_digits (unat c) ds)"
proof -
  let ?N = "2 ^ LENGTH('a) :: nat"
  let ?p = "pack 4 (double_digits (unat c) ds)" and ?q = "pack 4 (map adjust ds)"
  have e: "?p + 16 ^ length ds * carry_digits (unat c) ds = 2 * ?q + unat c"
    by (rule pack_double_digits)
  have "?p < 2 ^ (4 * length (double_digits (unat c) ds))"
    by (intro pack_digits_less digits_double_digits ds c)
  also have "\<dots> \<le> ?N" using L by (simp add: power_increasing)
  finally have lt: "?p < ?N" .
  have dvd: "?N dvd 16 ^ length ds * carry_digits (unat c) ds"
    using top power_mult[of "2::nat" 4 "length ds"] by auto
  have ev: "even ?N" by simp
  have "(2 * ?q + unat c) mod ?N = ?p" using dvd lt unfolding e[symmetric] by auto
  moreover have "(2 * ?q + unat c) mod ?N = (2 * ?q) mod ?N + unat c"
  proof (cases "unat c = 0")
    case False
    then have 1: "unat c = 1" using c by simp
    have "2 * ?q mod ?N < ?N" "even (2 * ?q mod ?N)" using ev by (auto simp: dvd_mod)
    then have "2 * ?q mod ?N + 1 < ?N" using ev by (metis Suc_eq_plus1 Suc_lessI even_Suc)
    then show ?thesis unfolding 1 by (metis mod_add_left_eq mod_less)
  qed simp
  ultimately show ?thesis
    by (simp only: shift_in_word[OF c] adjust_word[OF b ds M L])
qed

text \<open>The bit that leaves the top digit of a full buffer.\<close>

lemma dabble_word_carry:
  fixes b :: "'a::len word"
  assumes b: "unat b = pack 4 ds" and ds: "digits ds"
    and M: "unat M = pack 4 (replicate (length ds) 1)" and L: "4 * length ds = LENGTH('a)"
    and c: "c \<le> 1"
  shows "unat (drop_bit (LENGTH('a) - 1) (b + (((b OR drop_bit 1 b) AND drop_bit 2 b OR drop_bit 3 b) AND M) * 3)) =
    carry_digits c ds"
proof -
  let ?p = "pack 4 (double_digits c ds)" and ?q = "pack 4 (map adjust ds)"
  have N: "(2::nat) ^ LENGTH('a) = 16 ^ length ds" by (simp flip: L add: power_mult)
  have e: "?p + 2 ^ LENGTH('a) * carry_digits c ds = 2 * ?q + c"
    unfolding N by (rule pack_double_digits)
  have lt: "?p < 2 ^ LENGTH('a)"
    using pack_digits_less[OF digits_double_digits[OF ds c]] by (simp add: L)
  have "(2 * ?q + c) div 2 ^ LENGTH('a) = carry_digits c ds" using lt unfolding e[symmetric] by simp
  moreover have "(2 * ?q + c) div 2 ^ LENGTH('a) = (2 * ?q + c) div 2 div 2 ^ (LENGTH('a) - 1)"
    unfolding div_mult2_eq[symmetric] by (simp flip: power_Suc)
  moreover have "(2 * ?q + c) div 2 = ?q" using c by simp
  ultimately show ?thesis
    unfolding unat_drop_bit_div adjust_word[OF b ds M eq_imp_le[OF L]] by simp
qed


section \<open>Binary-coded decimal buffers\<close>

text \<open>The \<open>n\<close> digits of the buffer \<open>b\<close> spell the number \<open>v\<close>.\<close>

definition bcd :: "nat \<Rightarrow> 'a::len word \<Rightarrow> nat \<Rightarrow> bool" where
  "bcd n b v \<longleftrightarrow> (\<exists>ds. length ds = n \<and> digits ds \<and> unat b = pack 4 ds \<and> dec ds = v)"

lemma pack_replicate_0 [simp]: "pack w (replicate n 0) = 0"
  by (induction n) simp_all

lemma dec_replicate_0 [simp]: "dec (replicate n 0) = 0"
  by (induction n) simp_all

lemma bcd_small:
  assumes "unat b < 10" and "0 < n" 
  shows "bcd n b (unat b)"
proof -
  obtain m where n: "n = Suc m" using assms(2) gr0_conv_Suc by blast
  show ?thesis unfolding bcd_def n using assms(1) by (intro exI[of _ "unat b # replicate m 0"]) auto
qed

lemma bcd_step:
  fixes b :: "'a::len word"
  assumes "bcd n b v" and M: "unat M = pack 4 (replicate n 1)" and L: "4 * n \<le> LENGTH('a)"
    and c: "unat c \<le> 1" and lt: "2 * v + unat c < 10 ^ n"
  shows "bcd n (push_bit 1 (b + (((b OR drop_bit 1 b) AND drop_bit 2 b OR drop_bit 3 b) AND M) * 3) OR c)
    (2 * v + unat c)"
proof -
  obtain ds where ds: "length ds = n" "digits ds" "unat b = pack 4 ds" "dec ds = v"
    using assms(1) by (auto simp: bcd_def)
  have nc: "carry_digits (unat c) ds = 0" using lt by (intro no_carry) (simp add: ds)
  have "dec (double_digits (unat c) ds) = 2 * v + unat c"
    using dec_double_digits[of "unat c" ds] by (simp add: nc ds)
  then show ?thesis
    unfolding bcd_def
    using ds M L c nc digits_double_digits[OF ds(2) c]
    by (intro exI[of _ "double_digits (unat c) ds"] conjI dabble_word) simp_all
qed

lemma dec_digit: "digits ds \<Longrightarrow> i < length ds \<Longrightarrow> dec ds div 10 ^ i mod 10 = ds ! i"
proof (induction ds arbitrary: i)
  case (Cons d ds)
  show ?case
  proof (cases i)
    case (Suc j)
    have "(d + 10 * dec ds) div 10 ^ i = (d + 10 * dec ds) div 10 div 10 ^ j"
      by (simp add: Suc div_mult2_eq)
    then show ?thesis using Cons Suc by simp
  qed (use Cons.prems in simp)
qed simp

lemma bcd_digit:
  fixes b :: "'a::len word"
  assumes "bcd n b v" and "i < n"
  shows "unat (drop_bit (4 * i) b AND 15) = v div 10 ^ i mod 10"
proof -
  obtain ds where ds: "length ds = n" "digits ds" "unat b = pack 4 ds" "dec ds = v"
    using assms(1) by (auto simp: bcd_def)
  have "drop_bit (4 * i) b AND 15 = take_bit 4 (drop_bit (4 * i) b)"
    by (simp add: take_bit_eq_mask mask_eq_exp_minus_1)
  then have "unat (drop_bit (4 * i) b AND 15) = take_bit 4 (unat (drop_bit (4 * i) b))"
    by (simp only: unsigned_take_bit_eq)
  also have "\<dots> = (pack 4 ds div 2 ^ (4 * i)) mod 2 ^ 4"
    by (simp only: unat_drop_bit_div ds(3) take_bit_eq_mod)
  also have "\<dots> = ds ! i" using ds assms(2) by (intro pack_field) auto
  finally show ?thesis using dec_digit[OF ds(2)] ds assms(2) by simp
qed

section \<open>The conversion loops\<close>

text \<open>The bits still to be shifted in, left-aligned in a \<open>W\<close>-bit word.\<close>

lemma top_bit_shifted:
  assumes "k < W"
  shows "v * 2 ^ k mod 2 ^ W div 2 ^ (W - 1) = v div 2 ^ (W - 1 - k) mod (2::nat)"
proof -
  have "v * 2 ^ k mod 2 ^ W = v * 2 ^ k mod (2 ^ (W - k) * 2 ^ k)"
    using assms by (simp flip: power_add)
  also have "\<dots> = (v mod 2 ^ (W - k)) * 2 ^ k" by (rule mult_mod_left[symmetric])
  finally have "v * 2 ^ k mod 2 ^ W div 2 ^ (W - 1) = (v mod 2 ^ (W - k)) * 2 ^ k div (2 ^ (W - 1 - k) * 2 ^ k)"
    using assms by (simp flip: power_add)
  also have "\<dots> = v mod 2 ^ (W - k) div 2 ^ (W - 1 - k)" by simp
  also have "W - k = (W - 1 - k) + 1" using assms by simp
  also have "v mod 2 ^ ((W - 1 - k) + 1) div 2 ^ (W - 1 - k) = v div 2 ^ (W - 1 - k) mod 2 ^ 1"
    by (simp only: div_exp_mod_exp_eq)
  finally show ?thesis by simp
qed

lemma shift_out_word:
  fixes x :: "'a::len word"
  assumes "unat x = v * 2 ^ k mod 2 ^ LENGTH('a)" and "k < LENGTH('a)"
  shows "unat (push_bit 1 x) = v * 2 ^ (k + 1) mod 2 ^ LENGTH('a)"
    and "unat (drop_bit (LENGTH('a) - 1) x) = v div 2 ^ (LENGTH('a) - 1 - k) mod 2"
proof -
  have "unat (push_bit 1 x) = (v * 2 ^ k mod 2 ^ LENGTH('a)) * 2 mod 2 ^ LENGTH('a)"
    by (simp only: unsigned_push_bit_eq assms(1)) (simp add: push_bit_eq_mult take_bit_eq_mod)
  then show "unat (push_bit 1 x) = v * 2 ^ (k + 1) mod 2 ^ LENGTH('a)"
    by (simp add: mod_mult_left_eq mult.assoc mult.commute[of 2])
  show "unat (drop_bit (LENGTH('a) - 1) x) = v div 2 ^ (LENGTH('a) - 1 - k) mod 2"
    by (simp only: unat_drop_bit_div assms(1) top_bit_shifted[OF assms(2)])
qed

lemma div_power_Suc: "(v::nat) div 2 ^ m = 2 * (v div 2 ^ Suc m) + v div 2 ^ m mod 2"
  by (simp add: div_mult2_eq mult.commute[of 2])

lemma dabble16_loop:
  assumes "i \<le> 13"
  shows "\<exists>buf x. (dabble16 ^^ i) (ucast (drop_bit 13 val), push_bit 3 val) = (buf, x) \<and>
    bcd 5 buf (unat val div 2 ^ (13 - i)) \<and> unat x = unat val * 2 ^ (3 + i) mod 2 ^ 16"
  using assms
proof (induction i)
  case 0
  have "unat (ucast (drop_bit 13 val) :: u32) = unat val div 2 ^ 13"
    by (simp add: unat_drop_bit_div unat_ucast_widen)
  moreover have "unat val div 2 ^ 13 < 10" using unat_less[of val] by (simp add: less_mult_imp_div_less)
  ultimately have "bcd 5 (ucast (drop_bit 13 val) :: u32) (unat val div 2 ^ 13)"
    using bcd_small[of "ucast (drop_bit 13 val) :: u32" 5] by simp
  moreover have "unat (push_bit 3 val) = unat val * 2 ^ 3 mod 2 ^ 16"
    by (simp only: unsigned_push_bit_eq) (simp add: push_bit_eq_mult take_bit_eq_mod)
  ultimately show ?case by simp
next
  case (Suc i)
  then obtain buf x where IH: "(dabble16 ^^ i) (ucast (drop_bit 13 val), push_bit 3 val) = (buf, x)"
    "bcd 5 buf (unat val div 2 ^ (13 - i))" "unat x = unat val * 2 ^ (3 + i) mod 2 ^ 16" by auto
  let ?c = "ucast (drop_bit 15 x) :: u32"
  have x: "unat (push_bit 1 x) = unat val * 2 ^ (3 + Suc i) mod 2 ^ 16"
    "unat (drop_bit 15 x) = unat val div 2 ^ (12 - i) mod 2"
    using shift_out_word[of x "unat val" "3 + i"] IH(3) Suc.prems by simp_all
  have c: "unat ?c = unat val div 2 ^ (12 - i) mod 2"
    using x(2) by (simp add: unat_ucast_widen)
  have k: "13 - i = Suc (12 - i)" using Suc.prems by simp
  have v: "2 * (unat val div 2 ^ (13 - i)) + unat ?c = unat val div 2 ^ (12 - i)"
    unfolding c k by (rule div_power_Suc[symmetric])
  have "unat val < 10 ^ 5" using unat_less[of val] by simp
  then have "unat val div 2 ^ (12 - i) < 10 ^ 5" by (meson div_le_dividend le_less_trans)
  moreover have "unat (0x11111 :: u32) = pack 4 (replicate 5 1)" by (simp add: replicate_numeral)
  ultimately have "bcd 5 (fst (dabble16 (buf, x))) (unat val div 2 ^ (12 - i))"
    using bcd_step[OF IH(2), of "0x11111" ?c] v c by (simp add: dabble16_def Let_def)
  then show ?case using IH(1) x(1) by (simp add: dabble16_def Let_def)
qed
lemma dabble32_loop:
  assumes "i \<le> 29"
  shows "\<exists>buf x. (dabble32 ^^ i) (ucast (drop_bit 29 val), push_bit 3 val) = (buf, x) \<and>
    bcd 10 buf (unat val div 2 ^ (29 - i)) \<and> unat x = unat val * 2 ^ (3 + i) mod 2 ^ 32"
  using assms
proof (induction i)
  case 0
  have "unat (ucast (drop_bit 29 val) :: u64) = unat val div 2 ^ 29"
    by (simp add: unat_drop_bit_div unat_ucast_widen)
  moreover have "unat val div 2 ^ 29 < 10" using unat_less[of val] by (simp add: less_mult_imp_div_less)
  ultimately have "bcd 10 (ucast (drop_bit 29 val) :: u64) (unat val div 2 ^ 29)"
    using bcd_small[of "ucast (drop_bit 29 val) :: u64" 10] by simp
  moreover have "unat (push_bit 3 val) = unat val * 2 ^ 3 mod 2 ^ 32"
    by (simp only: unsigned_push_bit_eq) (simp add: push_bit_eq_mult take_bit_eq_mod)
  ultimately show ?case by simp
next
  case (Suc i)
  then obtain buf x where IH: "(dabble32 ^^ i) (ucast (drop_bit 29 val), push_bit 3 val) = (buf, x)"
    "bcd 10 buf (unat val div 2 ^ (29 - i))" "unat x = unat val * 2 ^ (3 + i) mod 2 ^ 32" by auto
  let ?c = "ucast (drop_bit 31 x) :: u64"
  have x: "unat (push_bit 1 x) = unat val * 2 ^ (3 + Suc i) mod 2 ^ 32"
    "unat (drop_bit 31 x) = unat val div 2 ^ (28 - i) mod 2"
    using shift_out_word[of x "unat val" "3 + i"] IH(3) Suc.prems by simp_all
  have c: "unat ?c = unat val div 2 ^ (28 - i) mod 2"
    using x(2) by (simp add: unat_ucast_widen)
  have k: "29 - i = Suc (28 - i)" using Suc.prems by simp
  have v: "2 * (unat val div 2 ^ (29 - i)) + unat ?c = unat val div 2 ^ (28 - i)"
    unfolding c k by (rule div_power_Suc[symmetric])
  have "unat val < 10 ^ 10" using unat_less[of val] by simp
  then have "unat val div 2 ^ (28 - i) < 10 ^ 10" by (meson div_le_dividend le_less_trans)
  moreover have "unat (0x1111111111 :: u64) = pack 4 (replicate 10 1)" by (simp add: replicate_numeral)
  ultimately have "bcd 10 (fst (dabble32 (buf, x))) (unat val div 2 ^ (28 - i))"
    using bcd_step[OF IH(2), of "0x1111111111" ?c] v c by (simp add: dabble32_def Let_def)
  then show ?case using IH(1) x(1) by (simp add: dabble32_def Let_def)
qed

text \<open>The 64-bit conversion keeps sixteen digits in one word and four in another.\<close>

definition bcd2 :: "u64 \<Rightarrow> u16 \<Rightarrow> nat \<Rightarrow> bool" where
  "bcd2 lo hi v \<longleftrightarrow> (\<exists>as bs. length as = 16 \<and> length bs = 4 \<and> digits as \<and> digits bs \<and>
     unat lo = pack 4 as \<and> unat hi = pack 4 bs \<and> dec (as @ bs) = v)"

lemma dec_append: "dec (as @ bs) = dec as + 10 ^ length as * dec bs"
  by (induction as) (simp_all add: algebra_simps)

lemma bcd2I:
  "length as = 16 \<Longrightarrow> length bs = 4 \<Longrightarrow> digits as \<Longrightarrow> digits bs \<Longrightarrow> unat lo = pack 4 as \<Longrightarrow>
    unat hi = pack 4 bs \<Longrightarrow> dec (as @ bs) = v \<Longrightarrow> bcd2 lo hi v"
  unfolding bcd2_def by blast

lemma bcd2_small:
  assumes "unat lo < 10"
  shows "bcd2 lo 0 (unat lo)"
  using assms by (intro bcd2I[of "unat lo # replicate 15 0" "replicate 4 0"]) (simp_all add: dec_append)

lemma bcd2_step:
  assumes "bcd2 lo hi v" and c: "unat (drop_bit 63 val :: u64) = c" "c \<le> 1" and lt: "2 * v + c < 10 ^ 20"
  shows "\<exists>lo' hi'. dabble64 (lo, hi, val) = (lo', hi', push_bit 1 val) \<and> bcd2 lo' hi' (2 * v + c)"
proof -
  obtain as bs where as: "length as = 16" "digits as" "unat lo = pack 4 as"
    and bs: "length bs = 4" "digits bs" "unat hi = pack 4 bs" and v: "dec (as @ bs) = v"
    using assms(1) by (auto simp: bcd2_def)
  let ?lo = "lo + (((lo OR drop_bit 1 lo) AND drop_bit 2 lo OR drop_bit 3 lo) AND 0x1111111111111111) * 3"
  let ?hi = "hi + (((hi OR drop_bit 1 hi) AND drop_bit 2 hi OR drop_bit 3 hi) AND 0x1111) * 3"
  let ?k = "ucast (drop_bit 63 ?lo) :: u16"
  have mlo: "unat (0x1111111111111111 :: u64) = pack 4 (replicate (length as) 1)"
    and mhi: "unat (0x1111 :: u16) = pack 4 (replicate (length bs) 1)"
    unfolding as(1) bs(1) by (simp_all add: replicate_numeral)
  have kc: "unat (drop_bit 63 ?lo) = carry_digits c as"
    using dabble_word_carry[OF as(3,2) mlo _ c(2)] as(1) by simp
  have "carry_digits c as \<le> 1" using c(2) by (rule carry_digits_le)
  moreover from this have k: "unat ?k = carry_digits c as"
    unfolding unsigned_ucast_eq kc by (simp add: take_bit_nat_eq_self)
  ultimately have k1: "unat ?k \<le> 1" by simp
  have lo: "unat (push_bit 1 ?lo OR drop_bit 63 val) = pack 4 (double_digits c as)"
    using dabble_word[OF as(3,2) mlo, of "drop_bit 63 val"] c as(1) by simp
  have hi: "unat (push_bit 1 ?hi OR ?k) = pack 4 (double_digits (carry_digits c as) bs)"
    using dabble_word[OF bs(3,2) mhi _ k1] bs(1) k by simp
  have "carry_digits c (as @ bs) = 0" using lt by (intro no_carry) (simp add: v as(1) bs(1))
  then have "dec (double_digits c (as @ bs)) = 2 * v + c"
    using dec_double_digits[of c "as @ bs"] by (simp add: v)
  then have "bcd2 (push_bit 1 ?lo OR drop_bit 63 val) (push_bit 1 ?hi OR ?k) (2 * v + c)"
    unfolding double_digits_append
    by (intro bcd2I[of "double_digits c as" "double_digits (carry_digits c as) bs"] lo hi
        digits_double_digits carry_digits_le c(2) as(2) bs(2)) (simp_all add: as(1) bs(1))
  then show ?thesis by (simp add: dabble64_def Let_def)
qed

lemma dabble64_loop:
  assumes "i \<le> 61"
  shows "\<exists>lo hi x. (dabble64 ^^ i) (drop_bit 61 val, 0, push_bit 3 val) = (lo, hi, x) \<and>
    bcd2 lo hi (unat val div 2 ^ (61 - i)) \<and> unat x = unat val * 2 ^ (3 + i) mod 2 ^ 64"
  using assms
proof (induction i)
  case 0
  have "unat val div 2 ^ 61 < 10" using unat_less[of val] by (simp add: less_mult_imp_div_less)
  then have "bcd2 (drop_bit 61 val) 0 (unat val div 2 ^ 61)"
    using bcd2_small[of "drop_bit 61 val"] by (simp add: unat_drop_bit_div)
  moreover have "unat (push_bit 3 val) = unat val * 2 ^ 3 mod 2 ^ 64"
    by (simp only: unsigned_push_bit_eq) (simp add: push_bit_eq_mult take_bit_eq_mod)
  ultimately show ?case by simp
next
  case (Suc i)
  then obtain lo hi x where IH: "(dabble64 ^^ i) (drop_bit 61 val, 0, push_bit 3 val) = (lo, hi, x)"
    "bcd2 lo hi (unat val div 2 ^ (61 - i))" "unat x = unat val * 2 ^ (3 + i) mod 2 ^ 64" by auto
  have x: "unat (push_bit 1 x) = unat val * 2 ^ (3 + Suc i) mod 2 ^ 64"
    "unat (drop_bit 63 x) = unat val div 2 ^ (60 - i) mod 2"
    using shift_out_word[of x "unat val" "3 + i"] IH(3) Suc.prems by simp_all
  have k: "61 - i = Suc (60 - i)" using Suc.prems by simp
  have v: "2 * (unat val div 2 ^ (61 - i)) + unat val div 2 ^ (60 - i) mod 2 = unat val div 2 ^ (60 - i)"
    unfolding k by (rule div_power_Suc[symmetric])
  have "unat val < 10 ^ 20" using unat_less[of val] by simp
  then have lt: "unat val div 2 ^ (60 - i) < 10 ^ 20" by (meson div_le_dividend le_less_trans)
  have "\<exists>lo' hi'. dabble64 (lo, hi, x) = (lo', hi', push_bit 1 x) \<and> bcd2 lo' hi' (unat val div 2 ^ (60 - i))"
    using bcd2_step[OF IH(2) x(2)] lt unfolding v by simp
  then show ?case using IH(1) x(1) by auto
qed

section \<open>Output\<close>

text \<open>The \<open>n\<close> lowest decimal digits of \<open>v\<close> as ASCII characters, highest first.\<close>

definition dec_string :: "nat \<Rightarrow> nat \<Rightarrow> u8 list" where
  "dec_string n v = map (\<lambda>i. 0x30 + of_nat (v div 10 ^ i mod 10)) (rev [0..<n])"

lemma length_dec_string [simp]: "length (dec_string n v) = n"
  by (simp add: dec_string_def)

lemma fold_write_down_aux:
  assumes "off + n \<le> length out" and "m \<le> n"
  shows "fold (\<lambda>i out. out[off + (n - 1 - i) := f i]) [0..<m] out =
    take (off + (n - m)) out @ map f (rev [0..<m]) @ drop (off + n) out"
  using assms(2)
proof (induction m)
  case (Suc m)
  let ?k = "off + (n - Suc m)"
  have k: "off + (n - m) = Suc ?k" "?k < length out" using Suc.prems assms(1) by auto
  have "fold (\<lambda>i out. out[off + (n - 1 - i) := f i]) [0..<Suc m] out =
    (take (Suc ?k) out @ map f (rev [0..<m]) @ drop (off + n) out)[?k := f m]"
    using Suc k by simp
  also have "\<dots> = (take (Suc ?k) out)[?k := f m] @ map f (rev [0..<m]) @ drop (off + n) out"
    using k(2) by (simp add: list_update_append)
  also have "(take (Suc ?k) out)[?k := f m] = take ?k out @ [f m]"
    using k(2) by (simp add: take_Suc_conv_app_nth list_update_append)
  finally show ?case by simp
qed simp

lemma fold_write_down:
  assumes "off + n \<le> length out" and "\<And>i. i < n \<Longrightarrow> h i = n - 1 - i"
  shows "fold (\<lambda>i out. out[off + h i := f i]) [0..<n] out =
    take off out @ map f (rev [0..<n]) @ drop (off + n) out"
proof -
  have "fold (\<lambda>i out. out[off + h i := f i]) [0..<n] out =
    fold (\<lambda>i out. out[off + (n - 1 - i) := f i]) [0..<n] out"
    using assms(2) by (intro fold_cong) auto
  then show ?thesis using fold_write_down_aux[OF assms(1) le_refl] by simp
qed

lemma bcd_char:
  fixes b :: "'a::len word"
  assumes "bcd n b v" and "i < n"
  shows "(0x30 :: u8) + ucast (drop_bit (4 * i) b AND 15) = 0x30 + of_nat (v div 10 ^ i mod 10)"
proof -
  have "(ucast (drop_bit (4 * i) b AND 15) :: u8) = of_nat (unat (drop_bit (4 * i) b AND 15))"
    by simp
  then show ?thesis by (simp only: bcd_digit[OF assms])
qed

lemma bcd_chars:
  assumes "bcd n b v"
  shows "map (\<lambda>i. (0x30 :: u8) + ucast (drop_bit (4 * i) b AND 15)) (rev [0..<n]) = dec_string n v"
  unfolding dec_string_def by (rule map_cong[OF refl]) (simp add: bcd_char[OF assms])

lemma num_uint16_to_str_eq:
  assumes "off + 5 \<le> length out"
  shows "num_uint16_to_str val out off = take off out @ dec_string 5 (unat val) @ drop (off + 5) out"
proof -
  obtain buf x where b: "(dabble16 ^^ 13) (ucast (drop_bit 13 val), push_bit 3 val) = (buf, x)"
    "bcd 5 buf (unat val)" using dabble16_loop[of 13 val] by auto
  show ?thesis
    unfolding num_uint16_to_str_def Let_def b(1) prod.case
    by (subst fold_write_down[OF assms], simp) (simp only: bcd_chars[OF b(2)])
qed

lemma num_uint32_to_str_eq:
  assumes "off + 10 \<le> length out"
  shows "num_uint32_to_str val out off = take off out @ dec_string 10 (unat val) @ drop (off + 10) out"
proof -
  obtain buf x where b: "(dabble32 ^^ 29) (ucast (drop_bit 29 val), push_bit 3 val) = (buf, x)"
    "bcd 10 buf (unat val)" using dabble32_loop[of 29 val] by auto
  show ?thesis
    unfolding num_uint32_to_str_def Let_def b(1) prod.case
    by (subst fold_write_down[OF assms], simp) (simp only: bcd_chars[OF b(2)])
qed


lemma dec_string_append:
  "dec_string (m + n) v = dec_string m (v div 10 ^ n) @ dec_string n v"
proof -
  have "rev [0..<m + n] = map (\<lambda>i. i + n) (rev [0..<m]) @ rev [0..<n]"
    by (simp add: upt_add_eq_append[of 0 n m, simplified] add.commute[of m] map_add_upt flip: rev_map)
  then show ?thesis
    by (simp add: dec_string_def power_add div_mult2_eq mult.commute[of "10 ^ _" "10 ^ n"])
qed

lemma bcd2_split:
  assumes "bcd2 lo hi v"
  shows "bcd 4 hi (v div 10 ^ 16) \<and> (\<exists>w. bcd 16 lo w \<and> w = v mod 10 ^ 16)"
proof -
  obtain as bs where as: "length as = 16" "digits as" "unat lo = pack 4 as"
    and bs: "length bs = 4" "digits bs" "unat hi = pack 4 bs" and v: "dec as + 10 ^ 16 * dec bs = v"
    using assms by (auto simp: bcd2_def dec_append)
  have "dec as < 10 ^ 16" using dec_less[OF as(2)] by (simp only: as(1))
  then have "v div 10 ^ 16 = dec bs" "v mod 10 ^ 16 = dec as" unfolding v[symmetric] by simp_all
  then show ?thesis unfolding bcd_def using as bs by auto
qed

lemma dec_string_mod: "dec_string n (v mod 10 ^ n) = dec_string n v"
proof -
  have "v mod 10 ^ n div 10 ^ i mod 10 = v div 10 ^ i mod 10" if "i < n" for i
  proof -
    obtain k where n: "n = i + Suc k" using \<open>i < n\<close> less_iff_Suc_add by auto
    have "v mod 10 ^ n div 10 ^ i = v div 10 ^ i mod 10 ^ Suc k"
      unfolding n power_add by (simp add: mod_mult2_eq)
    then show ?thesis by (simp add: mod_mult2_eq mod_mod_cancel)
  qed
  then show ?thesis by (auto simp: dec_string_def)
qed

lemma num_uint64_to_str_eq:
  assumes "off + 20 \<le> length out"
  shows "num_uint64_to_str val out off = take off out @ dec_string 20 (unat val) @ drop (off + 20) out"
proof -
  obtain lo hi x where b: "(dabble64 ^^ 61) (drop_bit 61 val, 0, push_bit 3 val) = (lo, hi, x)"
    "bcd2 lo hi (unat val)" using dabble64_loop[of 61 val] by auto
  note s = bcd2_split[OF b(2)]
  then have lo: "bcd 16 lo (unat val mod 10 ^ 16)" and hi: "bcd 4 hi (unat val div 10 ^ 16)" by auto
  let ?f = "\<lambda>i. (0x30 :: u8) + ucast (drop_bit (4 * i) lo AND 15)"
  let ?out = "take (off + 4) out @ dec_string 16 (unat val) @ drop (off + 20) out"
  have "fold (\<lambda>i out. out[off + (19 - i) := ?f i]) [0..<16] out =
    fold (\<lambda>i out. out[off + 4 + (15 - i) := ?f i]) [0..<16] out"
    by (intro fold_cong) (auto simp: add.commute)
  also have "\<dots> = take (off + 4) out @ map ?f (rev [0..<16]) @ drop (off + 4 + 16) out"
    using assms by (intro fold_write_down) simp_all
  also have "\<dots> = ?out" unfolding bcd_chars[OF lo] dec_string_mod by (simp add: add.commute[of off])
  finally have 1: "fold (\<lambda>i out. out[off + (19 - i) := ?f i]) [0..<16] out = ?out" .
  have "fold (\<lambda>i out. out[off + (3 - i) := 0x30 + ucast (drop_bit (4 * i) hi AND 15)]) [0..<4] ?out =
    take off ?out @ dec_string 4 (unat val div 10 ^ 16) @ drop (off + 4) ?out"
    using assms unfolding bcd_chars[OF hi, symmetric] by (intro fold_write_down) simp_all
  also have "\<dots> = take off out @ (dec_string 4 (unat val div 10 ^ 16) @ dec_string 16 (unat val)) @ drop (off + 20) out"
    using assms by simp
  also have "\<dots> = take off out @ dec_string 20 (unat val) @ drop (off + 20) out"
    unfolding dec_string_append[symmetric] by simp
  finally show ?thesis unfolding num_uint64_to_str_def Let_def b(1) prod.case 1 .
qed

subsection \<open>Counting digits\<close>

text \<open>The number of significant decimal digits.\<close>

definition num_digits :: "nat \<Rightarrow> nat" where
  "num_digits v = (LEAST n. v < 10 ^ n)"

lemma less_10_power_self: "v < 10 ^ (v::nat)"
  by (induction v) auto

lemma num_digits_upper: "v < 10 ^ num_digits v"
  unfolding num_digits_def by (rule LeastI, rule less_10_power_self)

lemma num_digits_le: "v < 10 ^ n \<Longrightarrow> num_digits v \<le> n"
  unfolding num_digits_def by (rule Least_le)

lemma num_digits_eqI: "v < 10 ^ n \<Longrightarrow> n = 0 \<or> 10 ^ (n - 1) \<le> v \<Longrightarrow> num_digits v = n"
proof -
  assume 1: "v < 10 ^ n" and 2: "n = 0 \<or> 10 ^ (n - 1) \<le> v"
  have "n \<le> num_digits v"
  proof (rule ccontr)
    assume "\<not> n \<le> num_digits v"
    then have "(10::nat) ^ num_digits v \<le> 10 ^ (n - 1)" by (intro power_increasing) auto
    moreover have "10 ^ (n - 1) \<le> v" using 2 \<open>\<not> n \<le> num_digits v\<close> by auto
    ultimately show False using num_digits_upper[of v] by linarith
  qed
  then show ?thesis using num_digits_le[OF 1] by simp
qed

lemma dec_char_zero: "(0x30 :: u8) + of_nat (d mod 10) = 0x30 \<longleftrightarrow> d mod 10 = 0"
proof -
  have "(of_nat (d mod 10) :: u8) = 0 \<longleftrightarrow> d mod 10 = 0"
    by (simp add: word_unat_eq_iff unsigned_of_nat take_bit_nat_eq_self del: of_nat_eq_0_iff)
  then show ?thesis by simp
qed

lemma nth_dec_string: "i < n \<Longrightarrow> dec_string n v ! i = 0x30 + of_nat (v div 10 ^ (n - 1 - i) mod 10)"
  by (simp add: dec_string_def rev_nth)

lemma count_digits_dec_string:
  "n \<le> 20 \<Longrightarrow> v < 10 ^ n \<Longrightarrow> count_digits (dec_string 20 v) n = num_digits v"
proof (induction n)
  case 0
  then show ?case by (simp add: num_digits_eqI)
next
  case (Suc n)
  have "dec_string 20 v ! (20 - Suc n) = 0x30 + of_nat (v div 10 ^ n mod 10)"
    using Suc.prems(1) nth_dec_string[of "20 - Suc n" 20 v] by simp
  moreover have "v div 10 ^ n < 10" using Suc.prems(2) by (simp add: less_mult_imp_div_less)
  ultimately have z: "dec_string 20 v ! (20 - Suc n) = 0x30 \<longleftrightarrow> v div 10 ^ n = 0"
    by (simp only: dec_char_zero) simp
  show ?case
  proof (cases "v div 10 ^ n = 0")
    case True
    then show ?thesis using Suc z by (simp add: div_eq_0_iff)
  next
    case False
    then have "10 ^ n \<le> v" by (simp add: div_eq_0_iff)
    then show ?thesis using False z num_digits_eqI[OF Suc.prems(2)] by simp
  qed
qed

lemma fold_write_zeroes:
  "n \<le> length out \<Longrightarrow> fold (\<lambda>i out. out[i := c]) [0..<n] out = replicate n c @ drop n out"
proof (induction n)
  case (Suc n)
  then show ?case
    by (simp add: list_update_append replicate_append_same Cons_nth_drop_Suc[symmetric])
qed simp

lemma dec_string_0: "dec_string n 0 = replicate n 0x30"
  by (simp add: dec_string_def map_replicate_const)

lemma dec_string_pad: "v < 10 ^ n \<Longrightarrow> dec_string (m + n) v = replicate m 0x30 @ dec_string n v"
  by (simp add: dec_string_append dec_string_0)

lemma mask_high_eq_0:
  fixes val :: u64
  assumes "val AND NOT (mask n) = 0" and "n \<le> 64"
  shows "unat val < 2 ^ n"
proof -
  have "val = take_bit n val"
  proof (rule bit_word_eqI)
    fix k assume "k < LENGTH(64)"
    then have "\<not> bit (val AND NOT (mask n)) k" using assms(1) by simp
    then show "bit val k = bit (take_bit n val) k"
      using \<open>k < LENGTH(64)\<close> by (auto simp: bit_simps)
  qed
  then have "unat val = take_bit n (unat val)" by (metis unsigned_take_bit_eq)
  then show ?thesis by (metis take_bit_nat_less_exp)
qed

lemma high_masks:
  "0xffffffffffff0000 = NOT (mask 16 :: u64)" "0xffffffff00000000 = NOT (mask 32 :: u64)"
  by (simp_all add: mask_eq_exp_minus_1 word_unat_eq_iff)

lemma num_uint_to_str_eq:
  assumes "length out = 20"
  shows "num_uint_to_str val out = (dec_string 20 (unat val), num_digits (unat val))"
proof -
  consider (a) "val AND 0xffffffffffff0000 = 0"
    | (b) "val AND 0xffffffffffff0000 \<noteq> 0" "val AND 0xffffffff00000000 = 0"
    | (c) "val AND 0xffffffffffff0000 \<noteq> 0" "val AND 0xffffffff00000000 \<noteq> 0" by blast
  then show ?thesis
  proof cases
    case a
    then have lt: "unat val < 2 ^ 16" using mask_high_eq_0[of val 16] by (simp add: high_masks)
    then have u: "unat (ucast val :: u16) = unat val" by (simp add: unsigned_ucast_eq take_bit_nat_eq_self)
    have "unat val < 10 ^ 5" using lt by simp
    then have "replicate 15 0x30 @ dec_string 5 (unat val) = dec_string 20 (unat val)"
      using dec_string_pad[of "unat val" 5 15] by simp
    then have "num_uint_to_str val out = (dec_string 20 (unat val), count_digits (dec_string 20 (unat val)) 5)"
      using a assms by (simp add: num_uint_to_str_def num_uint16_to_str_eq fold_write_zeroes u)
    then show ?thesis using \<open>unat val < 10 ^ 5\<close> count_digits_dec_string[of 5 "unat val"] by simp
  next
    case b
    then have lt: "unat val < 2 ^ 32" using mask_high_eq_0[of val 32] by (simp add: high_masks)
    then have u: "unat (ucast val :: u32) = unat val" by (simp add: unsigned_ucast_eq take_bit_nat_eq_self)
    have "unat val < 10 ^ 10" using lt by simp
    then have "replicate 10 0x30 @ dec_string 10 (unat val) = dec_string 20 (unat val)"
      using dec_string_pad[of "unat val" 10 10] by simp
    then have "num_uint_to_str val out = (dec_string 20 (unat val), count_digits (dec_string 20 (unat val)) 10)"
      using b assms by (simp add: num_uint_to_str_def num_uint32_to_str_eq fold_write_zeroes u)
    then show ?thesis using \<open>unat val < 10 ^ 10\<close> count_digits_dec_string[of 10 "unat val"] by simp
  next
    case c
    have "unat val < 10 ^ 20" using unat_less[of val] by simp
    then show ?thesis using c assms count_digits_dec_string[of 20 "unat val"]
      by (simp add: num_uint_to_str_def num_uint64_to_str_eq)
  qed
qed

section \<open>C strings\<close>

lemma num_digits_max: "num_digits (unat (v :: u64)) \<le> 20"
  using unat_less[of v] by (intro num_digits_le) simp

lemma drop_dec_string: "n \<le> 20 \<Longrightarrow> drop (20 - n) (dec_string 20 v) = dec_string n v"
  using dec_string_append[of "20 - n" n v] by simp

text \<open>The number of characters written for \<open>v\<close>: at least one, at most \<open>room\<close>.\<close>

definition shown_digits :: "nat \<Rightarrow> nat \<Rightarrow> nat" where
  "shown_digits v room = min (max 1 (num_digits v)) room"

lemma shown_digits_le: "shown_digits (unat (v :: u64)) room \<le> 20" "shown_digits w room \<le> room"
  using num_digits_max[of v] by (auto simp: shown_digits_def)

lemma copy_size_eq:
  fixes room :: usize and n :: nat
  assumes "n \<le> 20"
  shows "unat (if (if n = 0 then 1 else of_nat n) < room then (if n = 0 then 1 else of_nat n) else room) =
    min (max 1 n) (unat room)"
  using assms by (auto simp: word_less_nat_alt unat_of_nat_small min_def max_def)

context mem_copier
begin

lemma copy_digits:
  assumes "n \<le> 20" and "i + n < length out" and "length out < 2 ^ 62"
  shows "(mem_copy out i (dec_string 20 v) (20 - n) n)[i + n := 0] = take i out @ dec_string n v @ 0 # drop (i + n + 1) out"
proof -
  have "mem_copy out i (dec_string 20 v) (20 - n) n = take i out @ dec_string n v @ drop (i + n) out"
    using assms by (subst mem_copy_eq) (simp_all add: drop_dec_string)
  also have "drop (i + n) out = out ! (i + n) # drop (i + n + 1) out"
    using assms(2) by (simp add: Cons_nth_drop_Suc)
  finally show ?thesis using assms by (simp add: list_update_append)
qed

lemma uint_to_cstr_eq:
  assumes "length buf = 20" and "2 \<le> unat sz" and "unat sz \<le> length out" and "length out < 2 ^ 62"
    and n_def: "n = shown_digits (unat val) (unat sz - 1)"
  shows "uint_to_cstr mem_copy buf val (Some out) sz =
    (of_nat n, Some (dec_string n (unat val) @ 0 # drop (n + 1) out))"
proof -
  let ?d = "num_digits (unat val)"
  define c where "c = (if (if ?d = 0 then 1 else of_nat ?d) < sz - 1 then (if ?d = 0 then 1 else of_nat ?d) else sz - 1)"
  have sz: "sz \<noteq> 0" "sz \<noteq> 1" using assms(2) by auto
  have "unat (sz - 1) = unat sz - 1" using assms(2) by (subst unat_sub_small) (simp_all add: word_le_nat_alt)
  then have c: "unat c = n" unfolding c_def copy_size_eq[OF num_digits_max] n_def shown_digits_def by simp
  have n: "n \<le> 20" "n < length out"
    using shown_digits_le(1)[of val "unat sz - 1"] shown_digits_le(2)[of "unat val" "unat sz - 1"] assms(2,3)
    unfolding n_def by linarith+
  have "uint_to_cstr mem_copy buf val (Some out) sz =
    (c, Some ((mem_copy out 0 (dec_string 20 (unat val)) (20 - unat c) (unat c))[unat c := 0]))"
    using sz unfolding uint_to_cstr_def num_uint_to_str_eq[OF assms(1)] Let_def prod.case option.case c_def by simp
  also have "c = of_nat n" unfolding c[symmetric] by (rule of_nat_unat_id[symmetric])
  also have "(mem_copy out 0 (dec_string 20 (unat val)) (20 - unat (of_nat n :: usize)) (unat (of_nat n :: usize)))[unat (of_nat n :: usize) := 0] =
    dec_string n (unat val) @ 0 # drop (n + 1) out"
    using copy_digits[of n 0 out "unat val"] n assms(4) by (simp add: unat_of_nat_small)
  finally show ?thesis .
qed

end

lemma copy_size_signed:
  fixes r :: usize and n :: nat
  assumes "n \<le> 20" and "1 \<le> unat r"
  defines "d \<equiv> if n = 0 then 1 else of_nat n :: usize"
  shows "unat (if d + of_bool b < r then d else r - of_bool b) = min (max 1 n) (unat r - of_bool b)"
proof -
  have d: "unat d = max 1 n" unfolding d_def using assms(1) by (auto simp: unat_of_nat_small)
  have "unat (d + of_bool b) = max 1 n + of_bool b"
    using assms(1) d by (subst unat_add_small) (cases b; simp)+
  moreover have "unat (r - of_bool b) = unat r - of_bool b"
    using assms(2) by (cases b) (simp_all add: unat_sub_small word_le_nat_alt)
  ultimately show ?thesis by (auto simp: word_less_nat_alt d)
qed

context mem_copier
begin

lemma int_to_cstr_eq:
  assumes "length buf = 20" and "2 \<le> unat sz" and "unat sz \<le> length out" and "length out < 2 ^ 62"
    and v_def: "v = nat \<bar>sint val\<bar>" and s_def: "s = of_bool (val <s 0)" and n_def: "n = shown_digits v (unat sz - 1 - s)"
  shows "int_to_cstr mem_copy buf val (Some out) sz =
    (of_nat (s + n), Some ((if val <s 0 then [0x2D] else []) @ dec_string n v @ 0 # drop (s + n + 1) out))"
proof -
  define u where "u = (if val <s 0 then - val else val)"
  define o1 where "o1 = (if val <s 0 then out[0 := 0x2D] else out)"
  have v: "v = unat u" unfolding u_def v_def unat_magnitude ..
  let ?d = "num_digits (unat u)"
  define c where "c = (if (if ?d = 0 then 1 else of_nat ?d) + of_bool (val <s 0) < sz - 1
    then (if ?d = 0 then 1 else of_nat ?d) else sz - 1 - of_bool (val <s 0))"
  have sz: "sz \<noteq> 0" "sz \<noteq> 1" using assms(2) by auto
  have sz1: "unat (sz - 1) = unat sz - 1" using assms(2) by (subst unat_sub_small) (simp_all add: word_le_nat_alt)
  have "1 \<le> unat (sz - 1)" using sz1 assms(2) by simp
  then have c: "unat c = n"
    unfolding c_def copy_size_signed[OF num_digits_max \<open>1 \<le> unat (sz - 1)\<close>] n_def shown_digits_def sz1 v s_def by simp
  have n: "n \<le> 20" "s + n < length out"
    using shown_digits_le(1)[of u "unat sz - 1 - s"] shown_digits_le(2)[of v "unat sz - 1 - s"] assms(2,3) s_def
    unfolding n_def v by (cases "val <s 0"; simp)+
  have lo1: "length o1 = length out" by (simp add: o1_def)
  have pr: "(if val <s 0 then (- val, out[0 := 0x2D]) else (val, out)) = (u, o1)" by (simp add: u_def o1_def)
  have "int_to_cstr mem_copy buf val (Some out) sz =
    (c + of_bool (val <s 0), Some ((mem_copy o1 s (dec_string 20 (unat u)) (20 - unat c) (unat c))[s + unat c := 0]))"
    using sz unfolding int_to_cstr_def Let_def option.case pr num_uint_to_str_eq[OF assms(1)] prod.case c_def s_def by simp
  also have "\<dots> = (c + of_bool (val <s 0), Some (take s o1 @ dec_string n v @ 0 # drop (s + n + 1) o1))"
    unfolding c v using copy_digits[of n s o1 "unat u"] n assms(4) lo1 by simp
  also have "c + of_bool (val <s 0) = of_nat (s + n)"
    unfolding c[symmetric] s_def by (simp add: add.commute)
  also have "take s o1 = (if val <s 0 then [0x2D] else [])"
    using n by (cases out) (auto simp: o1_def s_def)
  also have "drop (s + n + 1) o1 = drop (s + n + 1) out" by (simp add: o1_def)
  finally show ?thesis .
qed

end

text \<open>Reading a decimal string back.\<close>

definition parse_dec :: "u8 list \<Rightarrow> nat" where
  "parse_dec cs = foldl (\<lambda>a c. 10 * a + (unat c - 0x30)) 0 cs"

definition parse_int :: "u8 list \<Rightarrow> int" where
  "parse_int cs = (if cs \<noteq> [] \<and> hd cs = 0x2D then - int (parse_dec (tl cs)) else int (parse_dec cs))"

lemma unat_dec_char: "unat ((0x30 :: u8) + of_nat (d mod 10)) = 0x30 + d mod 10"
proof -
  have "d mod 10 < 10" by simp
  then have "unat (of_nat (d mod 10) :: u8) = d mod 10" by (intro unat_of_nat_small) simp
  then show ?thesis using \<open>d mod 10 < 10\<close> by (subst unat_add_small) simp_all
qed

lemma dec_string_Suc: "dec_string (Suc n) v = (0x30 + of_nat (v div 10 ^ n mod 10)) # dec_string n v"
  by (simp add: dec_string_def)

lemma parse_dec_aux: "foldl (\<lambda>a c. 10 * a + (unat c - 0x30)) a (dec_string n v) = a * 10 ^ n + v mod 10 ^ n"
proof (induction n arbitrary: a)
  case 0
  then show ?case by (simp add: dec_string_def)
next
  case (Suc n)
  have "v mod 10 ^ Suc n = 10 ^ n * (v div 10 ^ n mod 10) + v mod 10 ^ n"
    by (simp only: power_Suc2 mod_mult2_eq)
  then show ?case
    unfolding dec_string_Suc foldl_Cons unat_dec_char Suc.IH by (simp add: algebra_simps)
qed

lemma parse_dec_string: "parse_dec (dec_string n v) = v mod 10 ^ n"
  by (simp add: parse_dec_def parse_dec_aux)

lemma dec_string_not_minus: "dec_string n v \<noteq> [] \<Longrightarrow> hd (dec_string n v) \<noteq> 0x2D"
proof (cases n)
  case (Suc k)
  have "unat (hd (dec_string n v)) = 0x30 + v div 10 ^ k mod 10"
    unfolding Suc dec_string_Suc list.sel by (rule unat_dec_char)
  then show ?thesis by auto
qed (simp add: dec_string_def)


section \<open>Properties\<close>

text \<open>
  C11: the double-dabble conversions are correct on every input. Whatever the 20-character buffer
  held, \<^verbatim>\<open>num_uint_to_str\<close> leaves the decimal digits of the value in it, highest first and padded
  with zeroes, whichever width it selects, and returns the number of significant digits.
\<close>

theorem num_uint_to_str_correct:
  assumes "length out = 20" and "num_uint_to_str val out = (out', n)"
  shows "(\<forall>i < 20. unat (out' ! i) = 0x30 + unat val div 10 ^ (19 - i) mod 10) \<and> length out' = 20 \<and>
    unat val < 10 ^ n \<and> (\<forall>m < n. 10 ^ m \<le> unat val)"
proof -
  have e: "out' = dec_string 20 (unat val)" "n = num_digits (unat val)"
    using assms num_uint_to_str_eq[OF assms(1)] by simp_all
  have "10 ^ m \<le> unat val" if "m < n" for m
    using that num_digits_le[of "unat val" m] unfolding e(2) by force
  then show ?thesis
    using num_digits_upper[of "unat val"] by (simp add: e nth_dec_string unat_dec_char)
qed

theorem num_uint_to_str_correct_witness:
  "\<exists>out n. num_uint_to_str 4294967296 (replicate 20 0) = (out, n) \<and> unat (out ! 19) = 0x36 \<and> n = 10"
proof -
  obtain out n where r: "num_uint_to_str 4294967296 (replicate 20 0) = (out, n)" by fastforce
  note c = num_uint_to_str_correct[OF length_replicate r]
  then have "unat (out ! 19) = 0x36" by simp
  moreover have "(4294967296::nat) < 10 ^ n" "\<forall>m < n. 10 ^ m \<le> (4294967296::nat)" using c by simp_all
  then have "\<not> 10 < n" "\<not> n \<le> 9"
    using power_increasing[of n 9 "10::nat"] by (force, fastforce)
  then have "n = 10" by simp
  ultimately show ?thesis using r by blast
qed

text \<open>
  C12: printing a signed 64-bit integer and reading it back gives the integer, the minimal one
  included, for every buffer of at least 21 bytes; the string is null-terminated inside the buffer
  and the returned length is its length. \<open>mem_copier mem_copy\<close> is the contract of the library's
  copy routine.
\<close>

theorem int_to_cstr_round_trip:
  assumes "mem_copier mem_copy" and "length buf = 20" and "21 \<le> unat sz" and "unat sz \<le> length out" and "length out < 2 ^ 62"
  shows "\<exists>len out'. int_to_cstr mem_copy buf val (Some out) sz = (of_nat len, Some out') \<and>
    len < unat sz \<and> length out' = length out \<and> out' ! len = 0 \<and> parse_int (take len out') = sint val"
proof -
  define v s where "v = nat \<bar>sint val\<bar>" and "s = (of_bool (val <s 0) :: nat)"
  define n where "n = shown_digits v (unat sz - 1 - s)"
  define sg where "sg = (if val <s 0 then [0x2D] else [] :: u8 list)"
  define out' where "out' = sg @ dec_string n v @ 0 # drop (s + n + 1) out"
  have r: "int_to_cstr mem_copy buf val (Some out) sz = (of_nat (s + n), Some out')"
    unfolding out'_def sg_def
    using assms by (intro mem_copier.int_to_cstr_eq[OF _ _ _ _ _ v_def s_def n_def]) simp_all
  have s: "s \<le> 1" "length sg = s" by (simp_all add: s_def sg_def)
  have d: "num_digits v \<le> 19"
    using sint_ge[of val] sint_lt[of val] unfolding v_def by (intro num_digits_le) auto
  then have n: "n = max 1 (num_digits v)" using assms(3) s(1) unfolding n_def shown_digits_def by linarith
  have "v < 10 ^ num_digits v" by (rule num_digits_upper)
  also have "\<dots> \<le> 10 ^ n" unfolding n by (intro power_increasing) simp_all
  finally have p: "parse_dec (dec_string n v) = v" by (simp add: parse_dec_string)
  have t: "take (s + n) out' = sg @ dec_string n v" using s by (simp add: out'_def)
  have "parse_int (sg @ dec_string n v) = sint val"
  proof (cases "val <s 0")
    case True
    then have "sint val < 0" by (simp add: word_sless_alt)
    then show ?thesis using True p by (simp add: parse_int_def sg_def v_def)
  next
    case False
    then have "0 \<le> sint val" by (simp add: word_sless_alt)
    then show ?thesis using False p dec_string_not_minus[of n v] by (auto simp: parse_int_def sg_def v_def)
  qed
  moreover have "out' ! (s + n) = 0" using s by (simp add: out'_def nth_append)
  moreover have "s + n < unat sz" using d n assms(3) s by linarith
  moreover from this have "length out' = length out" using assms(4) s by (simp add: out'_def)
  ultimately show ?thesis using r t by (intro exI[of _ "s + n"] exI[of _ out']) simp
qed

theorem int_to_cstr_round_trip_witness:
  "mem_copier memmove_objects \<and>
   (\<exists>len out'. int_to_cstr memmove_objects (replicate 20 0) (- 9223372036854775808) (Some (replicate 32 0)) 32 =
      (of_nat len, Some out') \<and> parse_int (take len out') = - 9223372036854775808)"
  using int_to_cstr_round_trip[of memmove_objects "replicate 20 0" 32 "replicate 32 0" "- 9223372036854775808"]
    memmove.mem_copier_axioms by auto

end
