(* ===== verification/Rw_Lock.thy ===== *)
theory Rw_Lock
  imports Badger_Prelude
begin

text \<open>
  What a lock that can be held exclusively or shared promises, independent of how it is implemented:
  a transition system over the lock word and the threads that use it, with an inductive invariant.
  The spinlock and the mutex are interpretations.
\<close>

section \<open>Counting threads\<close>

lemma count_list_update:
  "i < length xs \<Longrightarrow> count_list (xs[i := y]) x + of_bool (xs ! i = x) = count_list xs x + of_bool (y = x)"
proof (induction xs arbitrary: i)
  case (Cons a xs)
  then show ?case by (cases i) (auto split: if_splits)
qed simp

lemma count_list_pos: "i < length xs \<Longrightarrow> xs ! i = x \<Longrightarrow> 0 < count_list xs x"
  by (metis bot_nat_0.not_eq_extremum count_list_0_iff nth_mem)

lemma count_list_le_1_unique:
  "count_list xs x \<le> 1 \<Longrightarrow> i < length xs \<Longrightarrow> j < length xs \<Longrightarrow> xs ! i = x \<Longrightarrow> xs ! j = x \<Longrightarrow> i = j"
proof (induction xs arbitrary: i j)
  case (Cons a xs)
  then show ?case
    using count_list_pos[of "i - 1" xs x] count_list_pos[of "j - 1" xs x]
    by (cases i; cases j) (auto split: if_splits)
qed simp

section \<open>The contract\<close>

locale rw_lock =
  fixes init :: "'s \<Rightarrow> bool" and step :: "'s \<Rightarrow> 's \<Rightarrow> bool" and inv :: "'s \<Rightarrow> bool"
    and excl :: "'s \<Rightarrow> nat \<Rightarrow> bool" and shared :: "'s \<Rightarrow> nat \<Rightarrow> bool"
  assumes init_inv: "init s \<Longrightarrow> inv s"
    and step_inv: "inv s \<Longrightarrow> step s s' \<Longrightarrow> inv s'"
    and inv_excl: "inv s \<Longrightarrow> excl s t \<Longrightarrow> excl s u \<Longrightarrow> t = u"
    and inv_shared: "inv s \<Longrightarrow> excl s t \<Longrightarrow> \<not> shared s u"
begin

lemma reachable_inv: "step\<^sup>*\<^sup>* s s' \<Longrightarrow> init s \<Longrightarrow> inv s'"
  by (induction rule: rtranclp_induct) (auto intro: init_inv step_inv)

lemma mutual_exclusion:
  assumes "init s" and "step\<^sup>*\<^sup>* s s'" and "excl s' t"
  shows "(\<forall>u. excl s' u \<longrightarrow> u = t) \<and> (\<forall>u. \<not> shared s' u)"
  using reachable_inv[OF assms(2,1)] assms(3) by (auto dest: inv_excl inv_shared)

end

end
