(* ===== verification/Spinlock.thy ===== *)
theory Spinlock
  imports Rw_Lock
begin

text \<open>
  The reader/writer spinlock, \<^verbatim>\<open>kernel/src/badgelib/spinlock.c\<close>. The lock is an
  \<^verbatim>\<open>atomic_int\<close>: bit 0 says that the lock may be shared, bits 1 and up count the shares, and
  the sign bit is set while it is held exclusively. Every atomic access of every thread is one
  step, so all interleavings are covered; the weak compare-and-exchange may also fail spuriously.
\<close>

section \<open>Definitions\<close>

definition SPINLOCK_EXCL_MAGIC :: u32 where
  "SPINLOCK_EXCL_MAGIC = - 0x7FFFFFFF - 1"

definition SPINLOCK_T_INIT :: u32 where
  "SPINLOCK_T_INIT = 0"

definition SPINLOCK_T_INIT_SHARED :: u32 where
  "SPINLOCK_T_INIT_SHARED = 1"

text \<open>Compare-and-exchange: success, new memory contents, new value of the expected variable.\<close>

definition atomic_cas :: "'v \<Rightarrow> 'v \<Rightarrow> 'v \<Rightarrow> bool \<times> 'v \<times> 'v" where
  "atomic_cas mem expected desired = (if mem = expected then (True, desired, expected) else (False, mem, mem))"

text \<open>One round of the loops of \<^verbatim>\<open>spinlock_take\<close> and \<^verbatim>\<open>spinlock_take_shared\<close>.\<close>

definition spinlock_take :: "u32 \<Rightarrow> u32 \<Rightarrow> bool \<times> u32 \<times> u32" where
  "spinlock_take lock cur =
     (let cur = cur AND 1; next = cur OR SPINLOCK_EXCL_MAGIC in atomic_cas lock cur next)"

definition spinlock_release :: "u32 \<Rightarrow> u32" where
  "spinlock_release lock = lock AND 1"

definition spinlock_take_shared :: "u32 \<Rightarrow> u32 \<Rightarrow> bool \<times> u32 \<times> u32" where
  "spinlock_take_shared lock cur =
     (let cur = (if cur <s 0 then 1 else cur); next = cur + 2 in atomic_cas lock cur next)"

definition spinlock_release_shared :: "u32 \<Rightarrow> u32" where
  "spinlock_release_shared lock = lock - 2"

text \<open>
  Where a thread is, with the local variable \<^verbatim>\<open>cur\<close> of the loop it runs. \<open>Spin_Checked\<close> is between the
  two loads of \<^verbatim>\<open>spinlock_take_shared\<close>, the one of its assertion and the one of \<^verbatim>\<open>cur\<close>.
\<close>

datatype spin_thread = Spin_Idle | Spin_Taking u32 | Spin_Excl | Spin_Checked | Spin_Sharing u32 | Spin_Shared

record spin_state =
  spin_lock :: u32
  spin_threads :: "spin_thread list"

definition set_thread :: "nat \<Rightarrow> spin_thread \<Rightarrow> spin_state \<Rightarrow> spin_state" where
  "set_thread t x s = s\<lparr>spin_threads := (spin_threads s)[t := x]\<rparr>"

inductive spin_step :: "spin_state \<Rightarrow> spin_state \<Rightarrow> bool" where
  take: "t < length (spin_threads s) \<Longrightarrow> spin_threads s ! t = Spin_Idle \<Longrightarrow>
    spin_step s (set_thread t (Spin_Taking (spin_lock s)) s)"
| take_cas: "t < length (spin_threads s) \<Longrightarrow> spin_threads s ! t = Spin_Taking cur \<Longrightarrow>
    spinlock_take (spin_lock s) cur = (ok, l, cur') \<Longrightarrow>
    spin_step s (set_thread t (if ok then Spin_Excl else Spin_Taking cur') (s\<lparr>spin_lock := l\<rparr>))"
| take_spurious: "t < length (spin_threads s) \<Longrightarrow> spin_threads s ! t = Spin_Taking cur \<Longrightarrow>
    spin_step s (set_thread t (Spin_Taking (spin_lock s)) s)"
| release: "t < length (spin_threads s) \<Longrightarrow> spin_threads s ! t = Spin_Excl \<Longrightarrow>
    spin_step s (set_thread t Spin_Idle (s\<lparr>spin_lock := spinlock_release (spin_lock s)\<rparr>))"
| take_shared_assert: "t < length (spin_threads s) \<Longrightarrow> spin_threads s ! t = Spin_Idle \<Longrightarrow> spin_lock s AND 1 \<noteq> 0 \<Longrightarrow>
    spin_step s (set_thread t Spin_Checked s)"
| take_shared: "t < length (spin_threads s) \<Longrightarrow> spin_threads s ! t = Spin_Checked \<Longrightarrow>
    spin_step s (set_thread t (Spin_Sharing (spin_lock s)) s)"
| take_shared_cas: "t < length (spin_threads s) \<Longrightarrow> spin_threads s ! t = Spin_Sharing cur \<Longrightarrow>
    spinlock_take_shared (spin_lock s) cur = (ok, l, cur') \<Longrightarrow>
    spin_step s (set_thread t (if ok then Spin_Shared else Spin_Sharing cur') (s\<lparr>spin_lock := l\<rparr>))"
| take_shared_spurious: "t < length (spin_threads s) \<Longrightarrow> spin_threads s ! t = Spin_Sharing cur \<Longrightarrow>
    spin_step s (set_thread t (Spin_Sharing (spin_lock s)) s)"
| release_shared: "t < length (spin_threads s) \<Longrightarrow> spin_threads s ! t = Spin_Shared \<Longrightarrow>
    spin_step s (set_thread t Spin_Idle (s\<lparr>spin_lock := spinlock_release_shared (spin_lock s)\<rparr>))"

text \<open>A fresh lock of either kind, with fewer threads than the share counter can count.\<close>

definition spin_init :: "spin_state \<Rightarrow> bool" where
  "spin_init s \<longleftrightarrow> spin_lock s \<in> {SPINLOCK_T_INIT, SPINLOCK_T_INIT_SHARED} \<and>
     list_all (\<lambda>x. x = Spin_Idle) (spin_threads s) \<and> length (spin_threads s) < 2 ^ 29"

definition spin_excl :: "spin_state \<Rightarrow> nat \<Rightarrow> bool" where
  "spin_excl s t \<longleftrightarrow> t < length (spin_threads s) \<and> spin_threads s ! t = Spin_Excl"

definition spin_shared :: "spin_state \<Rightarrow> nat \<Rightarrow> bool" where
  "spin_shared s t \<longleftrightarrow> t < length (spin_threads s) \<and> spin_threads s ! t = Spin_Shared"

section \<open>Invariant\<close>

text \<open>
  The lock word is determined by who holds it: \<open>base + 2 * shares\<close> without an exclusive holder,
  \<open>base\<close> with the sign bit while there is exactly one and no shares.
\<close>

definition spin_inv :: "spin_state \<Rightarrow> bool" where
  "spin_inv s \<longleftrightarrow> length (spin_threads s) < 2 ^ 29 \<and> (\<exists>base \<in> {0, 1}.
     let shares = count_list (spin_threads s) Spin_Shared; excls = count_list (spin_threads s) Spin_Excl
     in (excls = 0 \<and> unat (spin_lock s) = base + 2 * shares) \<or>
        (excls = 1 \<and> shares = 0 \<and> unat (spin_lock s) = base + 2 ^ 31))"

lemma and_1_small: "unat (x AND (1 :: u32)) = unat x mod 2"
  by (simp add: and_one_eq unat_mod_distrib)

lemma or_magic_eval: "(0 :: u32) OR SPINLOCK_EXCL_MAGIC = 0x80000000" "(1 :: u32) OR SPINLOCK_EXCL_MAGIC = 0x80000001"
  by code_simp+

lemma or_magic:
  assumes "unat x \<le> 1"
  shows "unat (x OR SPINLOCK_EXCL_MAGIC) = unat x + 2 ^ 31"
proof -
  have "unat x = 0 \<or> unat x = 1" using assms by auto
  then have "x = 0 \<or> x = 1" by (simp only: word_unat_eq_iff) simp
  then show ?thesis by (elim disjE) (simp_all only: or_magic_eval, simp_all)
qed

text \<open>What each operation does to the lock word.\<close>

lemma spinlock_take_ok:
  assumes "spinlock_take l cur = (True, l', c)"
  shows "unat l \<le> 1 \<and> unat l' = unat l + 2 ^ 31"
proof -
  have l: "l = cur AND 1" and l': "l' = l OR SPINLOCK_EXCL_MAGIC"
    using assms by (auto simp: spinlock_take_def atomic_cas_def Let_def split: if_splits)
  have "unat l \<le> 1" unfolding l and_1_small by simp
  then show ?thesis unfolding l' using or_magic by blast
qed

lemma spinlock_take_shared_ok:
  assumes "spinlock_take_shared l cur = (True, l', c)"
  shows "unat l < 2 ^ 31 \<and> l' = l + 2"
proof -
  have l: "l = (if cur <s 0 then 1 else cur)" and l': "l' = l + 2"
    using assms by (auto simp: spinlock_take_shared_def atomic_cas_def Let_def split: if_splits)
  have "unat l < 2 ^ 31" unfolding l using sless_0_iff[of cur] by (simp add: not_le)
  then show ?thesis using l' by blast
qed

lemma spinlock_fail:
  "spinlock_take l cur = (False, l', c) \<Longrightarrow> l' = l" "spinlock_take_shared l cur = (False, l', c) \<Longrightarrow> l' = l"
  by (auto simp: spinlock_take_def spinlock_take_shared_def atomic_cas_def Let_def split: if_splits)

text \<open>The invariant over the numbers it depends on.\<close>

definition spin_word :: "nat \<Rightarrow> nat \<Rightarrow> nat \<Rightarrow> bool" where
  "spin_word l shares excls \<longleftrightarrow> (\<exists>base \<in> {0, 1}. (excls = 0 \<and> l = base + 2 * shares) \<or>
     (excls = 1 \<and> shares = 0 \<and> l = base + 2 ^ 31))"

lemma spin_inv_word:
  "spin_inv s \<longleftrightarrow> length (spin_threads s) < 2 ^ 29 \<and>
     spin_word (unat (spin_lock s)) (count_list (spin_threads s) Spin_Shared) (count_list (spin_threads s) Spin_Excl)"
  by (simp add: spin_inv_def spin_word_def Let_def)

lemma spin_inv_set_thread:
  assumes "spin_inv s" and t: "t < length (spin_threads s)"
    and "spin_word (unat l) (count_list (spin_threads s) Spin_Shared + of_bool (x = Spin_Shared) - of_bool (spin_threads s ! t = Spin_Shared))
      (count_list (spin_threads s) Spin_Excl + of_bool (x = Spin_Excl) - of_bool (spin_threads s ! t = Spin_Excl))"
  shows "spin_inv (set_thread t x (s\<lparr>spin_lock := l\<rparr>))"
proof -
  have "count_list ((spin_threads s)[t := x]) y = count_list (spin_threads s) y + of_bool (x = y) - of_bool (spin_threads s ! t = y)" for y
    using count_list_update[OF t, of x y] by linarith
  then show ?thesis using assms by (simp add: spin_inv_word set_thread_def)
qed

lemma spin_inv_pass:
  assumes "spin_inv s" and "t < length (spin_threads s)" and "spin_threads s ! t \<noteq> Spin_Shared" and "spin_threads s ! t \<noteq> Spin_Excl"
    and "x \<noteq> Spin_Shared" and "x \<noteq> Spin_Excl"
  shows "spin_inv (set_thread t x s)"
  using spin_inv_set_thread[of s t "spin_lock s" x] assms by (simp add: spin_inv_word)

lemma spin_inv_word_cases:
  assumes "spin_inv s" and "t < length (spin_threads s)"
  shows "spin_word (unat (spin_lock s)) (count_list (spin_threads s) Spin_Shared) (count_list (spin_threads s) Spin_Excl)"
    and "count_list (spin_threads s) Spin_Shared < 2 ^ 29"
    and "spin_threads s ! t = Spin_Shared \<Longrightarrow> 0 < count_list (spin_threads s) Spin_Shared"
    and "spin_threads s ! t = Spin_Excl \<Longrightarrow> 0 < count_list (spin_threads s) Spin_Excl"
  using assms count_le_length[of "spin_threads s" Spin_Shared]
  by (auto simp: spin_inv_word intro: count_list_pos)

lemma spin_inv_step: "spin_step s s' \<Longrightarrow> spin_inv s \<Longrightarrow> spin_inv s'"
proof (induction rule: spin_step.induct)
  case (take_cas t s cur ok l cur')
  note w = spin_inv_word_cases[OF take_cas(4,1)]
  show ?case
  proof (cases ok)
    case True
    then have "unat (spin_lock s) \<le> 1" "unat l = unat (spin_lock s) + 2 ^ 31"
      using spinlock_take_ok[of "spin_lock s" cur l cur'] take_cas(3) by auto
    then have "spin_word (unat l) (count_list (spin_threads s) Spin_Shared) (count_list (spin_threads s) Spin_Excl + 1)"
      using w(1) by (auto simp: spin_word_def)
    then show ?thesis using spin_inv_set_thread[OF take_cas(4,1)] take_cas(2) True by simp
  next
    case False
    then have "l = spin_lock s" using spinlock_fail(1)[of "spin_lock s" cur l cur'] take_cas(3) by simp
    then show ?thesis using spin_inv_pass[OF take_cas(4,1)] take_cas(2) False by simp
  qed
next
  case (release t s)
  note w = spin_inv_word_cases[OF release(3,1)]
  have "unat (spinlock_release (spin_lock s)) = unat (spin_lock s) mod 2"
    by (simp add: spinlock_release_def and_1_small)
  then have "spin_word (unat (spinlock_release (spin_lock s))) (count_list (spin_threads s) Spin_Shared) (count_list (spin_threads s) Spin_Excl - 1)"
    using w(1) w(4)[OF release(2)] by (auto simp: spin_word_def)
  then show ?case using spin_inv_set_thread[OF release(3,1)] release(2) by simp
next
  case (take_shared_cas t s cur ok l cur')
  note w = spin_inv_word_cases[OF take_shared_cas(4,1)]
  show ?case
  proof (cases ok)
    case True
    then have l: "unat (spin_lock s) < 2 ^ 31" "l = spin_lock s + 2"
      using spinlock_take_shared_ok[of "spin_lock s" cur l cur'] take_shared_cas(3) by auto
    then have "unat l = unat (spin_lock s) + 2" using unat_add_small[of "spin_lock s" 2] by simp
    then have "spin_word (unat l) (count_list (spin_threads s) Spin_Shared + 1) (count_list (spin_threads s) Spin_Excl)"
      using w(1) l(1) by (auto simp: spin_word_def)
    then show ?thesis using spin_inv_set_thread[OF take_shared_cas(4,1)] take_shared_cas(2) True by simp
  next
    case False
    then have "l = spin_lock s" using spinlock_fail(2)[of "spin_lock s" cur l cur'] take_shared_cas(3) by simp
    then show ?thesis using spin_inv_pass[OF take_shared_cas(4,1)] take_shared_cas(2) False by simp
  qed
next
  case (release_shared t s)
  note w = spin_inv_word_cases[OF release_shared(3,1)]
  have sh: "0 < count_list (spin_threads s) Spin_Shared" using w(3) release_shared(2) by simp
  then have "2 \<le> unat (spin_lock s)" using w(1) by (auto simp: spin_word_def)
  then have "unat (spinlock_release_shared (spin_lock s)) = unat (spin_lock s) - 2"
    unfolding spinlock_release_shared_def by (subst unat_sub) (simp_all add: word_le_nat_alt)
  then have "spin_word (unat (spinlock_release_shared (spin_lock s))) (count_list (spin_threads s) Spin_Shared - 1) (count_list (spin_threads s) Spin_Excl)"
    using w(1) sh by (auto simp: spin_word_def)
  then show ?case using spin_inv_set_thread[OF release_shared(3,1)] release_shared(2) by simp
qed (auto intro!: spin_inv_pass)

lemma spin_init_inv: "spin_init s \<Longrightarrow> spin_inv s"
proof -
  assume i: "spin_init s"
  then have "Spin_Shared \<notin> set (spin_threads s)" "Spin_Excl \<notin> set (spin_threads s)"
    by (auto simp: spin_init_def list_all_iff)
  then have "count_list (spin_threads s) Spin_Shared = 0" "count_list (spin_threads s) Spin_Excl = 0"
    by (simp_all add: count_list_0_iff)
  then show ?thesis
    using i by (auto simp: spin_inv_word spin_init_def spin_word_def SPINLOCK_T_INIT_def SPINLOCK_T_INIT_SHARED_def)
qed

lemma spin_inv_excl_count: "spin_inv s \<Longrightarrow> count_list (spin_threads s) Spin_Excl \<le> 1"
  by (auto simp: spin_inv_word spin_word_def)

interpretation spin: rw_lock spin_init spin_step spin_inv spin_excl spin_shared
proof
  show "spin_inv s \<Longrightarrow> spin_excl s t \<Longrightarrow> spin_excl s u \<Longrightarrow> t = u" for s t u
    by (auto simp: spin_excl_def intro: count_list_le_1_unique[OF spin_inv_excl_count])
  show "spin_inv s \<Longrightarrow> spin_excl s t \<Longrightarrow> \<not> spin_shared s u" for s t u
    using count_list_pos[of t "spin_threads s" Spin_Excl] count_list_pos[of u "spin_threads s" Spin_Shared]
    by (auto simp: spin_excl_def spin_shared_def spin_inv_word spin_word_def)
qed (auto intro: spin_init_inv spin_inv_step)

section \<open>Properties\<close>

text \<open>
  C5: mutual exclusion of the spinlock under every interleaving of the atomic accesses of its
  threads: while a thread holds it exclusively, no other thread holds it in either mode.
\<close>

theorem spinlock_mutual_exclusion:
  assumes "spin_init s" and "spin_step\<^sup>*\<^sup>* s s'" and "spin_excl s' t"
  shows "(\<forall>u. spin_excl s' u \<longrightarrow> u = t) \<and> (\<forall>u. \<not> spin_shared s' u)"
  using assms by (rule spin.mutual_exclusion)

theorem spinlock_mutual_exclusion_witness:
  "\<exists>s s'. spin_init s \<and> spin_step\<^sup>*\<^sup>* s s' \<and> spin_excl s' 0 \<and> \<not> spin_excl s' 1"
proof -
  let ?s = "\<lparr>spin_lock = 1, spin_threads = [Spin_Idle, Spin_Idle]\<rparr>"
  let ?a = "\<lparr>spin_lock = 1, spin_threads = [Spin_Taking 1, Spin_Idle]\<rparr>"
  let ?b = "\<lparr>spin_lock = 0x80000001, spin_threads = [Spin_Excl, Spin_Idle]\<rparr>"
  have i: "spin_init ?s" by (simp add: spin_init_def SPINLOCK_T_INIT_SHARED_def)
  have 1: "spin_step ?s ?a" using take[of 0 ?s] by (simp add: set_thread_def)
  have "spinlock_take 1 1 = (True, 0x80000001, 1)" by code_simp
  then have 2: "spin_step ?a ?b" using take_cas[of 0 ?a 1 True "0x80000001" 1] by (simp add: set_thread_def)
  have r: "spin_step\<^sup>*\<^sup>* ?s ?b" using 1 2 by (meson converse_rtranclp_into_rtranclp rtranclp.rtrancl_refl)
  have e: "spin_excl ?b 0" by (simp add: spin_excl_def)
  have "\<not> spin_excl ?b 1" using spinlock_mutual_exclusion[OF i r e] by auto
  then show ?thesis using i r e by blast
qed

text \<open>
  C27: the lock word always tells who holds the lock: its sign bit is set exactly while a thread
  holds it exclusively, and otherwise the bits above bit 0 are the number of shares.
\<close>

theorem spinlock_word_meaning:
  assumes "spin_init s" and "spin_step\<^sup>*\<^sup>* s s'"
  shows "(spin_lock s' <s 0 \<longleftrightarrow> (\<exists>t. spin_excl s' t)) \<and>
    (\<not> spin_lock s' <s 0 \<longrightarrow> unat (drop_bit 1 (spin_lock s')) = count_list (spin_threads s') Spin_Shared)"
proof -
  have inv: "spin_inv s'" using spin.reachable_inv assms by blast
  have "count_list (spin_threads s') Spin_Excl = 0 \<longleftrightarrow> \<not> (\<exists>t. spin_excl s' t)"
    by (auto simp: spin_excl_def count_list_0_iff in_set_conv_nth)
  moreover have "count_list (spin_threads s') Spin_Shared < 2 ^ 29"
    using inv count_le_length[of "spin_threads s'" Spin_Shared] by (simp add: spin_inv_word)
  ultimately show ?thesis
    using inv by (auto simp: spin_inv_word spin_word_def sless_0_iff unat_drop_bit_div)
qed

theorem spinlock_word_meaning_witness:
  "\<exists>s s'. spin_init s \<and> spin_step\<^sup>*\<^sup>* s s' \<and> spin_shared s' 1 \<and> unat (drop_bit 1 (spin_lock s')) = 1 \<and> \<not> (\<exists>t. spin_excl s' t)"
proof -
  let ?s = "\<lparr>spin_lock = 1, spin_threads = [Spin_Idle, Spin_Idle]\<rparr>"
  let ?a = "\<lparr>spin_lock = 1, spin_threads = [Spin_Idle, Spin_Checked]\<rparr>"
  let ?b = "\<lparr>spin_lock = 1, spin_threads = [Spin_Idle, Spin_Sharing 1]\<rparr>"
  let ?c = "\<lparr>spin_lock = 3, spin_threads = [Spin_Idle, Spin_Shared]\<rparr>"
  have i: "spin_init ?s" by (simp add: spin_init_def SPINLOCK_T_INIT_SHARED_def)
  have 1: "spin_step ?s ?a" using take_shared_assert[of 1 ?s] by (simp add: set_thread_def)
  have 2: "spin_step ?a ?b" using take_shared[of 1 ?a] by (simp add: set_thread_def)
  have "spinlock_take_shared 1 1 = (True, 3, 1)" by code_simp
  then have 3: "spin_step ?b ?c" using take_shared_cas[of 1 ?b 1 True 3 1] by (simp add: set_thread_def)
  have r: "spin_step\<^sup>*\<^sup>* ?s ?c" using 1 2 3 by (meson converse_rtranclp_into_rtranclp rtranclp.rtrancl_refl)
  have "\<not> (3 :: u32) <s 0" by code_simp
  then have "unat (drop_bit 1 (spin_lock ?c)) = 1 \<and> \<not> (\<exists>t. spin_excl ?c t)" using spinlock_word_meaning[OF i r] by simp
  moreover have "spin_shared ?c 1" by (simp add: spin_shared_def)
  ultimately show ?thesis using i r by blast
qed

end
