(* ===== verification/Mutex.thy ===== *)
theory Mutex
  imports Rw_Lock
begin

text \<open>
  The shared/exclusive mutex, \<^verbatim>\<open>kernel/src/badgelib/mutex.c\<close>. Each thread is at one of the
  points between the atomic accesses of the code, with the local variables it still needs; every
  access is one step, and so is what happens between taking and clearing the spinlock of the waiting
  list. The waiting list holds thread numbers. Time only advances. The counter
  \<^verbatim>\<open>shares\<close> is an integer: the invariant keeps it between 0 and \<^verbatim>\<open>EXCLUSIVE_MAGIC\<close>.
  Releasing is only modelled for a thread that holds the mutex, as the interface demands.
\<close>

section \<open>Definitions\<close>

definition EXCLUSIVE_MAGIC :: int where
  "EXCLUSIVE_MAGIC = 0x7FFFFFFF div 4"

definition TIMESTAMP_US_MAX :: int where
  "TIMESTAMP_US_MAX = 0x7FFFFFFFFFFFFFFF"

record mutex_t =
  is_shared :: bool
  allow_isr :: bool
  shares :: int
  waiting_list :: "nat list"

definition mutex_init :: "bool \<Rightarrow> bool \<Rightarrow> mutex_t" where
  "mutex_init shared isr = \<lparr>is_shared = shared, allow_isr = isr, shares = 0, waiting_list = []\<rparr>"

text \<open>One attempt of each atomic loop: success, the mutex, and the local \<^verbatim>\<open>old_value\<close>.\<close>

definition await_swap_atomic_int :: "mutex_t \<Rightarrow> int \<Rightarrow> int \<Rightarrow> bool \<times> mutex_t" where
  "await_swap_atomic_int mutex expected new_value =
     (if shares mutex = expected then (True, mutex\<lparr>shares := new_value\<rparr>) else (False, mutex))"

definition thresh_add_atomic_int :: "mutex_t \<Rightarrow> int \<Rightarrow> int \<Rightarrow> bool \<times> mutex_t \<times> int" where
  "thresh_add_atomic_int mutex old_value threshold =
     (let new_value = old_value + 1 in
      if \<not> (old_value \<ge> threshold \<or> new_value \<ge> threshold) then
        if shares mutex = old_value then (True, mutex\<lparr>shares := new_value\<rparr>, old_value)
        else (False, mutex, shares mutex)
      else (False, mutex, old_value))"

definition unequal_sub_atomic_int :: "mutex_t \<Rightarrow> int \<Rightarrow> int \<Rightarrow> int \<Rightarrow> bool \<times> mutex_t \<times> int" where
  "unequal_sub_atomic_int mutex old_value unequal0 unequal1 =
     (let new_value = old_value - 1 in
      if \<not> (old_value = unequal0 \<or> old_value = unequal1) then
        if shares mutex = old_value then (True, mutex\<lparr>shares := new_value\<rparr>, old_value)
        else (False, mutex, shares mutex)
      else (False, mutex, old_value))"

definition compute_timeout :: "int \<Rightarrow> int \<Rightarrow> int" where
  "compute_timeout timeout now =
     (if timeout < 0 \<or> timeout - TIMESTAMP_US_MAX + now \<ge> 0 then TIMESTAMP_US_MAX else timeout + now)"

text \<open>
  Where a thread is: in the loop of an operation (with its deadline, its \<^verbatim>\<open>old_value\<close> and whether
  it runs in an interrupt), holding the mutex, about to notify, or at the loop condition. A wait
  passes through more points: about to set the \<^verbatim>\<open>THREAD_BLOCKED\<close> flag, with the flag set, with the
  timer registered, and in the waiting list. The timer of another CPU may clear the flag from the
  moment it is registered: \<open>M_Timed_Won\<close> is a thread whose flag the timer has cleared before the
  thread is in the list, \<open>M_Timer_Won\<close> one that is in the list.
\<close>

datatype mtx_loop = L_Acquire int bool | L_Release bool | L_Share int int bool

datatype mtx_thread = M_Idle | M_Loop mtx_loop | M_Excl | M_Shared | M_Unsharing int bool | M_Notifying
  | M_Wait mtx_loop | M_Flagged mtx_loop | M_Timed mtx_loop | M_Timed_Won mtx_loop
  | M_Blocked mtx_loop | M_Timer_Won mtx_loop | M_Check mtx_loop

fun deadline :: "mtx_loop \<Rightarrow> int" where
  "deadline (L_Acquire timeout isr) = timeout"
| "deadline (L_Release isr) = TIMESTAMP_US_MAX"
| "deadline (L_Share timeout old isr) = timeout"

fun from_isr :: "mtx_loop \<Rightarrow> bool" where
  "from_isr (L_Acquire timeout isr) = isr"
| "from_isr (L_Release isr) = isr"
| "from_isr (L_Share timeout old isr) = isr"

text \<open>The body of a loop: the next point of the thread if it succeeds, else the loop to resume.\<close>

fun mtx_attempt :: "mutex_t \<Rightarrow> mtx_loop \<Rightarrow> mutex_t \<times> (mtx_thread + mtx_loop)" where
  "mtx_attempt m (L_Acquire timeout isr) =
     (case await_swap_atomic_int m 0 EXCLUSIVE_MAGIC of
        (True, m) \<Rightarrow> (m, Inl M_Excl) | (False, m) \<Rightarrow> (m, Inr (L_Acquire timeout isr)))"
| "mtx_attempt m (L_Release isr) =
     (case await_swap_atomic_int m EXCLUSIVE_MAGIC 0 of
        (True, m) \<Rightarrow> (m, Inl M_Notifying) | (False, m) \<Rightarrow> (m, Inr (L_Release isr)))"
| "mtx_attempt m (L_Share timeout old_value isr) =
     (case thresh_add_atomic_int m old_value EXCLUSIVE_MAGIC of
        (True, m, old_value) \<Rightarrow> (m, Inl M_Shared) | (False, m, old_value) \<Rightarrow> (m, Inr (L_Share timeout old_value isr)))"

text \<open>
  \<^verbatim>\<open>mutex_notify\<close> takes the first thread of the list whose flag is still set. It holds the spinlock of
  the list throughout: a thread whose flag it found cleared stays as it is until then, so the scan is
  one step.
\<close>

fun is_blocked :: "mtx_thread \<Rightarrow> bool" where
  "is_blocked (M_Blocked l) = True"
| "is_blocked _ = False"

primrec first_blocked :: "mtx_thread list \<Rightarrow> nat list \<Rightarrow> nat option" where
  "first_blocked ts [] = None"
| "first_blocked ts (n # ns) = (if is_blocked (ts ! n) then Some n else first_blocked ts ns)"

definition mutex_notify :: "mutex_t \<Rightarrow> mtx_thread list \<Rightarrow> mutex_t \<times> mtx_thread list" where
  "mutex_notify mutex ts =
     (case first_blocked ts (waiting_list mutex) of
        None \<Rightarrow> (mutex, ts)
      | Some n \<Rightarrow>
          (mutex\<lparr>waiting_list := remove1 n (waiting_list mutex)\<rparr>,
           case ts ! n of M_Blocked l \<Rightarrow> ts[n := M_Check l] | _ \<Rightarrow> ts))"

text \<open>
  The next access of \<^verbatim>\<open>mutex_wait\<close>: the flag, the timer, the append to the list. The thread's own
  code is the same after the timer has cleared the flag.
\<close>

fun mutex_wait :: "nat \<Rightarrow> mutex_t \<Rightarrow> mtx_thread \<Rightarrow> (mutex_t \<times> mtx_thread) option" where
  "mutex_wait self mutex (M_Wait l) = Some (mutex, M_Flagged l)"
| "mutex_wait self mutex (M_Flagged l) = Some (mutex, M_Timed l)"
| "mutex_wait self mutex (M_Timed l) = Some (mutex\<lparr>waiting_list := waiting_list mutex @ [self]\<rparr>, M_Blocked l)"
| "mutex_wait self mutex (M_Timed_Won l) = Some (mutex\<lparr>waiting_list := waiting_list mutex @ [self]\<rparr>, M_Timer_Won l)"
| "mutex_wait self mutex _ = None"

text \<open>
  The next access of \<^verbatim>\<open>mutex_resume_timer\<close>: clearing the flag, then, if it was set, removing the
  thread from the list and resuming it. There is a timer if the wait has a deadline. Removing a thread
  that is not in the list yet is outside of the contract of the list and has no result.
\<close>

fun mutex_resume_timer :: "nat \<Rightarrow> mutex_t \<Rightarrow> mtx_thread \<Rightarrow> (mutex_t \<times> mtx_thread) option" where
  "mutex_resume_timer thread mutex (M_Timed l) = (if deadline l < TIMESTAMP_US_MAX then Some (mutex, M_Timed_Won l) else None)"
| "mutex_resume_timer thread mutex (M_Blocked l) = (if deadline l < TIMESTAMP_US_MAX then Some (mutex, M_Timer_Won l) else None)"
| "mutex_resume_timer thread mutex (M_Timer_Won l) = Some (mutex\<lparr>waiting_list := remove1 thread (waiting_list mutex)\<rparr>, M_Check l)"
| "mutex_resume_timer thread mutex _ = None"

record mtx_state =
  mtx_mutex :: mutex_t
  mtx_threads :: "mtx_thread list"
  mtx_now :: int

definition mtx_upd :: "nat \<Rightarrow> mtx_thread \<Rightarrow> mutex_t \<Rightarrow> mtx_state \<Rightarrow> mtx_state" where
  "mtx_upd t x m s = s\<lparr>mtx_mutex := m, mtx_threads := (mtx_threads s)[t := x]\<rparr>"

inductive mtx_step :: "mtx_state \<Rightarrow> mtx_state \<Rightarrow> bool" where
  tick: "0 < d \<Longrightarrow> mtx_now s + d < TIMESTAMP_US_MAX \<Longrightarrow> mtx_step s (s\<lparr>mtx_now := mtx_now s + d\<rparr>)"
| acquire: "t < length (mtx_threads s) \<Longrightarrow> mtx_threads s ! t = M_Idle \<Longrightarrow> (isr \<longrightarrow> allow_isr (mtx_mutex s)) \<Longrightarrow>
    mtx_step s (mtx_upd t (M_Loop (L_Acquire (compute_timeout timeout (mtx_now s)) isr)) (mtx_mutex s) s)"
| release: "t < length (mtx_threads s) \<Longrightarrow> mtx_threads s ! t = M_Excl \<Longrightarrow> (isr \<longrightarrow> allow_isr (mtx_mutex s)) \<Longrightarrow>
    mtx_step s (mtx_upd t (M_Loop (L_Release isr)) (mtx_mutex s) s)"
| acquire_shared: "t < length (mtx_threads s) \<Longrightarrow> mtx_threads s ! t = M_Idle \<Longrightarrow> is_shared (mtx_mutex s) \<Longrightarrow>
    mtx_step s (mtx_upd t (M_Loop (L_Share (compute_timeout timeout (mtx_now s)) (shares (mtx_mutex s)) isr)) (mtx_mutex s) s)"
| release_shared: "t < length (mtx_threads s) \<Longrightarrow> mtx_threads s ! t = M_Shared \<Longrightarrow>
    mtx_step s (mtx_upd t (M_Unsharing (shares (mtx_mutex s)) isr) (mtx_mutex s) s)"
| attempt: "t < length (mtx_threads s) \<Longrightarrow> mtx_threads s ! t = M_Loop l \<Longrightarrow> mtx_attempt (mtx_mutex s) l = (m, Inl x) \<Longrightarrow>
    mtx_step s (mtx_upd t x m s)"
| attempt_fail: "t < length (mtx_threads s) \<Longrightarrow> mtx_threads s ! t = M_Loop l \<Longrightarrow> mtx_attempt (mtx_mutex s) l = (m, Inr l') \<Longrightarrow>
    mtx_step s (mtx_upd t (if from_isr l' then M_Check l' else M_Wait l') m s)"
| spurious: "t < length (mtx_threads s) \<Longrightarrow> mtx_threads s ! t = M_Loop l \<Longrightarrow>
    mtx_step s (mtx_upd t (if from_isr l then M_Check l else M_Wait l) (mtx_mutex s) s)"
| wait: "t < length (mtx_threads s) \<Longrightarrow> mutex_wait t (mtx_mutex s) (mtx_threads s ! t) = Some (m, x) \<Longrightarrow>
    mtx_step s (mtx_upd t x m s)"
| timer: "t < length (mtx_threads s) \<Longrightarrow> mutex_resume_timer t (mtx_mutex s) (mtx_threads s ! t) = Some (m, x) \<Longrightarrow>
    mtx_step s (mtx_upd t x m s)"
| check_again: "t < length (mtx_threads s) \<Longrightarrow> mtx_threads s ! t = M_Check l \<Longrightarrow> mtx_now s < deadline l \<Longrightarrow>
    mtx_step s (mtx_upd t (M_Loop l) (mtx_mutex s) s)"
| check_timeout: "t < length (mtx_threads s) \<Longrightarrow> mtx_threads s ! t = M_Check l \<Longrightarrow> \<not> mtx_now s < deadline l \<Longrightarrow>
    mtx_step s (mtx_upd t M_Idle (mtx_mutex s) s)"
| unshare: "t < length (mtx_threads s) \<Longrightarrow> mtx_threads s ! t = M_Unsharing old isr \<Longrightarrow>
    unequal_sub_atomic_int (mtx_mutex s) old 0 EXCLUSIVE_MAGIC = (ok, m, old') \<Longrightarrow>
    mtx_step s (mtx_upd t (if ok then M_Notifying else M_Unsharing old' isr) m s)"
| notify: "t < length (mtx_threads s) \<Longrightarrow> mtx_threads s ! t = M_Notifying \<Longrightarrow>
    mutex_notify (mtx_mutex s) ((mtx_threads s)[t := M_Idle]) = (m, ts) \<Longrightarrow>
    mtx_step s (s\<lparr>mtx_mutex := m, mtx_threads := ts\<rparr>)"

definition mtx_init :: "mtx_state \<Rightarrow> bool" where
  "mtx_init s \<longleftrightarrow> (\<exists>shared isr. mtx_mutex s = mutex_init shared isr) \<and> list_all (\<lambda>x. x = M_Idle) (mtx_threads s) \<and>
     mtx_now s < TIMESTAMP_US_MAX"

text \<open>A thread holds the mutex from the successful exchange to the one that releases it.\<close>

fun holds_excl :: "mtx_thread \<Rightarrow> bool" where
  "holds_excl M_Excl = True"
| "holds_excl (M_Loop (L_Release isr)) = True"
| "holds_excl (M_Wait (L_Release isr)) = True"
| "holds_excl (M_Flagged (L_Release isr)) = True"
| "holds_excl (M_Timed (L_Release isr)) = True"
| "holds_excl (M_Timed_Won (L_Release isr)) = True"
| "holds_excl (M_Blocked (L_Release isr)) = True"
| "holds_excl (M_Timer_Won (L_Release isr)) = True"
| "holds_excl (M_Check (L_Release isr)) = True"
| "holds_excl _ = False"

fun holds_shared :: "mtx_thread \<Rightarrow> bool" where
  "holds_shared M_Shared = True"
| "holds_shared (M_Unsharing old isr) = True"
| "holds_shared _ = False"

definition mtx_excl :: "mtx_state \<Rightarrow> nat \<Rightarrow> bool" where
  "mtx_excl s t \<longleftrightarrow> t < length (mtx_threads s) \<and> holds_excl (mtx_threads s ! t)"

definition mtx_shared :: "mtx_state \<Rightarrow> nat \<Rightarrow> bool" where
  "mtx_shared s t \<longleftrightarrow> t < length (mtx_threads s) \<and> holds_shared (mtx_threads s ! t)"

section \<open>Invariant\<close>

abbreviation excls :: "mtx_thread list \<Rightarrow> nat" where
  "excls ts \<equiv> length (filter holds_excl ts)"

abbreviation sharers :: "mtx_thread list \<Rightarrow> nat" where
  "sharers ts \<equiv> length (filter holds_shared ts)"

definition mtx_word :: "int \<Rightarrow> nat \<Rightarrow> nat \<Rightarrow> bool" where
  "mtx_word v sh ex \<longleftrightarrow> (ex = 0 \<and> v = int sh \<and> v < EXCLUSIVE_MAGIC) \<or> (ex = 1 \<and> sh = 0 \<and> v = EXCLUSIVE_MAGIC)"

text \<open>A thread is in the list from its append to its removal.\<close>

fun is_listed :: "mtx_thread \<Rightarrow> bool" where
  "is_listed (M_Blocked l) = True"
| "is_listed (M_Timer_Won l) = True"
| "is_listed _ = False"

definition wait_inv :: "nat list \<Rightarrow> mtx_thread list \<Rightarrow> bool" where
  "wait_inv wl ts \<longleftrightarrow> distinct wl \<and> set wl = {t. t < length ts \<and> is_listed (ts ! t)}"

text \<open>Nobody but a thread whose deadline can pass is ever timed out while it holds the mutex.\<close>

definition mtx_inv :: "mtx_state \<Rightarrow> bool" where
  "mtx_inv s \<longleftrightarrow> mtx_word (shares (mtx_mutex s)) (sharers (mtx_threads s)) (excls (mtx_threads s)) \<and>
     wait_inv (waiting_list (mtx_mutex s)) (mtx_threads s) \<and> mtx_now s < TIMESTAMP_US_MAX"

lemma filter_pos: "i < length xs \<Longrightarrow> P (xs ! i) \<Longrightarrow> 0 < length (filter P xs)"
proof -
  assume "i < length xs" "P (xs ! i)"
  then have "xs ! i \<in> set (filter P xs)" by simp
  then show ?thesis by (metis length_pos_if_in_set)
qed

lemma wait_inv_same:
  assumes "wait_inv wl ts" and "is_listed x = is_listed (ts ! t)"
  shows "wait_inv wl (ts[t := x])"
proof -
  have "is_listed (ts[t := x] ! u) = is_listed (ts ! u)" if "u < length ts" for u
    using assms(2) that by (cases "t = u") simp_all
  then show ?thesis using assms(1) by (simp add: wait_inv_def cong: conj_cong)
qed

lemma wait_inv_append:
  "wait_inv wl ts \<Longrightarrow> t < length ts \<Longrightarrow> \<not> is_listed (ts ! t) \<Longrightarrow> is_listed x \<Longrightarrow> wait_inv (wl @ [t]) (ts[t := x])"
  by (auto simp: wait_inv_def nth_list_update)

lemma wait_inv_remove:
  "wait_inv wl ts \<Longrightarrow> t < length ts \<Longrightarrow> is_listed (ts ! t) \<Longrightarrow> \<not> is_listed x \<Longrightarrow> wait_inv (remove1 t wl) (ts[t := x])"
  by (auto simp: wait_inv_def nth_list_update)

lemmas wait_inv_intros = wait_inv_same wait_inv_append wait_inv_remove

lemma holds_excl_points:
  "holds_excl (M_Wait l) = holds_excl (M_Loop l)" "holds_excl (M_Blocked l) = holds_excl (M_Loop l)"
  "holds_excl (M_Flagged l) = holds_excl (M_Loop l)" "holds_excl (M_Timed l) = holds_excl (M_Loop l)" "holds_excl (M_Timed_Won l) = holds_excl (M_Loop l)"
  "holds_excl (M_Timer_Won l) = holds_excl (M_Loop l)" "holds_excl (M_Check l) = holds_excl (M_Loop l)"
  by (cases l; simp)+

lemma sharers_update:
  "t < length ts \<Longrightarrow> sharers (ts[t := x]) = sharers ts + of_bool (holds_shared x) - of_bool (holds_shared (ts ! t))"
  using length_filter_update[of t ts holds_shared x] by linarith

lemma excls_update:
  "t < length ts \<Longrightarrow> excls (ts[t := x]) = excls ts + of_bool (holds_excl x) - of_bool (holds_excl (ts ! t))"
  using length_filter_update[of t ts holds_excl x] by linarith

lemma mtx_inv_upd:
  assumes "mtx_inv s" and t: "t < length (mtx_threads s)" and "wait_inv (waiting_list m) ((mtx_threads s)[t := x])"
    and "mtx_word (shares m) (sharers (mtx_threads s) + of_bool (holds_shared x) - of_bool (holds_shared (mtx_threads s ! t)))
      (excls (mtx_threads s) + of_bool (holds_excl x) - of_bool (holds_excl (mtx_threads s ! t)))"
  shows "mtx_inv (mtx_upd t x m s)"
  using assms by (simp add: mtx_inv_def mtx_upd_def sharers_update excls_update)

text \<open>A move that neither takes nor gives up the mutex and leaves the counter alone.\<close>

lemma mtx_inv_pass:
  assumes inv: "mtx_inv s" and t: "t < length (mtx_threads s)" and m: "shares m = shares (mtx_mutex s)"
    and w: "wait_inv (waiting_list m) ((mtx_threads s)[t := x])"
    and x: "holds_shared x = holds_shared (mtx_threads s ! t)" "holds_excl x = holds_excl (mtx_threads s ! t)"
  shows "mtx_inv (mtx_upd t x m s)"
  using mtx_inv_upd[OF inv t w] inv unfolding x m by (simp add: mtx_inv_def)

lemma mtx_invD:
  assumes "mtx_inv s"
  shows "mtx_word (shares (mtx_mutex s)) (sharers (mtx_threads s)) (excls (mtx_threads s))"
    and "wait_inv (waiting_list (mtx_mutex s)) (mtx_threads s)" and "mtx_now s < TIMESTAMP_US_MAX"
  using assms by (simp_all add: mtx_inv_def)

lemma mtx_word_unshare: "mtx_word v sh ex \<Longrightarrow> 0 < sh \<Longrightarrow> mtx_word (v - 1) (sh - 1) ex"
  by (auto simp: mtx_word_def of_nat_diff)

lemma mtx_attempt_done:
  assumes "mtx_attempt m l = (m', Inl x)" and "mtx_word (shares m) sh ex" and "holds_excl (M_Loop l) \<longrightarrow> 0 < ex"
  shows "waiting_list m' = waiting_list m \<and> \<not> is_listed x \<and>
    mtx_word (shares m') (sh + of_bool (holds_shared x)) (ex + of_bool (holds_excl x) - of_bool (holds_excl (M_Loop l)))"
  using assms
  by (cases l) (auto simp: await_swap_atomic_int_def thresh_add_atomic_int_def Let_def mtx_word_def EXCLUSIVE_MAGIC_def
      split: if_splits)

lemma mtx_attempt_fail:
  "mtx_attempt m l = (m', Inr l') \<Longrightarrow> m' = m \<and> holds_excl (M_Loop l') = holds_excl (M_Loop l)"
  by (cases l) (auto simp: await_swap_atomic_int_def thresh_add_atomic_int_def Let_def split: if_splits)

lemma first_blocked_Some:
  "first_blocked ts ns = Some n \<Longrightarrow> n \<in> set ns \<and> is_blocked (ts ! n)"
  by (induction ns) (auto split: if_splits)

lemma first_blocked_None: "first_blocked ts ns = None \<longleftrightarrow> (\<forall>n \<in> set ns. \<not> is_blocked (ts ! n))"
  by (induction ns) auto

lemma is_blockedE: "is_blocked x \<Longrightarrow> (\<And>l. x = M_Blocked l \<Longrightarrow> P) \<Longrightarrow> P"
  by (cases x) auto

lemma mutex_notify_cases:
  assumes "mutex_notify m ts = (m', ts')"
  obtains "m' = m" and "ts' = ts" and "\<forall>n \<in> set (waiting_list m). \<not> is_blocked (ts ! n)"
  | n l where "n \<in> set (waiting_list m)" and "ts ! n = M_Blocked l" and "ts' = ts[n := M_Check l]"
    and "m' = m\<lparr>waiting_list := remove1 n (waiting_list m)\<rparr>"
proof (cases "first_blocked ts (waiting_list m)")
  case None
  then have "m' = m" "ts' = ts" using assms by (simp_all add: mutex_notify_def)
  then show ?thesis using None that(1) by (simp add: first_blocked_None)
next
  case (Some n)
  then obtain l where "ts ! n = M_Blocked l" "n \<in> set (waiting_list m)"
    using first_blocked_Some[OF Some] by (auto elim: is_blockedE)
  then show ?thesis using assms Some that(2) by (simp add: mutex_notify_def)
qed

lemma mutex_wait_cases:
  assumes "mutex_wait t m p = Some (m', x)"
  shows "holds_shared x = holds_shared p" "holds_excl x = holds_excl p" "shares m' = shares m"
    "is_listed x = is_listed p \<and> waiting_list m' = waiting_list m \<or> \<not> is_listed p \<and> is_listed x \<and> waiting_list m' = waiting_list m @ [t]"
  using assms by (cases p; auto simp: holds_excl_points)+

lemma mutex_resume_timer_cases:
  assumes "mutex_resume_timer t m p = Some (m', x)"
  shows "holds_shared x = holds_shared p" "holds_excl x = holds_excl p" "shares m' = shares m"
    "is_listed x = is_listed p \<and> waiting_list m' = waiting_list m \<or> is_listed p \<and> \<not> is_listed x \<and> waiting_list m' = remove1 t (waiting_list m)"
  using assms by (cases p; auto simp: holds_excl_points split: if_splits)+

lemma mtx_inv_step: "mtx_step s s' \<Longrightarrow> mtx_inv s \<Longrightarrow> mtx_inv s'"
proof (induction rule: mtx_step.induct)
  case (attempt t s l m x)
  note D = mtx_invD[OF attempt(4)]
  have "holds_excl (M_Loop l) \<longrightarrow> 0 < excls (mtx_threads s)"
    using filter_pos[of t "mtx_threads s" holds_excl] attempt(1,2) by simp
  from mtx_attempt_done[OF attempt(3) D(1) this] show ?case
    using attempt(1,2) D(2) by (intro mtx_inv_upd attempt(4)) (simp_all add: wait_inv_same)
next
  case (attempt_fail t s l m l')
  note D = mtx_invD[OF attempt_fail(4)] and f = mtx_attempt_fail[OF attempt_fail(3)]
  show ?case
    using attempt_fail(1,2) D(2) f by (intro mtx_inv_pass attempt_fail(4)) (auto simp: holds_excl_points intro!: wait_inv_same)
next
  case (spurious t s l)
  then show ?case
    using mtx_invD(2) by (intro mtx_inv_pass) (auto simp: holds_excl_points intro!: wait_inv_same)
next
  case (wait t s m x)
  note w = mutex_wait_cases[OF wait(2)]
  have "wait_inv (waiting_list m) ((mtx_threads s)[t := x])"
    using w(4) mtx_invD(2)[OF wait(3)] wait(1) by (auto intro: wait_inv_same wait_inv_append)
  then show ?case by (rule mtx_inv_pass[OF wait(3,1) w(3) _ w(1,2)])
next
  case (timer t s m x)
  note w = mutex_resume_timer_cases[OF timer(2)]
  have "wait_inv (waiting_list m) ((mtx_threads s)[t := x])"
    using w(4) mtx_invD(2)[OF timer(3)] timer(1) by (auto intro: wait_inv_same wait_inv_remove)
  then show ?case by (rule mtx_inv_pass[OF timer(3,1) w(3) _ w(1,2)])
next
  case (check_timeout t s l)
  have "\<not> holds_excl (M_Loop l)" using check_timeout(3) mtx_invD(3)[OF check_timeout(4)] by (cases l) auto
  then show ?case
    using check_timeout mtx_invD(2)[OF check_timeout(4)] by (intro mtx_inv_pass) (auto simp: holds_excl_points intro!: wait_inv_same)
next
  case (unshare t s old isr ok m old')
  note D = mtx_invD[OF unshare(4)]
  have pos: "0 < sharers (mtx_threads s)" using filter_pos[of t "mtx_threads s" holds_shared] unshare(1,2) by simp
  show ?case
  proof (cases ok)
    case True
    then have "shares m = shares (mtx_mutex s) - 1" "waiting_list m = waiting_list (mtx_mutex s)"
      using unshare(3) by (auto simp: unequal_sub_atomic_int_def Let_def split: if_splits)
    moreover have "mtx_word (shares (mtx_mutex s) - 1) (sharers (mtx_threads s) - 1) (excls (mtx_threads s))"
      using D(1) pos by (rule mtx_word_unshare)
    ultimately show ?thesis
      using True unshare(1,2) D(2) by (intro mtx_inv_upd unshare(4)) (simp_all add: wait_inv_same)
  next
    case False
    then have "m = mtx_mutex s" using unshare(3) by (auto simp: unequal_sub_atomic_int_def Let_def split: if_splits)
    then show ?thesis
      using False unshare(1,2) D by (intro mtx_inv_pass unshare(4)) (auto intro!: wait_inv_same)
  qed
next
  case (notify t s m ts)
  note D = mtx_invD[OF notify(4)]
  let ?s = "mtx_upd t M_Idle (mtx_mutex s) s"
  have inv: "mtx_inv ?s" using notify(1,2) D by (intro mtx_inv_pass notify(4)) (auto intro!: wait_inv_same)
  have ms: "mtx_mutex ?s = mtx_mutex s" "mtx_threads ?s = (mtx_threads s)[t := M_Idle]" by (simp_all add: mtx_upd_def)
  from notify(3) show ?case
  proof (cases rule: mutex_notify_cases)
    case 1
    then show ?thesis using inv by (simp add: mtx_upd_def)
  next
    case (2 n l)
    have n: "n < length (mtx_threads ?s)" using 2(1) mtx_invD(2)[OF inv] unfolding ms by (auto simp: wait_inv_def)
    have "mtx_inv (mtx_upd n (M_Check l) m ?s)"
      using inv n 2 mtx_invD(2)[OF inv] by (intro mtx_inv_pass[OF inv n]) (simp_all add: ms holds_excl_points wait_inv_remove)
    then show ?thesis using 2 by (simp add: mtx_upd_def)
  qed
next
  case (tick d s)
  then show ?case by (simp add: mtx_inv_def)
next
  case (acquire t s isr timeout)
  then show ?case using mtx_invD(2)[OF acquire(4)] by (intro mtx_inv_pass) (simp_all add: wait_inv_same)
next
  case (release t s isr)
  then show ?case using mtx_invD(2)[OF release(4)] by (intro mtx_inv_pass) (simp_all add: wait_inv_same)
next
  case (acquire_shared t s timeout isr)
  then show ?case using mtx_invD(2)[OF acquire_shared(4)] by (intro mtx_inv_pass) (simp_all add: wait_inv_same)
next
  case (release_shared t s isr)
  then show ?case using mtx_invD(2)[OF release_shared(3)] by (intro mtx_inv_pass) (simp_all add: wait_inv_same)
next
  case (check_again t s l)
  then show ?case using mtx_invD(2)[OF check_again(4)] by (intro mtx_inv_pass) (simp_all add: wait_inv_same holds_excl_points)
qed

lemma mtx_init_inv: "mtx_init s \<Longrightarrow> mtx_inv s"
proof -
  assume i: "mtx_init s"
  then have idle: "\<forall>x \<in> set (mtx_threads s). x = M_Idle" by (auto simp: mtx_init_def list_all_iff)
  then have "filter holds_shared (mtx_threads s) = []" "filter holds_excl (mtx_threads s) = []"
    by (auto simp: filter_empty_conv)
  moreover have "\<not> is_listed (mtx_threads s ! t)" if "t < length (mtx_threads s)" for t
    using idle nth_mem[OF that] by auto
  ultimately show ?thesis
    using i by (auto simp: mtx_inv_def mtx_init_def mutex_init_def mtx_word_def EXCLUSIVE_MAGIC_def wait_inv_def)
qed

lemma filter_le_1_unique:
  "length (filter P xs) \<le> 1 \<Longrightarrow> i < length xs \<Longrightarrow> j < length xs \<Longrightarrow> P (xs ! i) \<Longrightarrow> P (xs ! j) \<Longrightarrow> i = j"
proof (induction xs arbitrary: i j)
  case (Cons a xs)
  then show ?case
    using filter_pos[of "i - 1" xs P] filter_pos[of "j - 1" xs P]
    by (cases i; cases j) (auto split: if_splits)
qed simp

interpretation mtx: rw_lock mtx_init mtx_step mtx_inv mtx_excl mtx_shared
proof
  show "mtx_inv s \<Longrightarrow> mtx_excl s t \<Longrightarrow> mtx_excl s u \<Longrightarrow> t = u" for s t u
    using filter_le_1_unique[of holds_excl "mtx_threads s" t u] mtx_invD(1)[of s]
    by (auto simp: mtx_excl_def mtx_word_def)
  show "mtx_inv s \<Longrightarrow> mtx_excl s t \<Longrightarrow> \<not> mtx_shared s u" for s t u
    using filter_pos[of t "mtx_threads s" holds_excl] filter_pos[of u "mtx_threads s" holds_shared] mtx_invD(1)[of s]
    by (auto simp: mtx_excl_def mtx_shared_def mtx_word_def)
qed (auto intro: mtx_init_inv mtx_inv_step)

section \<open>A share request that has seen the mutex locked\<close>

text \<open>
  The loop of \<^verbatim>\<open>thresh_add_atomic_int\<close> only refreshes \<^verbatim>\<open>old_value\<close> in the exchange, which
  it does not reach once \<^verbatim>\<open>old_value\<close> is at the threshold.
\<close>

fun stale :: "mtx_loop \<Rightarrow> bool" where
  "stale (L_Share timeout old isr) = (timeout = TIMESTAMP_US_MAX \<and> EXCLUSIVE_MAGIC \<le> old + 1)"
| "stale _ = False"

fun starved :: "mtx_thread \<Rightarrow> bool" where
  "starved (M_Loop l) = stale l"
| "starved (M_Wait l) = stale l"
| "starved (M_Flagged l) = stale l"
| "starved (M_Timed l) = stale l"
| "starved (M_Timed_Won l) = stale l"
| "starved (M_Blocked l) = stale l"
| "starved (M_Timer_Won l) = stale l"
| "starved (M_Check l) = stale l"
| "starved _ = False"

lemma stale_attempt: "stale l \<Longrightarrow> mtx_attempt m l = (m, Inr l)"
  by (cases l) (auto simp: thresh_add_atomic_int_def Let_def)

lemma starved_upd:
  "starved (mtx_threads s ! t) \<Longrightarrow> (u = t \<Longrightarrow> starved x) \<Longrightarrow> starved (mtx_threads (mtx_upd u x m s) ! t)"
  by (cases "t < length (mtx_threads s)"; cases "u = t") (auto simp: mtx_upd_def list_update_beyond not_less)

lemma starved_step:
  "mtx_step s s' \<Longrightarrow> mtx_inv s \<Longrightarrow> starved (mtx_threads s ! t) \<Longrightarrow> starved (mtx_threads s' ! t)"
proof (induction rule: mtx_step.induct)
  case (attempt u s l m x)
  then show ?case by (intro starved_upd) (auto simp: stale_attempt)
next
  case (attempt_fail u s l m l')
  then show ?case by (intro starved_upd) (auto simp: stale_attempt)
next
  case (wait u s m x)
  then show ?case by (intro starved_upd) (cases "mtx_threads s ! u"; auto)+
next
  case (timer u s m x)
  then show ?case by (intro starved_upd) (cases "mtx_threads s ! u"; auto split: if_splits)+
next
  case (check_timeout u s l)
  have "\<not> stale l" using check_timeout(3) mtx_invD(3)[OF check_timeout(4)] by (cases l) auto
  then show ?case using check_timeout by (intro starved_upd) auto
next
  case (notify u s m ts)
  let ?ts = "(mtx_threads s)[u := M_Idle]"
  have st: "starved (?ts ! t)" using notify(2,5) by (cases "u = t") auto
  from notify(3) show ?case
  proof (cases rule: mutex_notify_cases)
    case 1
    then show ?thesis using st by simp
  next
    case (2 n l)
    then show ?thesis
      using st by (cases "n = t"; cases "n < length ?ts") (auto simp: list_update_beyond not_less)
  qed
qed (auto intro!: starved_upd)

lemma starved_reach:
  "mtx_step\<^sup>*\<^sup>* s s' \<Longrightarrow> mtx_inv s \<Longrightarrow> starved (mtx_threads s ! t) \<Longrightarrow> starved (mtx_threads s' ! t)"
proof (induction rule: rtranclp_induct)
  case (step y z)
  have "mtx_inv y" using step(1,4) by (induction rule: rtranclp_induct) (auto intro: mtx_inv_step)
  then show ?case using step by (blast intro: starved_step)
qed simp

text \<open>A run that locks the mutex exclusively and then asks for a share.\<close>

definition demo_state :: "int \<Rightarrow> mtx_thread list \<Rightarrow> mtx_state" where
  "demo_state v ts = \<lparr>mtx_mutex = \<lparr>is_shared = True, allow_isr = False, shares = v, waiting_list = []\<rparr>, mtx_threads = ts, mtx_now = 0\<rparr>"

lemma demo_steps:
  "mtx_init (demo_state 0 [M_Idle, M_Idle])"
  "mtx_step (demo_state 0 [M_Idle, M_Idle]) (demo_state 0 [M_Loop (L_Acquire TIMESTAMP_US_MAX False), M_Idle])"
  "mtx_step (demo_state 0 [M_Loop (L_Acquire TIMESTAMP_US_MAX False), M_Idle]) (demo_state EXCLUSIVE_MAGIC [M_Excl, M_Idle])"
  "mtx_step (demo_state EXCLUSIVE_MAGIC [M_Excl, M_Idle])
     (demo_state EXCLUSIVE_MAGIC [M_Excl, M_Loop (L_Share TIMESTAMP_US_MAX EXCLUSIVE_MAGIC False)])"
  using acquire[of 0 "demo_state 0 [M_Idle, M_Idle]" False "- 1"]
    attempt[of 0 "demo_state 0 [M_Loop (L_Acquire TIMESTAMP_US_MAX False), M_Idle]"]
    acquire_shared[of 1 "demo_state EXCLUSIVE_MAGIC [M_Excl, M_Idle]" "- 1" False]
  by (simp_all add: demo_state_def mtx_init_def mutex_init_def mtx_upd_def compute_timeout_def await_swap_atomic_int_def TIMESTAMP_US_MAX_def ex_bool_eq)

lemma demo_reach: "mtx_step\<^sup>*\<^sup>* (demo_state 0 [M_Idle, M_Idle]) (demo_state EXCLUSIVE_MAGIC [M_Excl, M_Idle])"
  by (rule converse_rtranclp_into_rtranclp, rule demo_steps(2), rule r_into_rtranclp, rule demo_steps(3))

text \<open>A second thread that then waits for the mutex.\<close>

definition demo_loop :: mtx_loop where
  "demo_loop = L_Acquire TIMESTAMP_US_MAX False"

definition demo_wait :: "nat list \<Rightarrow> mtx_thread \<Rightarrow> mtx_state" where
  "demo_wait ws x = \<lparr>mtx_mutex = \<lparr>is_shared = True, allow_isr = False, shares = EXCLUSIVE_MAGIC, waiting_list = ws\<rparr>, mtx_threads = [M_Excl, x], mtx_now = 0\<rparr>"

lemma demo_wait_steps:
  "mtx_step (demo_state EXCLUSIVE_MAGIC [M_Excl, M_Idle]) (demo_wait [] (M_Loop demo_loop))"
  "mtx_step (demo_wait [] (M_Loop demo_loop)) (demo_wait [] (M_Wait demo_loop))"
  "mtx_step (demo_wait [] (M_Wait demo_loop)) (demo_wait [] (M_Flagged demo_loop))"
  "mtx_step (demo_wait [] (M_Flagged demo_loop)) (demo_wait [] (M_Timed demo_loop))"
  "mtx_step (demo_wait [] (M_Timed demo_loop)) (demo_wait [1] (M_Blocked demo_loop))"
  using acquire[of 1 "demo_state EXCLUSIVE_MAGIC [M_Excl, M_Idle]" False "- 1"] attempt_fail[of 1 "demo_wait [] (M_Loop demo_loop)" demo_loop "mtx_mutex (demo_wait [] (M_Loop demo_loop))" demo_loop]
    wait[of 1 "demo_wait [] (M_Wait demo_loop)"] wait[of 1 "demo_wait [] (M_Flagged demo_loop)"] wait[of 1 "demo_wait [] (M_Timed demo_loop)"]
  by (simp_all add: demo_wait_def demo_state_def demo_loop_def mtx_upd_def compute_timeout_def await_swap_atomic_int_def EXCLUSIVE_MAGIC_def)

lemma demo_wait_reach: "mtx_step\<^sup>*\<^sup>* (demo_state EXCLUSIVE_MAGIC [M_Excl, M_Idle]) (demo_wait [1] (M_Blocked demo_loop))"
  using demo_wait_steps by (meson converse_rtranclp_into_rtranclp rtranclp.rtrancl_refl)

section \<open>Properties\<close>

text \<open>
  C6: mutual exclusion of the mutex under every interleaving of its atomic accesses, waits, timer
  interrupts and notifications: from the exchange that locks it exclusively to the one that
  releases it, no other thread holds it in either mode.
\<close>

theorem mutex_mutual_exclusion:
  assumes "mtx_init s" and "mtx_step\<^sup>*\<^sup>* s s'" and "mtx_excl s' t"
  shows "(\<forall>u. mtx_excl s' u \<longrightarrow> u = t) \<and> (\<forall>u. \<not> mtx_shared s' u)"
  using assms by (rule mtx.mutual_exclusion)

theorem mutex_mutual_exclusion_witness:
  "\<exists>s s'. mtx_init s \<and> mtx_step\<^sup>*\<^sup>* s s' \<and> mtx_excl s' 0 \<and> \<not> mtx_excl s' 1"
  using mutex_mutual_exclusion[OF demo_steps(1) demo_reach, of 0] demo_steps(1) demo_reach
  by (intro exI conjI) (auto simp: mtx_excl_def demo_state_def)

text \<open>
  C26: the waiting list never holds a thread twice and holds exactly the threads between their append
  to it and their removal by a notification or a timer, under every interleaving of the accesses of waiting threads
  with timers and notifications, as long as no timer removes a thread that has not appended itself yet, which has
  no result; the counter is the number of shares, or the magic value while the mutex is locked exclusively.
\<close>

theorem mutex_bookkeeping:
  assumes "mtx_init s" and "mtx_step\<^sup>*\<^sup>* s s'"
  shows "distinct (waiting_list (mtx_mutex s')) \<and>
    (\<forall>t. t \<in> set (waiting_list (mtx_mutex s')) \<longleftrightarrow> t < length (mtx_threads s') \<and> is_listed (mtx_threads s' ! t)) \<and>
    shares (mtx_mutex s') = (if \<exists>t. mtx_excl s' t then EXCLUSIVE_MAGIC else int (sharers (mtx_threads s')))"
proof -
  have inv: "mtx_inv s'" using mtx.reachable_inv assms by blast
  have "excls (mtx_threads s') = 0 \<longleftrightarrow> \<not> (\<exists>t. mtx_excl s' t)"
    by (simp add: mtx_excl_def filter_empty_conv all_set_conv_all_nth)
  then show ?thesis using mtx_invD(1,2)[OF inv] by (auto simp: wait_inv_def mtx_word_def)
qed

theorem mutex_bookkeeping_witness:
  "\<exists>s s'. mtx_init s \<and> mtx_step\<^sup>*\<^sup>* s s' \<and> shares (mtx_mutex s') = EXCLUSIVE_MAGIC \<and> 1 \<in> set (waiting_list (mtx_mutex s'))"
proof -
  let ?s = "demo_wait [1] (M_Blocked demo_loop)"
  have r: "mtx_step\<^sup>*\<^sup>* (demo_state 0 [M_Idle, M_Idle]) ?s" using demo_reach demo_wait_reach by (rule rtranclp_trans)
  have "mtx_excl ?s 0" "is_listed (mtx_threads ?s ! 1)" "1 < length (mtx_threads ?s)" by (simp_all add: mtx_excl_def demo_wait_def)
  then have "shares (mtx_mutex ?s) = EXCLUSIVE_MAGIC" "1 \<in> set (waiting_list (mtx_mutex ?s))"
    using mutex_bookkeeping[OF demo_steps(1) r] by auto
  then show ?thesis using demo_steps(1) r by blast
qed

text \<open>
  C29: a request for a share without a timeout that found the mutex locked exclusively never
  returns, whatever happens afterwards: no continuation, not even one that releases the mutex,
  lets that thread hold the share or give up.
\<close>

theorem mutex_share_starves:
  assumes "mtx_init s" and "mtx_step\<^sup>*\<^sup>* s s1"
    and "mtx_threads s1 ! t = M_Loop (L_Share TIMESTAMP_US_MAX EXCLUSIVE_MAGIC isr)" and "mtx_step\<^sup>*\<^sup>* s1 s2"
  shows "\<not> mtx_shared s2 t \<and> mtx_threads s2 ! t \<noteq> M_Idle"
proof -
  have "mtx_inv s1" using mtx.reachable_inv assms(1,2) by blast
  then have "starved (mtx_threads s2 ! t)" using starved_reach[OF assms(4)] assms(3) by simp
  then show ?thesis by (cases "mtx_threads s2 ! t") (auto simp: mtx_shared_def)
qed

theorem mutex_share_starves_witness:
  "mtx_init (demo_state 0 [M_Idle, M_Idle]) \<and>
   \<not> mtx_shared (demo_state EXCLUSIVE_MAGIC [M_Excl, M_Loop (L_Share TIMESTAMP_US_MAX EXCLUSIVE_MAGIC False)]) 1"
  using mutex_share_starves[OF demo_steps(1) rtranclp.rtrancl_into_rtrancl[OF demo_reach demo_steps(4)], of 1 False]
    demo_steps(1) by (auto simp: demo_state_def)

end
