(* ===== verification/Badge_Err.thy ===== *)
theory Badge_Err
  imports Badger_Prelude
begin

text \<open>
  Error values. The numeric codes live in a header of another repository; the names are the ones
  the kernel sources use. An operation reports a pair of a location and a cause.
\<close>

datatype eloc = ELOC_UNKNOWN | ELOC_BLKDEV | ELOC_FILESYSTEM | ELOC_THREADS | ELOC_PROCESS

datatype ecause = ECAUSE_OK | ECAUSE_PARAM | ECAUSE_READONLY | ECAUSE_RANGE | ECAUSE_NOMEM | ECAUSE_NOSPACE
  | ECAUSE_NOTFOUND | ECAUSE_EXISTS | ECAUSE_TOOLONG | ECAUSE_IS_DIR | ECAUSE_IS_FILE | ECAUSE_NOTEMPTY | ECAUSE_INUSE
  | ECAUSE_ILLEGAL | ECAUSE_TIMEOUT | ECAUSE_UNAVAIL | ECAUSE_PERM | ECAUSE_UNSUPPORTED | ECAUSE_UNKNOWN

type_synonym badge_err = "eloc \<times> ecause"

definition badge_err_ok :: badge_err where
  "badge_err_ok = (ELOC_UNKNOWN, ECAUSE_OK)"

definition badge_err_is_ok :: "badge_err \<Rightarrow> bool" where
  "badge_err_is_ok ec \<longleftrightarrow> snd ec = ECAUSE_OK"

lemma badge_err_is_ok_simps [simp]: "badge_err_is_ok badge_err_ok" "badge_err_is_ok (l, c) \<longleftrightarrow> c = ECAUSE_OK"
  by (simp_all add: badge_err_is_ok_def badge_err_ok_def)

end
