(* ===== verification/Block_Device.thy ===== *)
theory Block_Device
  imports Badge_Err Mem_String
begin

text \<open>
  Block devices with a write-back cache, \<^verbatim>\<open>kernel/src/blockdevice/blockdevice.c\<close>, and the RAM
  block device, \<^verbatim>\<open>blkdev_ram.c\<close>. A device is a record; \<open>'d\<close> is the type of the driver's private
  state behind the cookie. The driver's functions, the three uncached \<^verbatim>\<open>raw\<close> operations (which the
  sources declare and call but do not define), the clock readings, the results of
  \<^verbatim>\<open>malloc\<close> and the library's \<^verbatim>\<open>mem_copy\<close> and \<^verbatim>\<open>mem_set\<close> are parameters. A null device is
  \<open>None\<close>; an operation that dereferences a null cache pointer has no result (\<open>None\<close>).
\<close>

section \<open>Definitions\<close>

subsection \<open>Devices\<close>

definition BLKDEV_WRITE_CACHE_TIMEOUT :: int where
  "BLKDEV_WRITE_CACHE_TIMEOUT = 1000000"

definition BLKDEV_READ_CACHE_TIMEOUT :: int where
  "BLKDEV_READ_CACHE_TIMEOUT = 1000000"

record blkdev_flags =
  update_time :: int
  index :: u64
  present :: bool
  erase :: bool
  dirty :: bool

record blkdev_cache =
  block_cache :: "u8 list"
  block_flags :: "blkdev_flags list"
  cache_depth :: nat

record 'd blkdev =
  block_size :: u64
  blocks :: u64
  readonly :: bool
  cache_read :: bool
  cache :: "blkdev_cache option"
  cookie :: 'd

text \<open>The driver: the virtual function table and the uncached operations.\<close>

record 'd blkdev_ops =
  vt_destroy :: "'d blkdev \<Rightarrow> 'd blkdev"
  vt_open :: "'d blkdev \<Rightarrow> badge_err \<times> 'd blkdev"
  vt_close :: "'d blkdev \<Rightarrow> badge_err \<times> 'd blkdev"
  vt_is_erased :: "'d blkdev \<Rightarrow> u64 \<Rightarrow> badge_err \<times> bool"
  vt_erase :: "'d blkdev \<Rightarrow> u64 \<Rightarrow> badge_err \<times> 'd blkdev"
  vt_write :: "'d blkdev \<Rightarrow> u64 \<Rightarrow> u8 list \<Rightarrow> badge_err \<times> 'd blkdev"
  vt_read :: "'d blkdev \<Rightarrow> u64 \<Rightarrow> u8 list \<Rightarrow> badge_err \<times> u8 list"
  vt_write_partial :: "'d blkdev \<Rightarrow> u64 \<Rightarrow> usize \<Rightarrow> u8 list \<Rightarrow> usize \<Rightarrow> badge_err \<times> 'd blkdev"
  vt_read_partial :: "'d blkdev \<Rightarrow> u64 \<Rightarrow> usize \<Rightarrow> u8 list \<Rightarrow> usize \<Rightarrow> badge_err \<times> u8 list"
  write_raw :: "'d blkdev \<Rightarrow> u64 \<Rightarrow> u8 list \<Rightarrow> badge_err \<times> 'd blkdev"
  read_raw :: "'d blkdev \<Rightarrow> u64 \<Rightarrow> u8 list \<Rightarrow> badge_err \<times> u8 list"
  erase_raw :: "'d blkdev \<Rightarrow> u64 \<Rightarrow> badge_err \<times> 'd blkdev"

subsection \<open>The cache\<close>

definition blkdev_is_dirty :: "blkdev_flags \<Rightarrow> bool" where
  "blkdev_is_dirty flags \<longleftrightarrow> present flags \<and> (erase flags \<or> dirty flags)"

definition set_flags :: "nat \<Rightarrow> blkdev_flags \<Rightarrow> blkdev_cache \<Rightarrow> 'd blkdev \<Rightarrow> 'd blkdev" where
  "set_flags i f c dev = dev\<lparr>cache := Some (c\<lparr>block_flags := (block_flags c)[i := f]\<rparr>)\<rparr>"

text \<open>The bytes of entry \<open>i\<close>: \<^verbatim>\<open>cache + i * dev->block_size\<close>.\<close>

definition entry_bytes :: "'d blkdev \<Rightarrow> blkdev_cache \<Rightarrow> nat \<Rightarrow> u8 list" where
  "entry_bytes dev c i = take (unat (block_size dev)) (drop (i * unat (block_size dev)) (block_cache c))"

text \<open>\<open>ec\<close> is what the error variable holds at the call; a flush that does nothing leaves it.\<close>

definition blkdev_flush_cache :: "'d blkdev_ops \<Rightarrow> int \<Rightarrow> badge_err \<Rightarrow> 'd blkdev \<Rightarrow> nat \<Rightarrow> (badge_err \<times> 'd blkdev) option" where
  "blkdev_flush_cache ops now ec dev i =
     (case cache dev of None \<Rightarrow> None | Some c \<Rightarrow>
      let f = block_flags c ! i;
          was_dirty = dirty f; was_erase = erase f;
          f = f\<lparr>dirty := False, erase := False\<rparr>
      in Some (
        if was_dirty then
          let f = f\<lparr>present := cache_read dev\<rparr>;
              f = (if cache_read dev then f\<lparr>update_time := now\<rparr> else f)
          in write_raw ops (set_flags i f c dev) (index f) (entry_bytes dev c i)
        else if was_erase then
          let f = f\<lparr>present := False\<rparr>
          in erase_raw ops (set_flags i f c dev) (index f)
        else (ec, set_flags i f c dev)))"

fun alloc_cache_loop :: "blkdev_flags list \<Rightarrow> u64 \<Rightarrow> nat \<Rightarrow> int \<Rightarrow> nat option \<Rightarrow> nat option" where
  "alloc_cache_loop [] block i oldest_read_time oldest_read_index = oldest_read_index"
| "alloc_cache_loop (f # fs) block i oldest_read_time oldest_read_index =
     (if present f \<and> index f = block then Some i
      else if \<not> present f then alloc_cache_loop fs block (i + 1) 0 (Some i)
      else if \<not> blkdev_is_dirty f \<and> oldest_read_time > update_time f then
        alloc_cache_loop fs block (i + 1) (update_time f) (Some i)
      else alloc_cache_loop fs block (i + 1) oldest_read_time oldest_read_index)"

definition blkdev_alloc_cache :: "int \<Rightarrow> 'd blkdev \<Rightarrow> u64 \<Rightarrow> nat option" where
  "blkdev_alloc_cache now dev block =
     (case cache dev of None \<Rightarrow> None
      | Some c \<Rightarrow> alloc_cache_loop (take (cache_depth c) (block_flags c)) block 0 (now - BLKDEV_READ_CACHE_TIMEOUT) None)"

fun find_cache_loop :: "blkdev_flags list \<Rightarrow> u64 \<Rightarrow> nat \<Rightarrow> nat option" where
  "find_cache_loop [] block i = None"
| "find_cache_loop (f # fs) block i =
     (if present f \<and> index f = block then Some i else find_cache_loop fs block (i + 1))"

definition blkdev_find_cache :: "'d blkdev \<Rightarrow> u64 \<Rightarrow> nat option" where
  "blkdev_find_cache dev block =
     (case cache dev of None \<Rightarrow> None | Some c \<Rightarrow> find_cache_loop (take (cache_depth c) (block_flags c)) block 0)"

subsection \<open>Fallbacks for drivers without partial access\<close>

text \<open>\<open>tmp\<close> is the result of \<^verbatim>\<open>malloc\<close>: \<open>None\<close> or an uninitialised buffer.\<close>

definition blkdev_write_partial_fallback ::
  "'d blkdev_ops \<Rightarrow> mem_copy_fn \<Rightarrow> u8 list option \<Rightarrow> 'd blkdev \<Rightarrow> u64 \<Rightarrow> usize \<Rightarrow> u8 list \<Rightarrow> usize \<Rightarrow> badge_err \<times> 'd blkdev" where
  "blkdev_write_partial_fallback ops mem_copy tmp dev block subblock_offset writebuf writebuf_len =
     (case tmp of None \<Rightarrow> ((ELOC_BLKDEV, ECAUSE_NOMEM), dev)
      | Some tmp \<Rightarrow>
          let (ec, tmp) = read_raw ops dev block tmp
          in if \<not> badge_err_is_ok ec then (ec, dev)
             else write_raw ops dev block (mem_copy tmp (unat subblock_offset) writebuf 0 (unat writebuf_len)))"

definition blkdev_read_partial_fallback ::
  "'d blkdev_ops \<Rightarrow> mem_copy_fn \<Rightarrow> u8 list option \<Rightarrow> 'd blkdev \<Rightarrow> u64 \<Rightarrow> usize \<Rightarrow> u8 list \<Rightarrow> usize \<Rightarrow> badge_err \<times> u8 list" where
  "blkdev_read_partial_fallback ops mem_copy tmp dev block subblock_offset readbuf readbuf_len =
     (case tmp of None \<Rightarrow> ((ELOC_BLKDEV, ECAUSE_NOMEM), readbuf)
      | Some tmp \<Rightarrow>
          let (ec, tmp) = read_raw ops dev block tmp
          in if \<not> badge_err_is_ok ec then (ec, readbuf)
             else (ec, mem_copy readbuf 0 tmp (unat subblock_offset) (unat readbuf_len)))"

subsection \<open>Operations\<close>

definition blkdev_open :: "'d blkdev_ops \<Rightarrow> 'd blkdev option \<Rightarrow> badge_err \<times> 'd blkdev option" where
  "blkdev_open ops dev =
     (case dev of None \<Rightarrow> ((ELOC_BLKDEV, ECAUSE_PARAM), None) | Some dev \<Rightarrow> map_prod id Some (vt_open ops dev))"

definition blkdev_close :: "'d blkdev_ops \<Rightarrow> 'd blkdev option \<Rightarrow> badge_err \<times> 'd blkdev option" where
  "blkdev_close ops dev =
     (case dev of None \<Rightarrow> ((ELOC_BLKDEV, ECAUSE_PARAM), None) | Some dev \<Rightarrow> map_prod id Some (vt_close ops dev))"

definition blkdev_get_size :: "'d blkdev \<Rightarrow> u64" where
  "blkdev_get_size dev = blocks dev"

definition blkdev_get_block_size :: "'d blkdev \<Rightarrow> u64" where
  "blkdev_get_block_size dev = block_size dev"

definition blkdev_is_readonly :: "'d blkdev \<Rightarrow> bool" where
  "blkdev_is_readonly dev = readonly dev"

definition blkdev_is_erased :: "'d blkdev_ops \<Rightarrow> 'd blkdev option \<Rightarrow> u64 \<Rightarrow> badge_err \<times> bool" where
  "blkdev_is_erased ops dev block =
     (case dev of None \<Rightarrow> ((ELOC_BLKDEV, ECAUSE_PARAM), True) | Some dev \<Rightarrow>
      if readonly dev then ((ELOC_BLKDEV, ECAUSE_READONLY), True)
      else if block \<ge> blocks dev then ((ELOC_BLKDEV, ECAUSE_RANGE), True)
      else case blkdev_find_cache dev block of
             Some i \<Rightarrow> (badge_err_ok, erase (block_flags (the (cache dev)) ! i))
           | None \<Rightarrow> vt_is_erased ops dev block)"

text \<open>
  \<open>t0\<close> and \<open>t1\<close> are the clock readings of the search and of the entry. The first access to
  \<^verbatim>\<open>dev->cache\<close> precedes its null check.
\<close>

definition blkdev_erase :: "'d blkdev_ops \<Rightarrow> int \<Rightarrow> int \<Rightarrow> 'd blkdev option \<Rightarrow> u64 \<Rightarrow> (badge_err \<times> 'd blkdev option) option" where
  "blkdev_erase ops t0 t1 dev block =
     (case dev of None \<Rightarrow> Some ((ELOC_BLKDEV, ECAUSE_PARAM), None) | Some dev \<Rightarrow>
      if readonly dev then Some ((ELOC_BLKDEV, ECAUSE_READONLY), Some dev)
      else if block \<ge> blocks dev then Some ((ELOC_BLKDEV, ECAUSE_RANGE), Some dev)
      else case cache dev of None \<Rightarrow> None | Some c \<Rightarrow>
        (case blkdev_alloc_cache t0 dev block of
           Some i \<Rightarrow>
             let f = block_flags c ! i;
                 f = (if present f then f\<lparr>erase := True, dirty := False\<rparr>
                      else \<lparr>update_time = t1, index = block, present = True, erase = False, dirty = True\<rparr>)
             in Some (badge_err_ok, Some (set_flags i f c dev))
         | None \<Rightarrow> Some (map_prod id Some (vt_erase ops dev block))))"

text \<open>The flags of an entry that is written to.\<close>

definition written_flags :: "int \<Rightarrow> u64 \<Rightarrow> blkdev_flags \<Rightarrow> blkdev_flags" where
  "written_flags t1 block f =
     (if present f then f\<lparr>erase := False, dirty := True\<rparr>
      else \<lparr>update_time = t1, index = block, present = True, erase = False, dirty = True\<rparr>)"

definition blkdev_write :: "'d blkdev_ops \<Rightarrow> mem_copy_fn \<Rightarrow> int \<Rightarrow> int \<Rightarrow> 'd blkdev option \<Rightarrow> u64 \<Rightarrow> u8 list \<Rightarrow>
    (badge_err \<times> 'd blkdev option) option" where
  "blkdev_write ops mem_copy t0 t1 dev block writebuf =
     (case dev of None \<Rightarrow> Some ((ELOC_BLKDEV, ECAUSE_PARAM), None) | Some dev \<Rightarrow>
      if readonly dev then Some ((ELOC_BLKDEV, ECAUSE_READONLY), Some dev)
      else if block \<ge> blocks dev then Some ((ELOC_BLKDEV, ECAUSE_RANGE), Some dev)
      else case cache dev of None \<Rightarrow> None | Some c \<Rightarrow>
        (case blkdev_alloc_cache t0 dev block of
           Some i \<Rightarrow>
             let c' = c\<lparr>block_cache := mem_copy (block_cache c) (i * unat (block_size dev)) writebuf 0 (unat (block_size dev))\<rparr>
             in Some (badge_err_ok, Some (set_flags i (written_flags t1 block (block_flags c ! i)) c' dev))
         | None \<Rightarrow> Some (map_prod id Some (vt_write ops dev block writebuf))))"

text \<open>Reads also return the contents of the caller's buffer.\<close>

definition read_flags :: "int \<Rightarrow> u64 \<Rightarrow> blkdev_flags" where
  "read_flags t1 block = \<lparr>update_time = t1, index = block, present = True, erase = False, dirty = False\<rparr>"

definition blkdev_read :: "'d blkdev_ops \<Rightarrow> mem_copy_fn \<Rightarrow> (u8 list \<Rightarrow> u8 \<Rightarrow> nat \<Rightarrow> u8 list) \<Rightarrow> int \<Rightarrow> int \<Rightarrow> 'd blkdev option \<Rightarrow>
    u64 \<Rightarrow> u8 list \<Rightarrow> (badge_err \<times> 'd blkdev option \<times> u8 list) option" where
  "blkdev_read ops mem_copy mem_set t0 t1 dev block readbuf =
     (case dev of None \<Rightarrow> Some ((ELOC_BLKDEV, ECAUSE_PARAM), None, readbuf) | Some dev \<Rightarrow>
      if block \<ge> blocks dev then Some ((ELOC_BLKDEV, ECAUSE_RANGE), Some dev, readbuf)
      else case cache dev of None \<Rightarrow> None | Some c \<Rightarrow>
        let bs = unat (block_size dev) in
        (case blkdev_alloc_cache t0 dev block of
           Some i \<Rightarrow>
             if present (block_flags c ! i) then
               if erase (block_flags c ! i) then
                 Some (badge_err_ok, Some dev, mem_set readbuf 255 bs)
               else
                 let f = block_flags c ! i;
                     f = (if \<not> dirty f then f\<lparr>update_time := t1\<rparr> else f)
                 in Some (badge_err_ok, Some (set_flags i f c dev), mem_copy readbuf 0 (block_cache c) (i * bs) bs)
             else if cache_read dev then
               let (ec, bytes) = vt_read ops dev block (entry_bytes dev c i);
                   c' = c\<lparr>block_cache := take (i * bs) (block_cache c) @ bytes @ drop (i * bs + bs) (block_cache c)\<rparr>;
                   dev' = set_flags i (read_flags t1 block) c' dev
               in if \<not> badge_err_is_ok ec then Some (ec, Some dev', readbuf)
                  else Some (ec, Some dev', mem_copy readbuf 0 (block_cache c') (i * bs) bs)
             else let (ec, buf) = vt_read ops dev block readbuf in Some (ec, Some dev, buf)
         | None \<Rightarrow> let (ec, buf) = vt_read ops dev block readbuf in Some (ec, Some dev, buf)))"

definition subblock_range_error :: "'d blkdev \<Rightarrow> usize \<Rightarrow> usize \<Rightarrow> bool" where
  "subblock_range_error dev subblock_offset len \<longleftrightarrow>
     subblock_offset \<ge> block_size dev \<or> len > block_size dev \<or> subblock_offset + len > block_size dev"

definition blkdev_write_partial :: "'d blkdev_ops \<Rightarrow> mem_copy_fn \<Rightarrow> int \<Rightarrow> int \<Rightarrow> 'd blkdev option \<Rightarrow> u64 \<Rightarrow> usize \<Rightarrow>
    u8 list \<Rightarrow> usize \<Rightarrow> (badge_err \<times> 'd blkdev option) option" where
  "blkdev_write_partial ops mem_copy t0 t1 dev block subblock_offset writebuf writebuf_len =
     (case dev of None \<Rightarrow> Some ((ELOC_BLKDEV, ECAUSE_PARAM), None) | Some dev \<Rightarrow>
      if readonly dev then Some ((ELOC_BLKDEV, ECAUSE_READONLY), Some dev)
      else if block \<ge> blocks dev then Some ((ELOC_BLKDEV, ECAUSE_RANGE), Some dev)
      else if subblock_range_error dev subblock_offset writebuf_len then Some ((ELOC_BLKDEV, ECAUSE_RANGE), Some dev)
      else if writebuf_len = 0 then Some (badge_err_ok, Some dev)
      else case cache dev of None \<Rightarrow> None | Some c \<Rightarrow>
        (case blkdev_alloc_cache t0 dev block of
           Some i \<Rightarrow>
             let c' = c\<lparr>block_cache := mem_copy (block_cache c)
                   (i * unat (block_size dev) + unat subblock_offset) writebuf 0 (unat writebuf_len)\<rparr>
             in Some (badge_err_ok, Some (set_flags i (written_flags t1 block (block_flags c ! i)) c' dev))
         | None \<Rightarrow> Some (map_prod id Some (vt_write_partial ops dev block subblock_offset writebuf writebuf_len))))"

definition blkdev_read_partial :: "'d blkdev_ops \<Rightarrow> mem_copy_fn \<Rightarrow> (u8 list \<Rightarrow> u8 \<Rightarrow> nat \<Rightarrow> u8 list) \<Rightarrow> int \<Rightarrow> int \<Rightarrow>
    'd blkdev option \<Rightarrow> u64 \<Rightarrow> usize \<Rightarrow> u8 list \<Rightarrow> usize \<Rightarrow> (badge_err \<times> 'd blkdev option \<times> u8 list) option" where
  "blkdev_read_partial ops mem_copy mem_set t0 t1 dev block subblock_offset readbuf readbuf_len =
     (case dev of None \<Rightarrow> Some ((ELOC_BLKDEV, ECAUSE_PARAM), None, readbuf) | Some dev \<Rightarrow>
      if block \<ge> blocks dev then Some ((ELOC_BLKDEV, ECAUSE_RANGE), Some dev, readbuf)
      else if subblock_range_error dev subblock_offset readbuf_len then Some ((ELOC_BLKDEV, ECAUSE_RANGE), Some dev, readbuf)
      else if readbuf_len = 0 then Some (badge_err_ok, Some dev, readbuf)
      else case cache dev of None \<Rightarrow> None | Some c \<Rightarrow>
        let bs = unat (block_size dev); off = unat subblock_offset; len = unat readbuf_len in
        (case blkdev_alloc_cache t0 dev block of
           Some i \<Rightarrow>
             if present (block_flags c ! i) then
               if erase (block_flags c ! i) then
                 Some (badge_err_ok, Some dev, mem_set readbuf 255 bs)
               else
                 let f = block_flags c ! i;
                     f = (if \<not> dirty f then f\<lparr>update_time := t1\<rparr> else f)
                 in Some (badge_err_ok, Some (set_flags i f c dev), mem_copy readbuf 0 (block_cache c) (i * bs + off) len)
             else if cache_read dev then
               let (ec, bytes) = vt_read ops dev block (entry_bytes dev c i);
                   c' = c\<lparr>block_cache := take (i * bs) (block_cache c) @ bytes @ drop (i * bs + bs) (block_cache c)\<rparr>;
                   dev' = set_flags i (read_flags t1 block) c' dev
               in if \<not> badge_err_is_ok ec then Some (ec, Some dev', readbuf)
                  else Some (ec, Some dev', mem_copy readbuf 0 (block_cache c') (i * bs + off) len)
             else let (ec, buf) = vt_read_partial ops dev block subblock_offset readbuf readbuf_len in Some (ec, Some dev, buf)
         | None \<Rightarrow> let (ec, buf) = vt_read_partial ops dev block subblock_offset readbuf readbuf_len in Some (ec, Some dev, buf)))"

subsection \<open>Flushing\<close>

text \<open>\<^verbatim>\<open>if (ec) return;\<close> tests the pointer, which is never null there: the loop ends at the first flush.\<close>

fun flush_loop :: "'d blkdev_ops \<Rightarrow> int \<Rightarrow> badge_err \<Rightarrow> 'd blkdev \<Rightarrow> blkdev_flags list \<Rightarrow> nat \<Rightarrow> (badge_err \<times> 'd blkdev) option" where
  "flush_loop ops now ec dev [] i = Some (ec, dev)"
| "flush_loop ops now ec dev (f # fs) i =
     (if present f \<and> (dirty f \<or> erase f) then blkdev_flush_cache ops now ec dev i
      else flush_loop ops now ec dev fs (i + 1))"

definition blkdev_flush :: "'d blkdev_ops \<Rightarrow> int \<Rightarrow> badge_err \<Rightarrow> 'd blkdev option \<Rightarrow> (badge_err \<times> 'd blkdev option) option" where
  "blkdev_flush ops now ec dev =
     (case dev of None \<Rightarrow> Some ((ELOC_BLKDEV, ECAUSE_PARAM), None) | Some dev \<Rightarrow>
      if readonly dev then Some ((ELOC_BLKDEV, ECAUSE_READONLY), Some dev)
      else case cache dev of None \<Rightarrow> None
        | Some c \<Rightarrow> map_option (map_prod id Some) (flush_loop ops now ec dev (take (cache_depth c) (block_flags c)) 0))"

text \<open>
  The housekeeping loop over the entries \<open>is\<close>; every step looks at the flags as they are then, and
  \<open>clock i\<close> is the clock reading of the flush of entry \<open>i\<close>.
\<close>

fun housekeeping_loop :: "'d blkdev_ops \<Rightarrow> (nat \<Rightarrow> int) \<Rightarrow> int \<Rightarrow> badge_err \<Rightarrow> 'd blkdev \<Rightarrow> nat list \<Rightarrow> (badge_err \<times> 'd blkdev) option" where
  "housekeeping_loop ops clock timeout ec dev [] = Some (ec, dev)"
| "housekeeping_loop ops clock timeout ec dev (i # is) =
     (case cache dev of None \<Rightarrow> None | Some c \<Rightarrow>
      let f = block_flags c ! i in
      if blkdev_is_dirty f \<and> update_time f < timeout then
        (case blkdev_flush_cache ops (clock i) ec dev i of
           None \<Rightarrow> None
         | Some (ec, dev) \<Rightarrow> if \<not> badge_err_is_ok ec then Some (ec, dev) else housekeeping_loop ops clock timeout ec dev is)
      else housekeeping_loop ops clock timeout ec dev is)"

definition blkdev_housekeeping :: "'d blkdev_ops \<Rightarrow> int \<Rightarrow> (nat \<Rightarrow> int) \<Rightarrow> badge_err \<Rightarrow> 'd blkdev option \<Rightarrow> (badge_err \<times> 'd blkdev option) option" where
  "blkdev_housekeeping ops now clock ec dev =
     (case dev of None \<Rightarrow> Some ((ELOC_BLKDEV, ECAUSE_PARAM), None) | Some dev \<Rightarrow>
      let timeout = now - BLKDEV_WRITE_CACHE_TIMEOUT in
      case cache dev of None \<Rightarrow> None
      | Some c \<Rightarrow> map_option (map_prod id Some) (housekeeping_loop ops clock timeout ec dev [0..<cache_depth c]))"

subsection \<open>Creating and deleting caches\<close>

definition zero_flags :: blkdev_flags where
  "zero_flags = \<lparr>update_time = 0, index = 0, present = False, erase = False, dirty = False\<rparr>"

text \<open>\<open>info\<close>, \<open>bytes\<close> and \<open>flags\<close> are the results of the three \<^verbatim>\<open>malloc\<close> calls.\<close>

definition blkdev_create_cache :: "'d blkdev_ops \<Rightarrow> int \<Rightarrow> badge_err \<Rightarrow> bool \<Rightarrow> u8 list option \<Rightarrow> bool \<Rightarrow> 'd blkdev option \<Rightarrow> nat \<Rightarrow> bool \<Rightarrow>
    (badge_err \<times> 'd blkdev option) option" where
  "blkdev_create_cache ops now ec info bytes flags dev depth cache_reads =
     (case dev of None \<Rightarrow> Some ((ELOC_BLKDEV, ECAUSE_PARAM), None) | Some dev \<Rightarrow>
      if readonly dev \<and> \<not> cache_read dev then Some ((ELOC_BLKDEV, ECAUSE_READONLY), Some dev)
      else
        case (if cache dev \<noteq> None then blkdev_flush ops now ec (Some dev) else Some (badge_err_ok, Some dev)) of
          None \<Rightarrow> None
        | Some (ec, None) \<Rightarrow> Some (ec, None)
        | Some (ec, Some dev) \<Rightarrow>
            if \<not> badge_err_is_ok ec then Some (ec, Some dev)
            else if \<not> info then Some ((ELOC_BLKDEV, ECAUSE_NOMEM), Some (dev\<lparr>cache := None\<rparr>))
            else let dev = dev\<lparr>cache_read := cache_reads\<rparr> in
              (case bytes of None \<Rightarrow> Some ((ELOC_BLKDEV, ECAUSE_NOMEM), Some (dev\<lparr>cache := None\<rparr>))
               | Some bytes \<Rightarrow>
                   if \<not> flags then Some ((ELOC_BLKDEV, ECAUSE_NOMEM), Some (dev\<lparr>cache := None\<rparr>))
                   else Some (badge_err_ok, Some (dev\<lparr>cache := Some
                     \<lparr>block_cache = bytes, block_flags = replicate depth zero_flags, cache_depth = depth\<rparr>\<rparr>))))"

definition blkdev_delete_cache :: "'d blkdev_ops \<Rightarrow> int \<Rightarrow> badge_err \<Rightarrow> 'd blkdev option \<Rightarrow> (badge_err \<times> 'd blkdev option) option" where
  "blkdev_delete_cache ops now ec dev =
     (case dev of None \<Rightarrow> Some ((ELOC_BLKDEV, ECAUSE_PARAM), None) | Some dev \<Rightarrow>
      if cache dev = None then Some (badge_err_ok, Some dev)
      else case blkdev_flush ops now ec (Some dev) of
             None \<Rightarrow> None
           | Some (ec, None) \<Rightarrow> Some (ec, None)
           | Some (ec, Some dev) \<Rightarrow>
               if \<not> badge_err_is_ok ec then Some (ec, Some dev)
               else Some (badge_err_ok, Some (dev\<lparr>cache := None\<rparr>)))"

subsection \<open>Drivers\<close>

definition blkdev_impl_create :: "bool \<Rightarrow> 'd \<Rightarrow> badge_err \<times> 'd blkdev option" where
  "blkdev_impl_create alloc_ok d =
     (if \<not> alloc_ok then ((ELOC_BLKDEV, ECAUSE_NOMEM), None)
      else (badge_err_ok, Some \<lparr>block_size = 0, blocks = 0, readonly = False, cache_read = False, cache = None, cookie = d\<rparr>))"

definition blkdev_impl_get_cookie :: "'d blkdev \<Rightarrow> 'd" where
  "blkdev_impl_get_cookie dev = cookie dev"

definition blkdev_impl_set_readonly :: "'d blkdev \<Rightarrow> bool \<Rightarrow> 'd blkdev" where
  "blkdev_impl_set_readonly dev ro = dev\<lparr>readonly := ro\<rparr>"

definition blkdev_impl_set_size :: "'d blkdev \<Rightarrow> u64 \<Rightarrow> 'd blkdev" where
  "blkdev_impl_set_size dev n = dev\<lparr>blocks := n\<rparr>"

definition blkdev_impl_set_block_size :: "'d blkdev \<Rightarrow> u64 \<Rightarrow> 'd blkdev" where
  "blkdev_impl_set_block_size dev n = dev\<lparr>block_size := n\<rparr>"

text \<open>The RAM device: the cookie is the memory area.\<close>

definition blkdev_ram_destroy :: "u8 list blkdev \<Rightarrow> u8 list blkdev" where
  "blkdev_ram_destroy dev = dev"

definition blkdev_ram_is_erased :: "u8 list blkdev \<Rightarrow> u64 \<Rightarrow> badge_err \<times> bool" where
  "blkdev_ram_is_erased dev block = (badge_err_ok, True)"

definition blkdev_ram_nop :: "u8 list blkdev \<Rightarrow> badge_err \<times> u8 list blkdev" where
  "blkdev_ram_nop dev = (badge_err_ok, dev)"

definition blkdev_ram_erase :: "u8 list blkdev \<Rightarrow> u64 \<Rightarrow> badge_err \<times> u8 list blkdev" where
  "blkdev_ram_erase dev block = (badge_err_ok, dev)"

definition blkdev_ram_write :: "mem_copy_fn \<Rightarrow> u8 list blkdev \<Rightarrow> u64 \<Rightarrow> u8 list \<Rightarrow> badge_err \<times> u8 list blkdev" where
  "blkdev_ram_write mem_copy dev block writebuf =
     (badge_err_ok, dev\<lparr>cookie := mem_copy (blkdev_impl_get_cookie dev)
        (unat (block * blkdev_get_block_size dev)) writebuf 0 (unat (blkdev_get_block_size dev))\<rparr>)"

definition blkdev_ram_read :: "mem_copy_fn \<Rightarrow> u8 list blkdev \<Rightarrow> u64 \<Rightarrow> u8 list \<Rightarrow> badge_err \<times> u8 list" where
  "blkdev_ram_read mem_copy dev block readbuf =
     (badge_err_ok, mem_copy readbuf 0 (blkdev_impl_get_cookie dev)
        (unat (block * blkdev_get_block_size dev)) (unat (blkdev_get_block_size dev)))"

definition blkdev_ram_write_partial ::
  "mem_copy_fn \<Rightarrow> u8 list blkdev \<Rightarrow> u64 \<Rightarrow> usize \<Rightarrow> u8 list \<Rightarrow> usize \<Rightarrow> badge_err \<times> u8 list blkdev" where
  "blkdev_ram_write_partial mem_copy dev block subblock_offset writebuf writebuf_len =
     (badge_err_ok, dev\<lparr>cookie := mem_copy (blkdev_impl_get_cookie dev)
        (unat (block * blkdev_get_block_size dev + subblock_offset)) writebuf 0 (unat writebuf_len)\<rparr>)"

definition blkdev_ram_read_partial ::
  "mem_copy_fn \<Rightarrow> u8 list blkdev \<Rightarrow> u64 \<Rightarrow> usize \<Rightarrow> u8 list \<Rightarrow> usize \<Rightarrow> badge_err \<times> u8 list" where
  "blkdev_ram_read_partial mem_copy dev block subblock_offset readbuf readbuf_len =
     (badge_err_ok, mem_copy readbuf 0 (blkdev_impl_get_cookie dev)
        (unat (block * blkdev_get_block_size dev + subblock_offset)) (unat readbuf_len))"

text \<open>The table of the RAM device; the uncached operations are not part of it and stay parameters.\<close>

definition blkdev_ram_vtable :: "mem_copy_fn \<Rightarrow> (u8 list blkdev \<Rightarrow> u64 \<Rightarrow> u8 list \<Rightarrow> badge_err \<times> u8 list blkdev) \<Rightarrow>
    (u8 list blkdev \<Rightarrow> u64 \<Rightarrow> u8 list \<Rightarrow> badge_err \<times> u8 list) \<Rightarrow> (u8 list blkdev \<Rightarrow> u64 \<Rightarrow> badge_err \<times> u8 list blkdev) \<Rightarrow> u8 list blkdev_ops" where
  "blkdev_ram_vtable mem_copy raw_write raw_read raw_erase =
     \<lparr>vt_destroy = blkdev_ram_destroy, vt_open = blkdev_ram_nop, vt_close = blkdev_ram_nop, vt_is_erased = blkdev_ram_is_erased,
      vt_erase = blkdev_ram_erase, vt_write = blkdev_ram_write mem_copy, vt_read = blkdev_ram_read mem_copy,
      vt_write_partial = blkdev_ram_write_partial mem_copy, vt_read_partial = blkdev_ram_read_partial mem_copy,
      write_raw = raw_write, read_raw = raw_read, erase_raw = raw_erase\<rparr>"

definition blkdev_ram_create :: "bool \<Rightarrow> u8 list \<Rightarrow> usize \<Rightarrow> usize \<Rightarrow> bool \<Rightarrow> badge_err \<times> u8 list blkdev option" where
  "blkdev_ram_create alloc_ok memory block_count bsize ro =
     (case blkdev_impl_create alloc_ok memory of
        (ec, None) \<Rightarrow> (ec, None)
      | (ec, Some handle) \<Rightarrow>
          let handle = blkdev_impl_set_block_size handle bsize;
              handle = blkdev_impl_set_size handle block_count;
              handle = blkdev_impl_set_readonly handle ro
          in (ec, Some handle))"

section \<open>Blocks in a byte array\<close>

lemma take_drop_block_same:
  "length buf = bs \<Longrightarrow> i * bs \<le> length xs \<Longrightarrow> take bs (drop (i * bs) (take (i * bs) xs @ buf @ ys)) = buf"
  by simp

lemma block_get_put:
  assumes "length buf = bs" and "length xs = n * bs" and "i < n" and "j < n"
  shows "take bs (drop (j * bs) (take (i * bs) xs @ buf @ drop (i * bs + bs) xs)) =
    (if j = i then buf else take bs (drop (j * bs) xs))"
proof -
  have le: "Suc i * bs \<le> length xs" using assms(2,3) by (simp only: mult_le_mono1 Suc_leI)
  then have li: "i * bs \<le> length xs" by simp
  consider "j = i" | "j < i" | "i < j" by linarith
  then show ?thesis
  proof cases
    case 1
    then show ?thesis using li assms(1) by simp
  next
    case 2
    then have "Suc j * bs \<le> i * bs" by (intro mult_le_mono1) simp
    then have "j * bs + bs \<le> i * bs" by simp
    then have le': "j * bs \<le> i * bs" "bs \<le> i * bs - j * bs" by linarith+
    then have "take bs (drop (j * bs) (take (i * bs) xs @ buf @ drop (i * bs + bs) xs)) = take bs (drop (j * bs) (take (i * bs) xs))"
      using li by simp
    also have "\<dots> = take bs (drop (j * bs) xs)" using le' by (simp add: drop_take min_absorb1)
    finally show ?thesis using 2 by simp
  next
    case 3
    then obtain d where j: "j = i + Suc d" using less_iff_Suc_add by auto
    have jb: "j * bs = i * bs + (bs + d * bs)" unfolding j by (simp add: add_mult_distrib)
    have "drop (j * bs) (take (i * bs) xs @ buf @ drop (i * bs + bs) xs) = drop (j * bs) xs"
      unfolding jb using li assms(1) by (simp add: ac_simps)
    then show ?thesis using 3 by simp
  qed
qed

lemma length_block_put:
  "length buf = bs \<Longrightarrow> length xs = n * bs \<Longrightarrow> i < n \<Longrightarrow>
    length (take (i * bs) xs @ buf @ drop (i * bs + bs) xs) = length xs"
proof -
  assume "length buf = bs" "length xs = n * bs" "i < n"
  moreover from this have "Suc i * bs \<le> n * bs" by (intro mult_le_mono1) simp
  ultimately show ?thesis by simp
qed

section \<open>Searching the cache\<close>

definition holds_block :: "u64 \<Rightarrow> blkdev_flags \<Rightarrow> bool" where
  "holds_block block f \<longleftrightarrow> present f \<and> index f = block"

lemma find_cache_loop_Some:
  "find_cache_loop fs block k = Some i \<Longrightarrow> \<exists>j < length fs. i = k + j \<and> holds_block block (fs ! j)"
proof (induction fs arbitrary: k)
  case (Cons f fs)
  show ?case
  proof (cases "present f \<and> index f = block")
    case True
    then show ?thesis using Cons.prems by (auto simp: holds_block_def)
  next
    case False
    then have "find_cache_loop fs block (k + 1) = Some i" using Cons.prems by auto
    from Cons.IH[OF this] obtain j where "j < length fs" "i = k + 1 + j" "holds_block block (fs ! j)" by blast
    then show ?thesis by (intro exI[of _ "Suc j"]) simp
  qed
qed simp

lemma find_cache_loop_None: "find_cache_loop fs block k = None \<longleftrightarrow> (\<forall>f \<in> set fs. \<not> holds_block block f)"
  by (induction fs arbitrary: k) (auto simp: holds_block_def)

lemma alloc_cache_loop_hit: "find_cache_loop fs block k = Some i \<Longrightarrow> alloc_cache_loop fs block k t r = Some i"
  by (induction fs arbitrary: k t r) (auto split: if_splits)

text \<open>No clean entry is old enough to be picked for replacement.\<close>

definition no_aged :: "int \<Rightarrow> blkdev_flags list \<Rightarrow> bool" where
  "no_aged t fs \<longleftrightarrow> (\<forall>f \<in> set fs. present f \<and> \<not> blkdev_is_dirty f \<longrightarrow> 0 \<le> update_time f \<and> t \<le> update_time f)"

lemma alloc_cache_loop_miss:
  "find_cache_loop fs block k = None \<Longrightarrow> no_aged t fs \<Longrightarrow> alloc_cache_loop fs block k t r = Some i \<Longrightarrow>
    r = Some i \<or> (\<exists>j < length fs. i = k + j \<and> \<not> present (fs ! j))"
proof (induction fs arbitrary: k t r)
  case (Cons f fs)
  have nh: "\<not> (present f \<and> index f = block)" "find_cache_loop fs block (k + 1) = None"
    using Cons.prems(1) by (auto split: if_splits)
  have na: "no_aged t fs" "no_aged 0 fs" using Cons.prems(2) by (auto simp: no_aged_def)
  have shift: "\<exists>j < length (f # fs). i = k + j \<and> \<not> present ((f # fs) ! j)"
    if "\<exists>j < length fs. i = k + 1 + j \<and> \<not> present (fs ! j)"
  proof -
    from that obtain j where "j < length fs" "i = k + 1 + j" "\<not> present (fs ! j)" by blast
    then show ?thesis by (intro exI[of _ "Suc j"]) simp
  qed
  show ?case
  proof (cases "present f")
    case True
    then have "\<not> (\<not> blkdev_is_dirty f \<and> t > update_time f)" using Cons.prems(2) by (auto simp: no_aged_def)
    then have "alloc_cache_loop fs block (k + 1) t r = Some i" using Cons.prems(3) nh True by auto
    then show ?thesis using Cons.IH[OF nh(2) na(1)] shift by blast
  next
    case False
    then have "alloc_cache_loop fs block (k + 1) 0 (Some k) = Some i" using Cons.prems(3) by auto
    then have "Some k = Some i \<or> (\<exists>j < length fs. i = k + 1 + j \<and> \<not> present (fs ! j))"
      by (rule Cons.IH[OF nh(2) na(2)])
    then show ?thesis
    proof
      assume "Some k = Some i"
      then show ?thesis using False by (intro disjI2 exI[of _ 0]) simp
    qed (use shift in blast)
  qed
qed simp

section \<open>The driver's contract\<close>

text \<open>
  What the cache relies on: reading a block gives its contents, writing replaces them, and neither
  touches the rest of the device. \<open>dev_ok\<close> is what the driver needs of the device.
\<close>

locale blkdev_driver =
  fixes ops :: "'d blkdev_ops" and content :: "'d blkdev \<Rightarrow> u64 \<Rightarrow> u8 list" and dev_ok :: "'d blkdev \<Rightarrow> bool"
  assumes content_cache: "content (dev\<lparr>cache := c\<rparr>) = content dev"
    and ok_cache: "dev_ok (dev\<lparr>cache := c\<rparr>) = dev_ok dev"
    and length_content: "dev_ok dev \<Longrightarrow> b < blocks dev \<Longrightarrow> length (content dev b) = unat (block_size dev)"
    and read_ok: "dev_ok dev \<Longrightarrow> b < blocks dev \<Longrightarrow> length buf = unat (block_size dev) \<Longrightarrow>
      vt_read ops dev b buf = (badge_err_ok, content dev b)"
    and write_ok: "dev_ok dev \<Longrightarrow> b < blocks dev \<Longrightarrow> length buf = unat (block_size dev) \<Longrightarrow>
      \<exists>d. vt_write ops dev b buf = (badge_err_ok, dev\<lparr>cookie := d\<rparr>) \<and> dev_ok (dev\<lparr>cookie := d\<rparr>) \<and>
        (\<forall>b' < blocks dev. content (dev\<lparr>cookie := d\<rparr>) b' = (if b' = b then buf else content dev b'))"
    and write_raw_ok: "dev_ok dev \<Longrightarrow> b < blocks dev \<Longrightarrow> length buf = unat (block_size dev) \<Longrightarrow>
      \<exists>d. write_raw ops dev b buf = (badge_err_ok, dev\<lparr>cookie := d\<rparr>) \<and> dev_ok (dev\<lparr>cookie := d\<rparr>) \<and>
        (\<forall>b' < blocks dev. content (dev\<lparr>cookie := d\<rparr>) b' = (if b' = b then buf else content dev b'))"

text \<open>What a reader of the device sees: the cached entry of the block if there is one, else the disk.\<close>

definition blkdev_view :: "('d blkdev \<Rightarrow> u64 \<Rightarrow> u8 list) \<Rightarrow> 'd blkdev \<Rightarrow> u64 \<Rightarrow> u8 list" where
  "blkdev_view content dev b =
     (case (cache dev, blkdev_find_cache dev b) of
        (Some c, Some i) \<Rightarrow> if erase (block_flags c ! i) then replicate (unat (block_size dev)) 255 else entry_bytes dev c i
      | _ \<Rightarrow> content dev b)"

text \<open>
  The cache invariant: as many flags and bytes as entries, at most one entry per block, entries
  only for blocks of the device, and clean entries equal to the disk.
\<close>

definition flags_inv :: "u64 \<Rightarrow> blkdev_flags list \<Rightarrow> bool" where
  "flags_inv n fs \<longleftrightarrow> (\<forall>i < length fs. present (fs ! i) \<longrightarrow> index (fs ! i) < n \<and>
     (\<forall>j < length fs. present (fs ! j) \<and> index (fs ! j) = index (fs ! i) \<longrightarrow> j = i))"

definition cache_inv :: "('d blkdev \<Rightarrow> u64 \<Rightarrow> u8 list) \<Rightarrow> 'd blkdev \<Rightarrow> blkdev_cache \<Rightarrow> bool" where
  "cache_inv content dev c \<longleftrightarrow>
     length (block_flags c) = cache_depth c \<and> length (block_cache c) = cache_depth c * unat (block_size dev) \<and>
     length (block_cache c) < 2 ^ 62 \<and> flags_inv (blocks dev) (block_flags c) \<and>
     (\<forall>i < cache_depth c. present (block_flags c ! i) \<and> \<not> blkdev_is_dirty (block_flags c ! i) \<longrightarrow>
        entry_bytes dev c i = content dev (index (block_flags c ! i)))"

definition blkdev_inv :: "('d blkdev \<Rightarrow> u64 \<Rightarrow> u8 list) \<Rightarrow> ('d blkdev \<Rightarrow> bool) \<Rightarrow> 'd blkdev \<Rightarrow> bool" where
  "blkdev_inv content dev_ok dev \<longleftrightarrow> dev_ok dev \<and> (case cache dev of None \<Rightarrow> True | Some c \<Rightarrow> cache_inv content dev c)"

lemma entry_bytes_simps [simp]:
  "entry_bytes (dev\<lparr>cache := x\<rparr>) c i = entry_bytes dev c i"
  "entry_bytes (dev\<lparr>cookie := d\<rparr>) c i = entry_bytes dev c i"
  "entry_bytes dev (c\<lparr>block_flags := fs\<rparr>) i = entry_bytes dev c i"
  by (simp_all add: entry_bytes_def)

lemma find_unique:
  assumes "flags_inv n fs" and "i < length fs" and "holds_block b (fs ! i)"
  shows "find_cache_loop fs b 0 = Some i"
proof (cases "find_cache_loop fs b 0")
  case None
  then show ?thesis using assms(2,3) by (auto simp: find_cache_loop_None)
next
  case (Some j)
  then have "j < length fs" "holds_block b (fs ! j)" using find_cache_loop_Some by fastforce+
  then have "j = i" using assms by (auto simp: flags_inv_def holds_block_def)
  then show ?thesis using Some by simp
qed

text \<open>The entry that holds block \<open>b\<close>, if any: for a cache that meets the invariant it is unique.\<close>

lemma find_cases:
  assumes "flags_inv n fs"
  obtains i where "i < length fs" "holds_block b (fs ! i)" "find_cache_loop fs b 0 = Some i"
  | "\<forall>i < length fs. \<not> holds_block b (fs ! i)" "find_cache_loop fs b 0 = None"
proof (cases "find_cache_loop fs b 0")
  case None
  then show ?thesis using that(2) by (auto simp: find_cache_loop_None)
next
  case (Some i)
  then show ?thesis using find_cache_loop_Some[OF Some] that(1) by auto
qed

lemma find_update_other:
  assumes inv: "flags_inv n fs" "flags_inv n (fs[i := f])" and i: "i < length fs"
    and f: "\<not> holds_block b (fs ! i)" "\<not> holds_block b f"
  shows "find_cache_loop (fs[i := f]) b 0 = find_cache_loop fs b 0"
  using inv(1)
proof (cases rule: find_cases[where b = b])
  case (1 j)
  then have "j \<noteq> i" using f by auto
  then show ?thesis using 1 find_unique[OF inv(2), of j b] by simp
next
  case 2
  then have "\<forall>g \<in> set fs. \<not> holds_block b g" by (simp add: find_cache_loop_None)
  then have "\<forall>g \<in> set (fs[i := f]). \<not> holds_block b g"
    using f(2) set_update_subset_insert[of fs i f] by blast
  then have "find_cache_loop (fs[i := f]) b 0 = None" by (simp only: find_cache_loop_None)
  then show ?thesis using 2(2) by (simp only:)
qed

lemma flags_inv_update:
  assumes "flags_inv n fs" and "i < length fs" and "present f \<Longrightarrow> index f < n"
    and "present f \<Longrightarrow> \<forall>j < length fs. j \<noteq> i \<longrightarrow> \<not> holds_block (index f) (fs ! j)"
  shows "flags_inv n (fs[i := f])"
  using assms unfolding flags_inv_def holds_block_def by (auto simp: nth_list_update)

lemma blkdev_view_cached:
  assumes "cache dev = Some c" and "cache_inv content dev c" and "i < cache_depth c" and "holds_block b (block_flags c ! i)"
  shows "blkdev_view content dev b =
    (if erase (block_flags c ! i) then replicate (unat (block_size dev)) 255 else entry_bytes dev c i)"
  using assms find_unique[of "blocks dev" "block_flags c" i b]
  by (simp add: blkdev_view_def blkdev_find_cache_def cache_inv_def)

lemma blkdev_view_uncached:
  assumes "cache dev = Some c" and "cache_inv content dev c" and "\<forall>i < cache_depth c. \<not> holds_block b (block_flags c ! i)"
  shows "blkdev_view content dev b = content dev b"
proof -
  have "\<forall>f \<in> set (block_flags c). \<not> holds_block b f" using assms by (auto simp: in_set_conv_nth cache_inv_def)
  then have "find_cache_loop (take (cache_depth c) (block_flags c)) b 0 = None"
    by (meson find_cache_loop_None in_set_takeD)
  then show ?thesis using assms(1) by (simp add: blkdev_view_def blkdev_find_cache_def)
qed

definition put_entry :: "nat \<Rightarrow> nat \<Rightarrow> blkdev_flags \<Rightarrow> u8 list \<Rightarrow> blkdev_cache \<Rightarrow> blkdev_cache" where
  "put_entry bs i f buf c = c\<lparr>block_cache := take (i * bs) (block_cache c) @ buf @ drop (i * bs + bs) (block_cache c),
     block_flags := (block_flags c)[i := f]\<rparr>"

lemma put_entry_fields:
  "block_flags (put_entry bs i f buf c) = (block_flags c)[i := f]" "cache_depth (put_entry bs i f buf c) = cache_depth c"
  by (simp_all add: put_entry_def)

lemma entry_bytes_put_entry:
  assumes "cache_inv content dev c" and "i < cache_depth c" and "j < cache_depth c" and "length buf = unat (block_size dev)"
  shows "entry_bytes dev (put_entry (unat (block_size dev)) i f buf c) j = (if j = i then buf else entry_bytes dev c j)"
  using assms block_get_put[of buf "unat (block_size dev)" "block_cache c" "cache_depth c" i j]
  by (simp add: entry_bytes_def put_entry_def cache_inv_def)

lemma put_entry_inv:
  assumes inv: "cache_inv content dev c" and i: "i < cache_depth c"
    and other: "\<forall>j < cache_depth c. j \<noteq> i \<longrightarrow> \<not> holds_block b (block_flags c ! j)"
    and b: "b < blocks dev" and f: "present f" "index f = b"
    and buf: "length buf = unat (block_size dev)" and coh: "blkdev_is_dirty f \<or> buf = content dev b"
  shows "cache_inv content dev (put_entry (unat (block_size dev)) i f buf c)" (is "cache_inv _ _ ?c")
proof -
  have len: "length (block_flags c) = cache_depth c" "length (block_cache c) = cache_depth c * unat (block_size dev)"
    using inv by (simp_all add: cache_inv_def)
  have "flags_inv (blocks dev) (block_flags ?c)"
    using inv i other b f len unfolding put_entry_fields by (intro flags_inv_update) (auto simp: cache_inv_def)
  moreover have "entry_bytes dev ?c j = content dev (index (block_flags ?c ! j))"
    if "j < cache_depth c" "present (block_flags ?c ! j)" "\<not> blkdev_is_dirty (block_flags ?c ! j)" for j
    using that inv i f coh len unfolding entry_bytes_put_entry[OF inv i that(1) buf] put_entry_fields
    by (cases "j = i") (auto simp: cache_inv_def)
  moreover have "length (block_cache ?c) = length (block_cache c)"
    using length_block_put[OF buf len(2) i] by (simp add: put_entry_def)
  ultimately show ?thesis using inv len by (simp add: cache_inv_def put_entry_fields)
qed

lemma put_entry_view:
  assumes dev: "cache dev = Some c" and inv: "cache_inv content dev c" and i: "i < cache_depth c"
    and content: "\<And>x. content (dev\<lparr>cache := x\<rparr>) = content dev"
    and slot: "\<not> present (block_flags c ! i) \<or> holds_block b (block_flags c ! i)"
    and other: "\<forall>j < cache_depth c. j \<noteq> i \<longrightarrow> \<not> holds_block b (block_flags c ! j)"
    and b: "b < blocks dev" and f: "present f" "index f = b" "\<not> erase f"
    and buf: "length buf = unat (block_size dev)" and coh: "blkdev_is_dirty f \<or> buf = content dev b"
  shows "blkdev_view content (dev\<lparr>cache := Some (put_entry (unat (block_size dev)) i f buf c)\<rparr>) b' =
    (if b' = b then buf else blkdev_view content dev b')"
proof -
  let ?c = "put_entry (unat (block_size dev)) i f buf c" and ?dev = "dev\<lparr>cache := Some (put_entry (unat (block_size dev)) i f buf c)\<rparr>"
  have inv0: "cache_inv content dev ?c" by (rule put_entry_inv[OF inv i other b f(1,2) buf coh])
  then have inv': "cache_inv content ?dev ?c" by (simp add: cache_inv_def content)
  have len: "length (block_flags c) = cache_depth c" using inv by (simp add: cache_inv_def)
  have fi: "block_flags ?c ! i = f" using i len by (simp add: put_entry_fields)
  show ?thesis
  proof (cases "b' = b")
    case True
    have "holds_block b (block_flags ?c ! i)" using f fi by (simp add: holds_block_def)
    then show ?thesis
      using True blkdev_view_cached[of ?dev ?c content i b] inv' i fi f(3) entry_bytes_put_entry[OF inv i i buf]
      by (simp add: put_entry_fields)
  next
    case False
    have ni: "\<not> holds_block b' (block_flags c ! i)" "\<not> holds_block b' f"
      using slot f False by (auto simp: holds_block_def)
    show ?thesis
    proof (cases "\<exists>j < cache_depth c. holds_block b' (block_flags c ! j)")
      case True
      then obtain j where j: "j < cache_depth c" "holds_block b' (block_flags c ! j)" by blast
      then have "j \<noteq> i" using ni by auto
      then show ?thesis
        using False j blkdev_view_cached[of ?dev ?c content j b'] blkdev_view_cached[OF dev inv j] inv'
          entry_bytes_put_entry[OF inv i j(1) buf]
        by (simp add: put_entry_fields)
    next
      case None: False
      then have "\<forall>j < cache_depth ?c. \<not> holds_block b' (block_flags ?c ! j)"
        using ni fi len i by (metis nth_list_update put_entry_fields)
      then show ?thesis
        using False None blkdev_view_uncached[of ?dev ?c content b'] blkdev_view_uncached[OF dev inv, of b'] inv'
        by (simp add: content)
    qed
  qed
qed

text \<open>Which entry an operation on block \<open>b\<close> gets.\<close>

definition fresh_reads :: "int \<Rightarrow> 'd blkdev \<Rightarrow> bool" where
  "fresh_reads t0 dev \<longleftrightarrow> (case cache dev of None \<Rightarrow> True | Some c \<Rightarrow> no_aged (t0 - BLKDEV_READ_CACHE_TIMEOUT) (block_flags c))"

lemma alloc_cache_cases:
  assumes dev: "cache dev = Some c" and inv: "cache_inv content dev c" and fresh: "fresh_reads t0 dev"
  obtains (hit) i where "blkdev_alloc_cache t0 dev b = Some i" "i < cache_depth c" "holds_block b (block_flags c ! i)"
      "\<forall>j < cache_depth c. j \<noteq> i \<longrightarrow> \<not> holds_block b (block_flags c ! j)"
  | (vacant) i where "blkdev_alloc_cache t0 dev b = Some i" "i < cache_depth c" "\<not> present (block_flags c ! i)"
      "\<forall>j < cache_depth c. \<not> holds_block b (block_flags c ! j)"
  | (full) "blkdev_alloc_cache t0 dev b = None" "\<forall>j < cache_depth c. \<not> holds_block b (block_flags c ! j)"
proof -
  have len: "length (block_flags c) = cache_depth c" and fi: "flags_inv (blocks dev) (block_flags c)"
    using inv by (simp_all add: cache_inv_def)
  have na: "no_aged (t0 - BLKDEV_READ_CACHE_TIMEOUT) (block_flags c)" using fresh dev by (simp add: fresh_reads_def)
  have al: "blkdev_alloc_cache t0 dev b = alloc_cache_loop (block_flags c) b 0 (t0 - BLKDEV_READ_CACHE_TIMEOUT) None"
    using dev len by (simp add: blkdev_alloc_cache_def)
  from fi show ?thesis
  proof (cases rule: find_cases[where b = b])
    case (1 i)
    then have "\<forall>j < cache_depth c. j \<noteq> i \<longrightarrow> \<not> holds_block b (block_flags c ! j)"
      using fi len by (auto simp: flags_inv_def holds_block_def)
    then show ?thesis using hit 1 len alloc_cache_loop_hit[OF 1(3)] al by simp
  next
    case 2
    show ?thesis
    proof (cases "blkdev_alloc_cache t0 dev b")
      case None
      then show ?thesis using full 2(1) len by simp
    next
      case (Some i)
      then have "i < cache_depth c \<and> \<not> present (block_flags c ! i)"
        using alloc_cache_loop_miss[OF 2(2) na, of None i] al len by auto
      then show ?thesis using vacant Some 2(1) len by simp
    qed
  qed
qed

section \<open>The cached device is a disk\<close>

text \<open>The abstract disk: the contents of every block of the device, as a reader sees them.\<close>

definition blkdev_disk :: "('d blkdev \<Rightarrow> u64 \<Rightarrow> u8 list) \<Rightarrow> 'd blkdev \<Rightarrow> u64 \<Rightarrow> u8 list option" where
  "blkdev_disk content dev b = (if b < blocks dev then Some (blkdev_view content dev b) else None)"

lemma put_entry_same:
  assumes "cache_inv content dev c" and "i < cache_depth c"
  shows "put_entry (unat (block_size dev)) i f (entry_bytes dev c i) c = c\<lparr>block_flags := (block_flags c)[i := f]\<rparr>"
proof -
  have "take (i * bs) xs @ take bs (drop (i * bs) xs) @ drop (i * bs + bs) xs = xs" for bs and xs :: "u8 list"
    by (metis append_take_drop_id append.assoc drop_drop add.commute)
  then show ?thesis by (simp add: put_entry_def entry_bytes_def)
qed

lemma length_entry_bytes:
  assumes "cache_inv content dev c" and "i < cache_depth c"
  shows "length (entry_bytes dev c i) = unat (block_size dev)"
proof -
  have "Suc i * unat (block_size dev) \<le> cache_depth c * unat (block_size dev)" using assms(2) by (intro mult_le_mono1) simp
  then show ?thesis using assms(1) by (simp add: entry_bytes_def cache_inv_def)
qed

lemma entry_range:
  assumes "cache_inv content dev c" and "i < cache_depth c"
  shows "i * unat (block_size dev) + unat (block_size dev) \<le> length (block_cache c)"
    and "unat (block_size dev) < 2 ^ 62" and "length (block_cache c) < 2 ^ 62"
proof -
  have "Suc i * unat (block_size dev) \<le> cache_depth c * unat (block_size dev)" using assms(2) by (intro mult_le_mono1) simp
  then show le: "i * unat (block_size dev) + unat (block_size dev) \<le> length (block_cache c)"
    using assms(1) by (simp add: cache_inv_def)
  show lt: "length (block_cache c) < 2 ^ 62" using assms(1) unfolding cache_inv_def by blast
  show "unat (block_size dev) < 2 ^ 62" using le lt by linarith
qed

text \<open>
  The disk under the cache changes at block \<open>b\<close> to \<open>buf\<close>, which is the only cached entry of that
  block, if it is cached at all.
\<close>

lemma write_through_inv:
  assumes inv: "cache_inv content dev c" and same: "blocks dev' = blocks dev" "block_size dev' = block_size dev"
    and content: "\<forall>b' < blocks dev. content dev' b' = (if b' = b then buf else content dev b')"
    and entry: "\<forall>i < cache_depth c. holds_block b (block_flags c ! i) \<longrightarrow> \<not> blkdev_is_dirty (block_flags c ! i) \<longrightarrow> entry_bytes dev c i = buf"
  shows "cache_inv content dev' c"
proof -
  have eb: "entry_bytes dev' c i = entry_bytes dev c i" for i by (simp add: entry_bytes_def same)
  have "entry_bytes dev c i = content dev' (index (block_flags c ! i))"
    if "i < cache_depth c" "present (block_flags c ! i)" "\<not> blkdev_is_dirty (block_flags c ! i)" for i
    using that inv content entry by (cases "index (block_flags c ! i) = b") (auto simp: cache_inv_def flags_inv_def holds_block_def)
  then show ?thesis using inv by (simp add: cache_inv_def same eb)
qed

lemma write_through_view:
  assumes dev: "cache dev = Some c" "cache dev' = Some c" and inv: "cache_inv content dev c" "cache_inv content dev' c"
    and same: "blocks dev' = blocks dev" "block_size dev' = block_size dev"
    and content: "\<forall>b' < blocks dev. content dev' b' = (if b' = b then buf else content dev b')"
    and none: "\<forall>i < cache_depth c. \<not> holds_block b (block_flags c ! i)" and b': "b' < blocks dev"
  shows "blkdev_view content dev' b' = (if b' = b then buf else blkdev_view content dev b')"
proof (cases "\<exists>i < cache_depth c. holds_block b' (block_flags c ! i)")
  case True
  then obtain i where i: "i < cache_depth c" "holds_block b' (block_flags c ! i)" by blast
  then have "b' \<noteq> b" using none by auto
  then show ?thesis
    using blkdev_view_cached[OF dev(1) inv(1) i] blkdev_view_cached[OF dev(2) inv(2) i] by (simp add: entry_bytes_def same)
next
  case False
  then show ?thesis
    using blkdev_view_uncached[OF dev(1) inv(1), of b'] blkdev_view_uncached[OF dev(2) inv(2), of b'] content b' by simp
qed

locale blkdev_layer = blkdev_driver ops content dev_ok + mem_copier mem_copy
  for ops :: "'d blkdev_ops" and content and dev_ok and mem_copy
begin

lemma put_entry_disk:
  assumes inv: "blkdev_inv content dev_ok dev" and dev: "cache dev = Some c" and i: "i < cache_depth c"
    and slot: "\<not> present (block_flags c ! i) \<or> holds_block b (block_flags c ! i)"
    and other: "\<forall>j < cache_depth c. j \<noteq> i \<longrightarrow> \<not> holds_block b (block_flags c ! j)"
    and b: "b < blocks dev" and f: "present f" "index f = b" "\<not> erase f"
    and buf: "length buf = unat (block_size dev)" and coh: "blkdev_is_dirty f \<or> buf = content dev b"
  shows "blkdev_inv content dev_ok (dev\<lparr>cache := Some (put_entry (unat (block_size dev)) i f buf c)\<rparr>) \<and>
    blkdev_disk content (dev\<lparr>cache := Some (put_entry (unat (block_size dev)) i f buf c)\<rparr>) = (blkdev_disk content dev)(b \<mapsto> buf)"
proof -
  have ci: "cache_inv content dev c" and ok: "dev_ok dev" using inv dev by (simp_all add: blkdev_inv_def)
  have "cache_inv content dev (put_entry (unat (block_size dev)) i f buf c)"
    by (rule put_entry_inv[OF ci i other b f(1,2) buf coh])
  then have "blkdev_inv content dev_ok (dev\<lparr>cache := Some (put_entry (unat (block_size dev)) i f buf c)\<rparr>)"
    using ok by (simp add: blkdev_inv_def ok_cache cache_inv_def content_cache)
  then show ?thesis
    using put_entry_view[OF dev ci i content_cache slot other b f buf coh] b by (simp add: blkdev_disk_def fun_eq_iff)
qed

lemma write_disk:
  assumes inv: "blkdev_inv content dev_ok dev" and dev: "cache dev = Some c" and ro: "\<not> readonly dev"
    and fresh: "fresh_reads t0 dev" and b: "b < blocks dev" and buf: "length buf = unat (block_size dev)"
  obtains dev' where "blkdev_write ops mem_copy t0 t1 (Some dev) b buf = Some (badge_err_ok, Some dev')"
    "blkdev_inv content dev_ok dev'" "blkdev_disk content dev' = (blkdev_disk content dev)(b \<mapsto> buf)"
proof -
  have ci: "cache_inv content dev c" and ok: "dev_ok dev" using inv dev by (simp_all add: blkdev_inv_def)
  have nb: "\<not> blocks dev \<le> b" using b by (simp only: not_le)
  note result = that
  have in_cache: thesis if i: "blkdev_alloc_cache t0 dev b = Some i" "i < cache_depth c"
    and slot: "\<not> present (block_flags c ! i) \<or> holds_block b (block_flags c ! i)"
    and other: "\<forall>j < cache_depth c. j \<noteq> i \<longrightarrow> \<not> holds_block b (block_flags c ! j)" for i
  proof -
    let ?f = "written_flags t1 b (block_flags c ! i)"
    have f: "present ?f" "index ?f = b" "\<not> erase ?f" "blkdev_is_dirty ?f"
      using slot by (auto simp: written_flags_def holds_block_def blkdev_is_dirty_def)
    note r = entry_range[OF ci i(2)]
    have "mem_copy (block_cache c) (i * unat (block_size dev)) buf 0 (unat (block_size dev)) =
        take (i * unat (block_size dev)) (block_cache c) @ buf @ drop (i * unat (block_size dev) + unat (block_size dev)) (block_cache c)"
      using mem_copy_eq[OF r(1), of 0 buf] r buf by simp
    then have "blkdev_write ops mem_copy t0 t1 (Some dev) b buf =
        Some (badge_err_ok, Some (dev\<lparr>cache := Some (put_entry (unat (block_size dev)) i ?f buf c)\<rparr>))"
      using dev ro nb i(1) by (simp add: blkdev_write_def set_flags_def put_entry_def)
    then show thesis using put_entry_disk[OF inv dev i(2) slot other b f(1-3) buf disjI1[OF f(4)]] by (elim result) simp_all
  qed
  from dev ci fresh show thesis
  proof (cases rule: alloc_cache_cases[where b = b])
    case (hit i)
    then show thesis using in_cache by blast
  next
    case (vacant i)
    then show thesis using in_cache by blast
  next
    case full
    obtain d where d: "vt_write ops dev b buf = (badge_err_ok, dev\<lparr>cookie := d\<rparr>)" "dev_ok (dev\<lparr>cookie := d\<rparr>)"
      "\<forall>b' < blocks dev. content (dev\<lparr>cookie := d\<rparr>) b' = (if b' = b then buf else content dev b')"
      using write_ok[OF ok b buf] by blast
    have ci': "cache_inv content (dev\<lparr>cookie := d\<rparr>) c"
      using write_through_inv[OF ci _ _ d(3)] full(2) by auto
    have "blkdev_view content (dev\<lparr>cookie := d\<rparr>) b' = (if b' = b then buf else blkdev_view content dev b')" if "b' < blocks dev" for b'
      using write_through_view[OF dev _ ci ci' _ _ d(3) full(2) that] dev by simp
    then have "blkdev_disk content (dev\<lparr>cookie := d\<rparr>) = (blkdev_disk content dev)(b \<mapsto> buf)"
      using b by (auto simp: blkdev_disk_def fun_eq_iff)
    moreover have "blkdev_inv content dev_ok (dev\<lparr>cookie := d\<rparr>)" using ci' d(2) dev by (simp add: blkdev_inv_def)
    moreover have "blkdev_write ops mem_copy t0 t1 (Some dev) b buf = Some (badge_err_ok, Some (dev\<lparr>cookie := d\<rparr>))"
      using dev ro nb full(1) d(1) by (simp add: blkdev_write_def)
    ultimately show thesis by (intro result)
  qed
qed

end

text \<open>What the operations leave alone, and a cache that only delays writes.\<close>

definition same_device :: "'d blkdev \<Rightarrow> 'd blkdev \<Rightarrow> bool" where
  "same_device dev dev' \<longleftrightarrow> blocks dev' = blocks dev \<and> block_size dev' = block_size dev \<and> readonly dev' = readonly dev \<and>
     cache_read dev' = cache_read dev"

definition write_cache :: "'d blkdev \<Rightarrow> bool" where
  "write_cache dev \<longleftrightarrow> \<not> cache_read dev \<and> \<not> readonly dev \<and>
     (case cache dev of None \<Rightarrow> False | Some c \<Rightarrow> \<forall>f \<in> set (block_flags c). present f \<longrightarrow> dirty f \<and> \<not> erase f)"

definition none_erased :: "'d blkdev \<Rightarrow> bool" where
  "none_erased dev \<longleftrightarrow> (case cache dev of None \<Rightarrow> True | Some c \<Rightarrow> \<forall>f \<in> set (block_flags c). present f \<longrightarrow> \<not> erase f)"

lemma write_cache_fresh: "write_cache dev \<Longrightarrow> fresh_reads t dev"
  by (auto simp: write_cache_def fresh_reads_def no_aged_def blkdev_is_dirty_def split: option.splits)

lemma write_cache_none_erased: "write_cache dev \<Longrightarrow> none_erased dev"
  by (auto simp: write_cache_def none_erased_def split: option.splits)

lemma write_cache_update:
  assumes "write_cache dev" and "cache dev = Some c" and "cache dev' = Some c'" and "same_device dev dev'"
    and "block_flags c' = (block_flags c)[i := f]" and "present f \<Longrightarrow> dirty f \<and> \<not> erase f"
  shows "write_cache dev'"
  using assms set_update_subset_insert[of "block_flags c" i f] by (auto simp: write_cache_def same_device_def)

context blkdev_layer begin

lemma driver_write_frame: "dev_ok dev \<Longrightarrow> b < blocks dev \<Longrightarrow> length buf = unat (block_size dev) \<Longrightarrow>
    same_device dev (snd (vt_write ops dev b buf)) \<and> cache (snd (vt_write ops dev b buf)) = cache dev"
  using write_ok[of dev b buf] by (auto simp: same_device_def)

lemma write_frame:
  assumes inv: "blkdev_inv content dev_ok dev" and dev: "cache dev = Some c" and ro: "\<not> readonly dev"
    and b: "b < blocks dev" and buf: "length buf = unat (block_size dev)"
    and w: "blkdev_write ops mem_copy t0 t1 (Some dev) b buf = Some (ec, Some dev')"
  shows "same_device dev dev' \<and> (write_cache dev \<longrightarrow> write_cache dev')"
proof -
  have nb: "\<not> blocks dev \<le> b" using b by (simp only: not_le)
  show ?thesis
  proof (cases "blkdev_alloc_cache t0 dev b")
    case None
    then have "dev' = snd (vt_write ops dev b buf)"
      using w dev ro nb by (cases "vt_write ops dev b buf") (auto simp: blkdev_write_def)
    then show ?thesis using driver_write_frame[of dev b buf] inv b buf by (auto simp: blkdev_inv_def write_cache_def same_device_def)
  next
    case (Some i)
    let ?c = "c\<lparr>block_cache := mem_copy (block_cache c) (i * unat (block_size dev)) buf 0 (unat (block_size dev))\<rparr>"
    have d: "dev' = set_flags i (written_flags t1 b (block_flags c ! i)) ?c dev"
      using w dev ro nb Some by (auto simp: blkdev_write_def)
    have s: "same_device dev dev'" unfolding d same_device_def set_flags_def by simp
    moreover have "write_cache dev'" if "write_cache dev"
      using that dev _ s
      by (rule write_cache_update[where i = i and f = "written_flags t1 b (block_flags c ! i)"])
        (auto simp: d set_flags_def written_flags_def)
    ultimately show ?thesis by blast
  qed
qed

lemma read_disk:
  assumes inv: "blkdev_inv content dev_ok dev" and dev: "cache dev = Some c" and ne: "none_erased dev"
    and fresh: "fresh_reads t0 dev" and b: "b < blocks dev" and buf: "length buf = unat (block_size dev)"
  obtains dev' where "blkdev_read ops mem_copy mem_set t0 t1 (Some dev) b buf = Some (badge_err_ok, Some dev', blkdev_view content dev b)"
    "blkdev_inv content dev_ok dev'" "blkdev_disk content dev' = blkdev_disk content dev"
    "same_device dev dev'" "write_cache dev \<longrightarrow> dev' = dev"
proof -
  have ci: "cache_inv content dev c" and ok: "dev_ok dev" using inv dev by (simp_all add: blkdev_inv_def)
  have nb: "\<not> blocks dev \<le> b" using b by (simp only: not_le)
  note result = that
  note rd = read_ok[OF ok b]
  have len: "length (block_flags c) = cache_depth c" using ci by (simp add: cache_inv_def)
  have copy: "mem_copy buf 0 bytes (i * unat (block_size dev)) (unat (block_size dev)) =
      take (unat (block_size dev)) (drop (i * unat (block_size dev)) bytes)"
    if "i < cache_depth c" "length bytes = length (block_cache c)" for i bytes
    using mem_copy_eq[of 0 "unat (block_size dev)" buf "i * unat (block_size dev)" bytes] entry_range[OF ci that(1)] that(2) buf by simp
  have view_id: "(blkdev_disk content dev)(b \<mapsto> blkdev_view content dev b) = blkdev_disk content dev"
    using b by (auto simp: blkdev_disk_def fun_eq_iff)
  from dev ci fresh show thesis
  proof (cases rule: alloc_cache_cases[where b = b])
    case (hit i)
    let ?f = "block_flags c ! i"
    let ?g = "if \<not> dirty ?f then ?f\<lparr>update_time := t1\<rparr> else ?f"
    have f: "present ?f" "index ?f = b" "\<not> erase ?f"
      using hit(2,3) ne dev len by (auto simp: holds_block_def none_erased_def)
    have v: "blkdev_view content dev b = entry_bytes dev c i" using blkdev_view_cached[OF dev ci hit(2,3)] f(3) by simp
    have coh: "blkdev_is_dirty ?g \<or> entry_bytes dev c i = content dev b"
      using ci hit(2) f by (auto simp: cache_inv_def blkdev_is_dirty_def)
    have g: "present ?g" "index ?g = b" "\<not> erase ?g" using f by simp_all
    have eq: "set_flags i ?g c dev = dev\<lparr>cache := Some (put_entry (unat (block_size dev)) i ?g (entry_bytes dev c i) c)\<rparr>"
      unfolding set_flags_def put_entry_same[OF ci hit(2)] ..
    have "blkdev_read ops mem_copy mem_set t0 t1 (Some dev) b buf = Some (badge_err_ok, Some (set_flags i ?g c dev), entry_bytes dev c i)"
      using dev nb hit(1) f copy[OF hit(2) refl] by (simp add: blkdev_read_def Let_def entry_bytes_def)
    moreover have "same_device dev (set_flags i ?g c dev)" by (simp add: same_device_def set_flags_def)
    moreover have "write_cache dev \<longrightarrow> set_flags i ?g c dev = dev"
      using f(1) hit(2) len dev by (auto simp: write_cache_def set_flags_def)
    ultimately show thesis
      using put_entry_disk[OF inv dev hit(2) disjI2[OF hit(3)] hit(4) b g length_entry_bytes[OF ci hit(2)] coh] view_id
      unfolding v eq by (elim result[unfolded v]) simp_all
  next
    case (vacant i)
    have v: "blkdev_view content dev b = content dev b" by (rule blkdev_view_uncached[OF dev ci vacant(4)])
    show thesis
    proof (cases "cache_read dev")
      case True
      let ?c = "put_entry (unat (block_size dev)) i (read_flags t1 b) (content dev b) c"
      have lc: "length (content dev b) = unat (block_size dev)" by (rule length_content[OF ok b])
      have eb: "entry_bytes dev ?c i = content dev b" using entry_bytes_put_entry[OF ci vacant(2,2) lc] by simp
      have lb: "length (block_cache ?c) = length (block_cache c)"
        using length_block_put[OF lc _ vacant(2), of "block_cache c"] ci by (simp add: put_entry_def cache_inv_def)
      have "mem_copy buf 0 (block_cache ?c) (i * unat (block_size dev)) (unat (block_size dev)) = content dev b"
        using copy[OF vacant(2) lb] eb by (simp add: entry_bytes_def)
      then have "blkdev_read ops mem_copy mem_set t0 t1 (Some dev) b buf = Some (badge_err_ok, Some (dev\<lparr>cache := Some ?c\<rparr>), content dev b)"
        using dev nb vacant True rd[OF length_entry_bytes[OF ci vacant(2)]]
        by (simp add: blkdev_read_def Let_def set_flags_def put_entry_def)
      moreover have "same_device dev (dev\<lparr>cache := Some ?c\<rparr>)" by (simp add: same_device_def)
      moreover have "write_cache dev \<longrightarrow> dev\<lparr>cache := Some ?c\<rparr> = dev" using True by (simp add: write_cache_def)
      moreover have "\<forall>j < cache_depth c. j \<noteq> i \<longrightarrow> \<not> holds_block b (block_flags c ! j)" using vacant(4) by blast
      ultimately show thesis
        using put_entry_disk[OF inv dev vacant(2) disjI1[OF vacant(3)] _ b _ _ _ lc, of "read_flags t1 b"] view_id
        unfolding v by (elim result[unfolded v]) (simp_all add: read_flags_def)
    next
      case False
      then have "blkdev_read ops mem_copy mem_set t0 t1 (Some dev) b buf = Some (badge_err_ok, Some dev, content dev b)"
        using dev nb vacant rd[OF buf] by (simp add: blkdev_read_def Let_def)
      then show thesis using inv unfolding v by (elim result[unfolded v]) (simp_all add: same_device_def v)
    qed
  next
    case full
    have v: "blkdev_view content dev b = content dev b" by (rule blkdev_view_uncached[OF dev ci full(2)])
    have "blkdev_read ops mem_copy mem_set t0 t1 (Some dev) b buf = Some (badge_err_ok, Some dev, content dev b)"
      using dev nb full(1) rd[OF buf] by (simp add: blkdev_read_def Let_def)
    then show thesis using inv v by (intro result[of dev]) (simp_all add: same_device_def)
  qed
qed

end

section \<open>Flushing keeps the disk\<close>

text \<open>The flags of a dirty entry once it is flushed.\<close>

definition flushed_flags :: "int \<Rightarrow> bool \<Rightarrow> blkdev_flags \<Rightarrow> blkdev_flags" where
  "flushed_flags now keep f =
     (if keep then f\<lparr>dirty := False, erase := False, present := True, update_time := now\<rparr>
      else f\<lparr>dirty := False, erase := False, present := False\<rparr>)"

lemma flushed_flags_simps [simp]:
  "index (flushed_flags now keep f) = index f" "present (flushed_flags now keep f) = keep"
  "dirty (flushed_flags now keep f) = False" "erase (flushed_flags now keep f) = False"
  by (simp_all add: flushed_flags_def)

definition flush_entry :: "int \<Rightarrow> bool \<Rightarrow> nat \<Rightarrow> blkdev_cache \<Rightarrow> blkdev_cache" where
  "flush_entry now keep i c = c\<lparr>block_flags := (block_flags c)[i := flushed_flags now keep (block_flags c ! i)]\<rparr>"

lemma flush_entry_fields [simp]:
  "block_cache (flush_entry now keep i c) = block_cache c" "cache_depth (flush_entry now keep i c) = cache_depth c"
  "block_flags (flush_entry now keep i c) = (block_flags c)[i := flushed_flags now keep (block_flags c ! i)]"
  by (simp_all add: flush_entry_def)

lemma cache_inv_other:
  assumes "cache_inv content dev c" and "i < cache_depth c" and "present (block_flags c ! i)"
  shows "index (block_flags c ! i) < blocks dev"
    and "\<forall>j < cache_depth c. j \<noteq> i \<longrightarrow> \<not> holds_block (index (block_flags c ! i)) (block_flags c ! j)"
  using assms by (auto simp: cache_inv_def flags_inv_def holds_block_def)

lemma flush_entry_inv:
  assumes ci: "cache_inv content dev c" and i: "i < cache_depth c" and p: "present (block_flags c ! i)"
    and same: "same_device dev dev'"
    and content: "\<forall>b' < blocks dev. content dev' b' =
      (if b' = index (block_flags c ! i) then entry_bytes dev c i else content dev b')"
  shows "cache_inv content dev' (flush_entry now keep i c)" (is "cache_inv _ _ ?c")
proof -
  note b = cache_inv_other(1)[OF ci i p] and other = cache_inv_other(2)[OF ci i p]
  have len: "length (block_flags c) = cache_depth c" and fi: "flags_inv (blocks dev) (block_flags c)"
    using ci by (simp_all add: cache_inv_def)
  have fi': "flags_inv (blocks dev) (block_flags ?c)"
    using flags_inv_update[OF fi, of i "flushed_flags now keep (block_flags c ! i)"] i len b other by simp
  have coh: "entry_bytes dev c j = content dev' (index (block_flags ?c ! j))"
    if j: "j < cache_depth c" "present (block_flags ?c ! j)" "\<not> blkdev_is_dirty (block_flags ?c ! j)" for j
  proof (cases "j = i")
    case True
    then show ?thesis using content b i len by simp
  next
    case False
    then have q: "present (block_flags c ! j)" "\<not> blkdev_is_dirty (block_flags c ! j)" using j by simp_all
    then have "index (block_flags c ! j) \<noteq> index (block_flags c ! i)" "index (block_flags c ! j) < blocks dev"
      using other False j(1) fi len by (auto simp: holds_block_def flags_inv_def)
    then show ?thesis using False q j(1) content ci by (simp add: cache_inv_def)
  qed
  have eb: "entry_bytes dev' ?c j = entry_bytes dev c j" for j using same by (simp add: entry_bytes_def same_device_def)
  show ?thesis using ci fi' coh same unfolding cache_inv_def eb by (simp add: same_device_def)
qed

lemma flush_entry_view:
  assumes dev: "cache dev = Some c" "cache dev' = Some (flush_entry now keep i c)"
    and ci: "cache_inv content dev c" "cache_inv content dev' (flush_entry now keep i c)" and i: "i < cache_depth c"
    and p: "present (block_flags c ! i)" "\<not> erase (block_flags c ! i)" and same: "same_device dev dev'"
    and content: "\<forall>b' < blocks dev. content dev' b' =
      (if b' = index (block_flags c ! i) then entry_bytes dev c i else content dev b')"
    and b': "b' < blocks dev"
  shows "blkdev_view content dev' b' = blkdev_view content dev b'"
proof -
  let ?c = "flush_entry now keep i c" and ?b = "index (block_flags c ! i)"
  note other = cache_inv_other(2)[OF ci(1) i p(1)]
  have len: "length (block_flags c) = cache_depth c" using ci(1) by (simp add: cache_inv_def)
  have eb: "entry_bytes dev' ?c j = entry_bytes dev c j" for j using same by (simp add: entry_bytes_def same_device_def)
  have here: "blkdev_view content dev ?b = entry_bytes dev c i"
    using blkdev_view_cached[OF dev(1) ci(1) i, of ?b] p by (simp add: holds_block_def)
  show ?thesis
  proof (cases "\<exists>j < cache_depth c. holds_block b' (block_flags ?c ! j)")
    case True
    then obtain j where j: "j < cache_depth c" "holds_block b' (block_flags ?c ! j)" by blast
    show ?thesis
    proof (cases "j = i")
      case True
      then have "b' = ?b" using j len by (simp add: holds_block_def)
      then show ?thesis using blkdev_view_cached[OF dev(2) ci(2), of j b'] j here eb True len by simp
    next
      case False
      then show ?thesis
        using blkdev_view_cached[OF dev(2) ci(2), of j b'] blkdev_view_cached[OF dev(1) ci(1), of j b'] j eb same
        by (simp add: same_device_def)
    qed
  next
    case False
    then have "blkdev_view content dev' b' = content dev' b'" using blkdev_view_uncached[OF dev(2) ci(2), of b'] by simp
    moreover have "blkdev_view content dev b' = content dev b'" if "b' \<noteq> ?b"
    proof (rule blkdev_view_uncached[OF dev(1) ci(1)])
      show "\<forall>j < cache_depth c. \<not> holds_block b' (block_flags c ! j)"
      proof (intro allI impI notI)
        fix j assume j: "j < cache_depth c" "holds_block b' (block_flags c ! j)"
        then have "j \<noteq> i" using that by (auto simp: holds_block_def)
        then have "block_flags ?c ! j = block_flags c ! j" by simp
        then show False using False j by metis
      qed
    qed
    ultimately show ?thesis using content b' here by (cases "b' = ?b") simp_all
  qed
qed

context blkdev_layer begin

lemma flush_cache_disk:
  assumes inv: "blkdev_inv content dev_ok dev" and dev: "cache dev = Some c" and i: "i < cache_depth c"
    and f: "present (block_flags c ! i)" "dirty (block_flags c ! i)" "\<not> erase (block_flags c ! i)"
  obtains dev' where "blkdev_flush_cache ops now ec dev i = Some (badge_err_ok, dev')" "blkdev_inv content dev_ok dev'"
    "blkdev_disk content dev' = blkdev_disk content dev" "same_device dev dev'"
    "cache dev' = Some (flush_entry now (cache_read dev) i c)"
    "\<forall>b' < blocks dev. content dev' b' = (if b' = index (block_flags c ! i) then entry_bytes dev c i else content dev b')"
proof -
  let ?b = "index (block_flags c ! i)" and ?f = "flushed_flags now (cache_read dev) (block_flags c ! i)"
  let ?dev = "set_flags i ?f c dev" and ?buf = "entry_bytes dev c i"
  have ci: "cache_inv content dev c" and ok: "dev_ok dev" using inv dev by (simp_all add: blkdev_inv_def)
  have ok': "dev_ok ?dev" and c0: "content ?dev = content dev" using ok by (simp_all add: set_flags_def ok_cache content_cache)
  obtain d where d: "write_raw ops ?dev ?b ?buf = (badge_err_ok, ?dev\<lparr>cookie := d\<rparr>)" "dev_ok (?dev\<lparr>cookie := d\<rparr>)"
    "\<forall>b' < blocks dev. content (?dev\<lparr>cookie := d\<rparr>) b' = (if b' = ?b then ?buf else content dev b')"
    using write_raw_ok[OF ok', of ?b ?buf] cache_inv_other(1)[OF ci i f(1)] length_entry_bytes[OF ci i] c0
    by (auto simp: set_flags_def)
  let ?dev' = "?dev\<lparr>cookie := d\<rparr>"
  have flush: "blkdev_flush_cache ops now ec dev i = Some (badge_err_ok, ?dev')"
    using dev f d(1) by (cases "cache_read dev") (simp_all add: blkdev_flush_cache_def flushed_flags_def Let_def)
  have same: "same_device dev ?dev'" by (simp add: same_device_def set_flags_def)
  have c': "cache ?dev' = Some (flush_entry now (cache_read dev) i c)" by (simp add: set_flags_def flush_entry_def)
  have ci': "cache_inv content ?dev' (flush_entry now (cache_read dev) i c)"
    by (rule flush_entry_inv[OF ci i f(1) same d(3)])
  have "blkdev_disk content ?dev' = blkdev_disk content dev"
    using flush_entry_view[OF dev c' ci ci' i f(1,3) same d(3)] same by (auto simp: blkdev_disk_def same_device_def fun_eq_iff)
  moreover have "blkdev_inv content dev_ok ?dev'" using ci' d(2) c' by (simp add: blkdev_inv_def)
  ultimately show thesis using flush same c' d(3) by (intro that)
qed

end

section \<open>Requests\<close>

text \<open>
  A client's view of the device: a sequence of requests, each with the clock readings of the
  operation, and the abstract disk they act on.
\<close>

datatype blkdev_request = Write int int u64 "u8 list" | Read int int u64 "u8 list" | Flush int | Housekeeping int "nat \<Rightarrow> int"

fun serve :: "'d blkdev_ops \<Rightarrow> mem_copy_fn \<Rightarrow> (u8 list \<Rightarrow> u8 \<Rightarrow> nat \<Rightarrow> u8 list) \<Rightarrow> 'd blkdev \<Rightarrow> blkdev_request \<Rightarrow>
    (badge_err \<times> 'd blkdev option \<times> u8 list) option" where
  "serve ops mem_copy mem_set dev (Write t0 t1 b buf) =
     map_option (\<lambda>(ec, dev). (ec, dev, [])) (blkdev_write ops mem_copy t0 t1 (Some dev) b buf)"
| "serve ops mem_copy mem_set dev (Read t0 t1 b buf) = blkdev_read ops mem_copy mem_set t0 t1 (Some dev) b buf"
| "serve ops mem_copy mem_set dev (Flush now) =
     map_option (\<lambda>(ec, dev). (ec, dev, [])) (blkdev_flush ops now badge_err_ok (Some dev))"
| "serve ops mem_copy mem_set dev (Housekeeping now clock) =
     map_option (\<lambda>(ec, dev). (ec, dev, [])) (blkdev_housekeeping ops now clock badge_err_ok (Some dev))"

fun serve_all :: "'d blkdev_ops \<Rightarrow> mem_copy_fn \<Rightarrow> (u8 list \<Rightarrow> u8 \<Rightarrow> nat \<Rightarrow> u8 list) \<Rightarrow> 'd blkdev \<Rightarrow> blkdev_request list \<Rightarrow>
    ((badge_err \<times> u8 list) list \<times> 'd blkdev) option" where
  "serve_all ops mem_copy mem_set dev [] = Some ([], dev)"
| "serve_all ops mem_copy mem_set dev (r # rs) =
     (case serve ops mem_copy mem_set dev r of
        Some (ec, Some dev', out) \<Rightarrow>
          map_option (\<lambda>(outs, dev''). ((ec, out) # outs, dev'')) (serve_all ops mem_copy mem_set dev' rs)
      | _ \<Rightarrow> None)"

fun disk_serve :: "(u64 \<Rightarrow> u8 list option) \<Rightarrow> blkdev_request \<Rightarrow> (u64 \<Rightarrow> u8 list option) \<times> u8 list" where
  "disk_serve disk (Write t0 t1 b buf) = (disk(b \<mapsto> buf), [])"
| "disk_serve disk (Read t0 t1 b buf) = (disk, the (disk b))"
| "disk_serve disk (Flush now) = (disk, [])"
| "disk_serve disk (Housekeeping now clock) = (disk, [])"

fun disk_serve_all :: "(u64 \<Rightarrow> u8 list option) \<Rightarrow> blkdev_request list \<Rightarrow> u8 list list \<times> (u64 \<Rightarrow> u8 list option)" where
  "disk_serve_all disk [] = ([], disk)"
| "disk_serve_all disk (r # rs) =
     (let (disk', out) = disk_serve disk r; (outs, disk'') = disk_serve_all disk' rs in (out # outs, disk''))"

fun request_ok :: "u64 \<Rightarrow> u64 \<Rightarrow> blkdev_request \<Rightarrow> bool" where
  "request_ok n bs (Write t0 t1 b buf) = (b < n \<and> length buf = unat bs)"
| "request_ok n bs (Read t0 t1 b buf) = (b < n \<and> length buf = unat bs)"
| "request_ok n bs (Flush now) = True"
| "request_ok n bs (Housekeeping now clock) = True"

lemma same_device_refl [simp]: "same_device dev dev"
  by (simp add: same_device_def)

lemma same_device_trans: "same_device a b \<Longrightarrow> same_device b c \<Longrightarrow> same_device a c"
  by (simp add: same_device_def)

text \<open>What every request keeps of a device with a write cache.\<close>

definition served :: "('d blkdev \<Rightarrow> u64 \<Rightarrow> u8 list) \<Rightarrow> ('d blkdev \<Rightarrow> bool) \<Rightarrow> 'd blkdev \<Rightarrow> (u64 \<Rightarrow> u8 list option) \<Rightarrow> 'd blkdev \<Rightarrow> bool" where
  "served content dev_ok dev disk dev' \<longleftrightarrow>
     blkdev_inv content dev_ok dev' \<and> write_cache dev' \<and> blkdev_disk content dev' = disk \<and> same_device dev dev'"

lemma write_cacheD:
  assumes "write_cache dev" and "blkdev_inv content dev_ok dev"
  obtains c where "cache dev = Some c" "\<not> readonly dev" "\<not> cache_read dev" "cache_inv content dev c"
    "\<And>i. i < cache_depth c \<Longrightarrow> present (block_flags c ! i) \<Longrightarrow> dirty (block_flags c ! i) \<and> \<not> erase (block_flags c ! i)"
  using assms by (auto simp: write_cache_def blkdev_inv_def cache_inv_def split: option.splits)

context blkdev_layer begin

lemma flush_served:
  assumes inv: "blkdev_inv content dev_ok dev" and wc: "write_cache dev" and dev: "cache dev = Some c"
    and i: "i < cache_depth c" and p: "present (block_flags c ! i)"
  shows "\<exists>dev'. blkdev_flush_cache ops now ec dev i = Some (badge_err_ok, dev') \<and>
    served content dev_ok dev (blkdev_disk content dev) dev' \<and> cache dev' = Some (flush_entry now False i c) \<and>
    (\<forall>b' < blocks dev. content dev' b' = (if b' = index (block_flags c ! i) then entry_bytes dev c i else content dev b'))"
proof -
  from wc inv have f: "dirty (block_flags c ! i)" "\<not> erase (block_flags c ! i)" and cr: "\<not> cache_read dev"
    using dev i p by (auto elim!: write_cacheD)
  obtain dev' where d: "blkdev_flush_cache ops now ec dev i = Some (badge_err_ok, dev')" "blkdev_inv content dev_ok dev'"
    "blkdev_disk content dev' = blkdev_disk content dev" "same_device dev dev'"
    "cache dev' = Some (flush_entry now (cache_read dev) i c)"
    "\<forall>b' < blocks dev. content dev' b' = (if b' = index (block_flags c ! i) then entry_bytes dev c i else content dev b')"
    by (rule flush_cache_disk[OF inv dev i p f])
  have "write_cache dev'"
    by (rule write_cache_update[OF wc dev d(5) d(4), where f = "flushed_flags now (cache_read dev) (block_flags c ! i)"]) (simp_all add: cr)
  then show ?thesis using d cr by (auto simp: served_def)
qed

lemma flush_loop_served:
  assumes inv: "blkdev_inv content dev_ok dev" and wc: "write_cache dev" and dev: "cache dev = Some c"
  shows "i + length fs = cache_depth c \<Longrightarrow> fs = drop i (block_flags c) \<Longrightarrow>
    \<exists>dev'. flush_loop ops now badge_err_ok dev fs i = Some (badge_err_ok, dev') \<and> served content dev_ok dev (blkdev_disk content dev) dev'"
proof (induction fs arbitrary: i)
  case Nil
  then show ?case using inv wc by (simp add: served_def)
next
  case (Cons f fs)
  have i: "i < cache_depth c" using Cons.prems(1) by simp
  have f: "f = block_flags c ! i" and fs: "fs = drop (Suc i) (block_flags c)"
    using Cons.prems(2) by (metis drop_eq_Nil2 list.inject Cons_nth_drop_Suc leI list.distinct(1))+
  show ?case
  proof (cases "present f \<and> (dirty f \<or> erase f)")
    case True
    then show ?thesis using flush_served[OF inv wc dev i, of now badge_err_ok] f by auto
  next
    case False
    then show ?thesis using Cons.IH[of "Suc i"] Cons.prems(1) fs by auto
  qed
qed

lemma housekeeping_loop_served:
  "blkdev_inv content dev_ok dev \<Longrightarrow> write_cache dev \<Longrightarrow> cache dev = Some c \<Longrightarrow> \<forall>i \<in> set is. i < cache_depth c \<Longrightarrow>
    \<exists>dev'. housekeeping_loop ops clock timeout badge_err_ok dev is = Some (badge_err_ok, dev') \<and>
      served content dev_ok dev (blkdev_disk content dev) dev'"
proof (induction "is" arbitrary: dev c)
  case Nil
  then show ?case by (simp add: served_def)
next
  case (Cons i "is")
  show ?case
  proof (cases "blkdev_is_dirty (block_flags c ! i) \<and> update_time (block_flags c ! i) < timeout")
    case True
    then obtain d where d: "blkdev_flush_cache ops (clock i) badge_err_ok dev i = Some (badge_err_ok, d)"
      "served content dev_ok dev (blkdev_disk content dev) d" "cache d = Some (flush_entry (clock i) False i c)"
      using flush_served[OF Cons.prems(1-3), of i "clock i" badge_err_ok] Cons.prems(4) by (auto simp: blkdev_is_dirty_def)
    obtain dev' where "housekeeping_loop ops clock timeout badge_err_ok d is = Some (badge_err_ok, dev')"
      "served content dev_ok d (blkdev_disk content d) dev'"
      using Cons.IH[of d "flush_entry (clock i) False i c"] d(2,3) Cons.prems(4) by (auto simp: served_def)
    then show ?thesis
      using True d Cons.prems(3) by (auto simp: served_def intro: same_device_trans)
  next
    case False
    then show ?thesis using Cons.IH[OF Cons.prems(1-3)] Cons.prems(3,4) by (auto simp: Let_def)
  qed
qed

lemma serve_served:
  assumes inv: "blkdev_inv content dev_ok dev" and wc: "write_cache dev" and ok: "request_ok (blocks dev) (block_size dev) r"
  shows "\<exists>dev'. serve ops mem_copy mem_set dev r = Some (badge_err_ok, Some dev', snd (disk_serve (blkdev_disk content dev) r)) \<and>
    served content dev_ok dev (fst (disk_serve (blkdev_disk content dev) r)) dev'"
proof -
  from wc inv obtain c where c: "cache dev = Some c" "\<not> readonly dev" "cache_inv content dev c" by (auto elim: write_cacheD)
  have len: "length (block_flags c) = cache_depth c" using c(3) by (simp add: cache_inv_def)
  show ?thesis
  proof (cases r)
    case (Write t0 t1 b buf)
    then have b: "b < blocks dev" "length buf = unat (block_size dev)" using ok by simp_all
    obtain dev' where d: "blkdev_write ops mem_copy t0 t1 (Some dev) b buf = Some (badge_err_ok, Some dev')"
      "blkdev_inv content dev_ok dev'" "blkdev_disk content dev' = (blkdev_disk content dev)(b \<mapsto> buf)"
      by (rule write_disk[OF inv c(1,2) write_cache_fresh[OF wc] b])
    then show ?thesis using write_frame[OF inv c(1,2) b d(1)] wc Write by (simp add: served_def)
  next
    case (Read t0 t1 b buf)
    then have b: "b < blocks dev" "length buf = unat (block_size dev)" using ok by simp_all
    obtain dev' where "blkdev_read ops mem_copy mem_set t0 t1 (Some dev) b buf = Some (badge_err_ok, Some dev', blkdev_view content dev b)"
      "write_cache dev \<longrightarrow> dev' = dev"
      by (rule read_disk[OF inv c(1) write_cache_none_erased[OF wc] write_cache_fresh[OF wc] b])
    then show ?thesis using Read inv wc b by (simp add: served_def blkdev_disk_def)
  next
    case (Flush now)
    moreover obtain dev' where "flush_loop ops now badge_err_ok dev (block_flags c) 0 = Some (badge_err_ok, dev')"
      "served content dev_ok dev (blkdev_disk content dev) dev'"
      using flush_loop_served[OF inv wc c(1), of 0 "block_flags c" now] len by auto
    ultimately show ?thesis using c len by (intro exI[of _ dev']) (simp add: blkdev_flush_def)
  next
    case (Housekeeping now clock)
    moreover obtain dev' where
      "housekeeping_loop ops clock (now - BLKDEV_WRITE_CACHE_TIMEOUT) badge_err_ok dev [0..<cache_depth c] = Some (badge_err_ok, dev')"
      "served content dev_ok dev (blkdev_disk content dev) dev'"
      using housekeeping_loop_served[OF inv wc c(1), of "[0..<cache_depth c]" clock] by auto
    ultimately show ?thesis using c by (intro exI[of _ dev']) (simp add: blkdev_housekeeping_def)
  qed
qed

lemma serve_all_served:
  "blkdev_inv content dev_ok dev \<Longrightarrow> write_cache dev \<Longrightarrow> \<forall>r \<in> set rs. request_ok (blocks dev) (block_size dev) r \<Longrightarrow>
    \<exists>dev'. serve_all ops mem_copy mem_set dev rs =
        Some (map (Pair badge_err_ok) (fst (disk_serve_all (blkdev_disk content dev) rs)), dev') \<and>
      served content dev_ok dev (snd (disk_serve_all (blkdev_disk content dev) rs)) dev'"
proof (induction rs arbitrary: dev)
  case Nil
  then show ?case by (simp add: served_def)
next
  case (Cons r rs)
  obtain d where d: "serve ops mem_copy mem_set dev r = Some (badge_err_ok, Some d, snd (disk_serve (blkdev_disk content dev) r))"
    "served content dev_ok dev (fst (disk_serve (blkdev_disk content dev) r)) d"
    using serve_served[OF Cons.prems(1,2), of r mem_set] Cons.prems(3) by auto
  moreover obtain dev' where "serve_all ops mem_copy mem_set d rs =
      Some (map (Pair badge_err_ok) (fst (disk_serve_all (blkdev_disk content d) rs)), dev')"
    "served content dev_ok d (snd (disk_serve_all (blkdev_disk content d) rs)) dev'"
    using Cons.IH[of d] d(2) Cons.prems(3) by (auto simp: served_def same_device_def)
  ultimately show ?case by (auto simp: served_def split_beta Let_def intro: same_device_trans)
qed

end

section \<open>The RAM device\<close>

definition ram_content :: "u8 list blkdev \<Rightarrow> u64 \<Rightarrow> u8 list" where
  "ram_content dev b = take (unat (block_size dev)) (drop (unat b * unat (block_size dev)) (cookie dev))"

definition ram_ok :: "u8 list blkdev \<Rightarrow> bool" where
  "ram_ok dev \<longleftrightarrow> length (cookie dev) = unat (blocks dev) * unat (block_size dev) \<and> length (cookie dev) < 2 ^ 62"

text \<open>The operations of the RAM device, with its own reads and writes as the uncached ones.\<close>

definition ram_ops :: "mem_copy_fn \<Rightarrow> u8 list blkdev_ops" where
  "ram_ops mem_copy = blkdev_ram_vtable mem_copy (blkdev_ram_write mem_copy) (blkdev_ram_read mem_copy) blkdev_ram_erase"

lemma ram_address:
  assumes ok: "ram_ok dev" and b: "b < blocks dev"
  shows "unat (b * block_size dev) = unat b * unat (block_size dev)"
    and "unat b * unat (block_size dev) + unat (block_size dev) \<le> length (cookie dev)"
    and "length (cookie dev) < 2 ^ 62" and "unat (block_size dev) < 2 ^ 62"
proof -
  have "Suc (unat b) * unat (block_size dev) \<le> unat (blocks dev) * unat (block_size dev)"
    using b by (intro mult_le_mono1) (simp add: word_less_nat_alt)
  then show le: "unat b * unat (block_size dev) + unat (block_size dev) \<le> length (cookie dev)"
    using ok by (simp add: ram_ok_def)
  show lt: "length (cookie dev) < 2 ^ 62" using ok unfolding ram_ok_def by blast
  show "unat (block_size dev) < 2 ^ 62" using le lt by linarith
  have "(2::nat) ^ 62 < 2 ^ 64" by simp
  then have "unat b * unat (block_size dev) < 2 ^ 64" using le lt by linarith
  then show "unat (b * block_size dev) = unat b * unat (block_size dev)" by (simp add: unat_mult_lem[symmetric])
qed

lemma ram_write_ok:
  assumes mc: "mem_copier mem_copy" and ok: "ram_ok dev" and b: "b < blocks dev" and buf: "length buf = unat (block_size dev)"
  shows "\<exists>d. blkdev_ram_write mem_copy dev b buf = (badge_err_ok, dev\<lparr>cookie := d\<rparr>) \<and> ram_ok (dev\<lparr>cookie := d\<rparr>) \<and>
    (\<forall>b' < blocks dev. ram_content (dev\<lparr>cookie := d\<rparr>) b' = (if b' = b then buf else ram_content dev b'))"
proof -
  note a = ram_address[OF ok b]
  let ?bs = "unat (block_size dev)"
  let ?d = "take (unat b * ?bs) (cookie dev) @ buf @ drop (unat b * ?bs + ?bs) (cookie dev)"
  have d: "mem_copy (cookie dev) (unat b * ?bs) buf 0 ?bs = ?d"
    using mem_copier.mem_copy_eq[OF mc a(2), of 0 buf] a buf by simp
  have n: "length (cookie dev) = unat (blocks dev) * ?bs" using ok by (simp add: ram_ok_def)
  have "length ?d = length (cookie dev)" using length_block_put[OF buf n] b by (simp add: word_less_nat_alt)
  then have "ram_ok (dev\<lparr>cookie := ?d\<rparr>)" using ok by (simp add: ram_ok_def)
  moreover have "ram_content (dev\<lparr>cookie := ?d\<rparr>) b' = (if b' = b then buf else ram_content dev b')" if "b' < blocks dev" for b'
    using block_get_put[OF buf n, of "unat b" "unat b'"] b that by (simp add: ram_content_def word_less_nat_alt word_unat_eq_iff)
  moreover have "blkdev_ram_write mem_copy dev b buf = (badge_err_ok, dev\<lparr>cookie := ?d\<rparr>)"
    using d by (simp add: blkdev_ram_write_def blkdev_impl_get_cookie_def blkdev_get_block_size_def a(1))
  ultimately show ?thesis by (intro exI[of _ ?d]) simp
qed

lemma ram_read_ok:
  assumes mc: "mem_copier mem_copy" and ok: "ram_ok dev" and b: "b < blocks dev" and buf: "length buf = unat (block_size dev)"
  shows "blkdev_ram_read mem_copy dev b buf = (badge_err_ok, ram_content dev b)"
proof -
  note a = ram_address[OF ok b]
  have "mem_copy buf 0 (cookie dev) (unat b * unat (block_size dev)) (unat (block_size dev)) = ram_content dev b"
    using mem_copier.mem_copy_eq[OF mc, of 0 "unat (block_size dev)" buf] a buf by (simp add: ram_content_def)
  then show ?thesis by (simp add: blkdev_ram_read_def blkdev_impl_get_cookie_def blkdev_get_block_size_def a(1))
qed

lemma ram_layer: "mem_copier mem_copy \<Longrightarrow> blkdev_layer (ram_ops mem_copy) ram_content ram_ok mem_copy"
proof (intro blkdev_layer.intro blkdev_driver.intro)
  fix dev :: "u8 list blkdev" and b
  show "ram_ok dev \<Longrightarrow> b < blocks dev \<Longrightarrow> length (ram_content dev b) = unat (block_size dev)"
    using ram_address(2)[of dev b] by (simp add: ram_content_def)
  show "ram_content (dev\<lparr>cache := c\<rparr>) = ram_content dev" for c by (simp add: ram_content_def fun_eq_iff)
  show "ram_ok (dev\<lparr>cache := c\<rparr>) = ram_ok dev" for c by (simp add: ram_ok_def)
qed (simp_all add: ram_ops_def blkdev_ram_vtable_def ram_read_ok ram_write_ok)

interpretation ram: blkdev_layer "ram_ops memmove_objects" ram_content ram_ok memmove_objects
  by (rule ram_layer) (rule memmove.mem_copier_axioms)

section \<open>Aged entries\<close>

lemma alloc_cache_loop_aged:
  "\<forall>f \<in> set fs. present f \<and> index f \<noteq> b \<and> \<not> blkdev_is_dirty f \<Longrightarrow> (\<exists>f \<in> set fs. update_time f < t) \<or> r \<noteq> None \<Longrightarrow>
    \<exists>i. alloc_cache_loop fs b k t r = Some i \<and> (r = Some i \<or> k \<le> i \<and> i < k + length fs)"
proof (induction fs arbitrary: k t r)
  case (Cons f fs)
  show ?case
  proof (cases "update_time f < t")
    case True
    then show ?thesis using Cons.IH[of "update_time f" "Some k" "k + 1"] Cons.prems(1) by fastforce
  next
    case False
    then show ?thesis using Cons.IH[of t r "k + 1"] Cons.prems by fastforce
  qed
qed auto

section \<open>Properties\<close>

lemma all_less_2: "(\<forall>i < (2::nat). P i) \<longleftrightarrow> P 0 \<and> P 1"
  "(\<forall>i < Suc (Suc 0). P i) \<longleftrightarrow> P 0 \<and> P 1"
  by (auto simp: less_Suc_eq less_2_cases_iff)

definition mem_fill :: "u8 list \<Rightarrow> u8 \<Rightarrow> nat \<Rightarrow> u8 list" where
  "mem_fill buf v n = replicate n v @ drop n buf"

text \<open>A RAM device of four blocks of two bytes with an empty cache of two entries, for the witnesses.\<close>

definition ram_example :: "bool \<Rightarrow> u8 list blkdev" where
  "ram_example cache_reads = \<lparr>block_size = 2, blocks = 4, readonly = False, cache_read = cache_reads,
     cache = Some \<lparr>block_cache = [0, 0, 0, 0], block_flags = [zero_flags, zero_flags], cache_depth = 2\<rparr>,
     cookie = [1, 2, 3, 4, 5, 6, 7, 8]\<rparr>"

lemma ram_example_inv: "blkdev_inv ram_content ram_ok (ram_example r)"
  by (simp add: ram_example_def blkdev_inv_def ram_ok_def cache_inv_def flags_inv_def zero_flags_def all_less_2)

text \<open>
  C1: a device whose cache only delays writes behaves, for every sequence of writes, reads, flushes
  and housekeeping calls inside the device, as the disk without a cache: no call fails, every read
  returns what the disk holds, and the final disk is the one the plain writes produce. This holds
  for every driver that reads and writes its blocks.
\<close>

theorem blkdev_write_cache_refines:
  assumes "blkdev_layer ops content dev_ok mem_copy" and "blkdev_inv content dev_ok dev" and "write_cache dev"
    and "\<forall>r \<in> set rs. request_ok (blocks dev) (block_size dev) r"
  shows "\<exists>dev'. serve_all ops mem_copy mem_set dev rs =
        Some (map (Pair badge_err_ok) (fst (disk_serve_all (blkdev_disk content dev) rs)), dev') \<and>
      blkdev_inv content dev_ok dev' \<and> blkdev_disk content dev' = snd (disk_serve_all (blkdev_disk content dev) rs)"
  using blkdev_layer.serve_all_served[OF assms, of mem_set] unfolding served_def by blast

theorem blkdev_write_cache_refines_witness:
  "\<exists>dev'. serve_all (ram_ops memmove_objects) memmove_objects mem_fill (ram_example False)
      [Write 0 0 1 [9, 9], Write 0 0 2 [7, 7], Write 0 0 3 [8, 8], Flush 5, Read 6 6 1 [0, 0], Housekeeping 2000000 (\<lambda>_. 2000001), Read 7 7 2 [0, 0]] =
      Some (map (Pair badge_err_ok) [[], [], [], [], [9, 9], [], [7, 7]], dev')"
proof -
  let ?rs = "[Write 0 0 1 [9, 9], Write 0 0 2 [7, 7], Write 0 0 3 [8, 8], Flush 5, Read 6 6 1 [0, 0], Housekeeping 2000000 (\<lambda>_. 2000001), Read 7 7 2 [0, 0]]"
  have wc: "write_cache (ram_example False)" by (simp add: write_cache_def ram_example_def zero_flags_def)
  have ok: "\<forall>r \<in> set ?rs. request_ok (blocks (ram_example False)) (block_size (ram_example False)) r"
    by (simp add: ram_example_def)
  have out: "fst (disk_serve_all (blkdev_disk ram_content (ram_example False)) ?rs) = [[], [], [], [], [9, 9], [], [7, 7]]"
    by simp
  show ?thesis
    using blkdev_write_cache_refines[OF ram.blkdev_layer_axioms ram_example_inv wc ok, of mem_fill] unfolding out by blast
qed

text \<open>
  C13: with read caching too, a read returns what the disk holds at the block and a write replaces
  exactly that block, whichever entry the search picks, as long as no block is marked erased and no
  clean entry is older than the read-cache timeout.
\<close>

theorem blkdev_read_write_refine:
  assumes "blkdev_layer ops content dev_ok mem_copy" and "blkdev_inv content dev_ok dev" and "cache dev = Some c"
    and "\<not> readonly dev" and "none_erased dev" and "fresh_reads t0 dev"
    and "b < blocks dev" and "length buf = unat (block_size dev)"
  shows "(\<exists>dev'. blkdev_read ops mem_copy mem_set t0 t1 (Some dev) b buf = Some (badge_err_ok, Some dev', the (blkdev_disk content dev b)) \<and>
        blkdev_inv content dev_ok dev' \<and> blkdev_disk content dev' = blkdev_disk content dev) \<and>
    (\<exists>dev'. blkdev_write ops mem_copy t0 t1 (Some dev) b buf = Some (badge_err_ok, Some dev') \<and>
        blkdev_inv content dev_ok dev' \<and> blkdev_disk content dev' = (blkdev_disk content dev)(b \<mapsto> buf))"
proof
  have "the (blkdev_disk content dev b) = blkdev_view content dev b" using assms(7) by (simp add: blkdev_disk_def)
  then show "\<exists>dev'. blkdev_read ops mem_copy mem_set t0 t1 (Some dev) b buf = Some (badge_err_ok, Some dev', the (blkdev_disk content dev b)) \<and>
      blkdev_inv content dev_ok dev' \<and> blkdev_disk content dev' = blkdev_disk content dev"
    using blkdev_layer.read_disk[OF assms(1,2,3,5,6,7,8), of mem_set t1] by metis
  show "\<exists>dev'. blkdev_write ops mem_copy t0 t1 (Some dev) b buf = Some (badge_err_ok, Some dev') \<and>
      blkdev_inv content dev_ok dev' \<and> blkdev_disk content dev' = (blkdev_disk content dev)(b \<mapsto> buf)"
    using blkdev_layer.write_disk[OF assms(1,2,3,4,6,7,8), of t1] by metis
qed

theorem blkdev_read_write_refine_witness:
  "\<exists>dev'. blkdev_read (ram_ops memmove_objects) memmove_objects mem_fill 3 4 (Some (ram_example True)) 2 [0, 0] =
      Some (badge_err_ok, Some dev', [5, 6])"
proof -
  have v: "the (blkdev_disk ram_content (ram_example True) 2) = [5, 6]"
    by (simp add: blkdev_disk_def ram_example_def blkdev_view_def blkdev_find_cache_def zero_flags_def ram_content_def)
  show ?thesis
    using blkdev_read_write_refine[OF ram.blkdev_layer_axioms ram_example_inv[of True], where b = 2 and buf = "[0, 0]" and
        mem_set = mem_fill and ?t0.0 = 3 and ?t1.0 = 4 and c = "the (cache (ram_example True))"] v
    by (auto simp: ram_example_def none_erased_def fresh_reads_def no_aged_def zero_flags_def)
qed

text \<open>
  C21: the search hands out aged read entries without evicting them. When every entry is a clean copy
  of some other block and one is older than the read-cache timeout, a read of block \<open>b\<close> succeeds and
  returns the cached bytes of a different block.
\<close>

theorem blkdev_read_stale:
  assumes "mem_copier mem_copy" and "cache_inv content dev c" and "cache dev = Some c"
    and "\<forall>f \<in> set (block_flags c). present f \<and> index f \<noteq> b \<and> \<not> blkdev_is_dirty f"
    and "\<exists>f \<in> set (block_flags c). update_time f < t0 - BLKDEV_READ_CACHE_TIMEOUT"
    and "b < blocks dev" and "length buf = unat (block_size dev)"
  shows "\<exists>dev' i. i < cache_depth c \<and> index (block_flags c ! i) \<noteq> b \<and>
    blkdev_read ops mem_copy mem_set t0 t1 (Some dev) b buf =
      Some (badge_err_ok, Some dev', content dev (index (block_flags c ! i)))"
proof -
  have len: "length (block_flags c) = cache_depth c" using assms(2) by (simp add: cache_inv_def)
  then obtain i where i: "blkdev_alloc_cache t0 dev b = Some i" "i < cache_depth c"
    using alloc_cache_loop_aged[OF assms(4), of "t0 - BLKDEV_READ_CACHE_TIMEOUT" None 0] assms(3,5)
    by (auto simp: blkdev_alloc_cache_def)
  have f: "present (block_flags c ! i)" "index (block_flags c ! i) \<noteq> b" "\<not> blkdev_is_dirty (block_flags c ! i)"
    using assms(4) i(2) len by (simp_all add: nth_mem)
  have "mem_copy buf 0 (block_cache c) (i * unat (block_size dev)) (unat (block_size dev)) = entry_bytes dev c i"
    using mem_copier.mem_copy_eq[OF assms(1), of 0 "unat (block_size dev)" buf] entry_range[OF assms(2) i(2)] assms(7)
    by (simp add: entry_bytes_def)
  moreover have "entry_bytes dev c i = content dev (index (block_flags c ! i))" using assms(2) f i(2) by (simp add: cache_inv_def)
  moreover have "\<not> erase (block_flags c ! i)" "\<not> blocks dev \<le> b" using f assms(6) by (auto simp: blkdev_is_dirty_def)
  ultimately show ?thesis using i f assms(3) by (auto simp: blkdev_read_def Let_def)
qed

definition ram_stale :: "u8 list blkdev" where
  "ram_stale = (ram_example True)\<lparr>cache := Some \<lparr>block_cache = [1, 2],
     block_flags = [\<lparr>update_time = 0, index = 0, present = True, erase = False, dirty = False\<rparr>], cache_depth = 1\<rparr>\<rparr>"

theorem blkdev_read_stale_witness:
  "\<exists>dev'. blkdev_read (ram_ops memmove_objects) memmove_objects mem_fill 1000001 1000002 (Some ram_stale) 1 [0, 0] =
      Some (badge_err_ok, Some dev', [1, 2])"
proof -
  let ?c = "the (cache ram_stale)"
  have "cache_inv ram_content ram_stale ?c"
    by (simp add: cache_inv_def ram_stale_def ram_example_def flags_inv_def entry_bytes_def ram_content_def)
  from blkdev_read_stale[OF memmove.mem_copier_axioms this, where b = 1 and buf = "[0, 0]" and ?t0.0 = 1000001 and
      ?t1.0 = 1000002 and ops = "ram_ops memmove_objects" and mem_set = mem_fill]
  show ?thesis
    by (auto simp: ram_stale_def ram_example_def blkdev_is_dirty_def BLKDEV_READ_CACHE_TIMEOUT_def ram_content_def)
qed

text \<open>
  C22: removing the cache of a device loses writes. A flush stops after the first entry it writes, so
  when two entries wait to be written, \<^verbatim>\<open>blkdev_delete_cache\<close> reports success and the disk no
  longer holds what was written to the second block.
\<close>

theorem blkdev_delete_cache_loses:
  assumes "blkdev_layer ops content dev_ok mem_copy" and "blkdev_inv content dev_ok dev" and "write_cache dev"
    and "cache dev = Some c" and "1 < cache_depth c"
    and "present (block_flags c ! 0)" and "present (block_flags c ! 1)"
    and "entry_bytes dev c 1 \<noteq> content dev (index (block_flags c ! 1))"
  shows "\<exists>dev'. blkdev_delete_cache ops now ec (Some dev) = Some (badge_err_ok, Some dev') \<and>
    blkdev_disk content dev (index (block_flags c ! 1)) = Some (entry_bytes dev c 1) \<and>
    blkdev_disk content dev' (index (block_flags c ! 1)) = Some (content dev (index (block_flags c ! 1)))"
proof -
  have ci: "cache_inv content dev c" and len: "length (block_flags c) = cache_depth c"
    using assms(2,4) by (simp_all add: blkdev_inv_def cache_inv_def)
  obtain f0 f1 fs where fs: "block_flags c = f0 # f1 # fs" using len assms(5) by (cases "block_flags c"; cases "tl (block_flags c)") auto
  have d: "dirty f0" "\<not> erase f1" "\<not> readonly dev" using assms(3,4,6,7) fs by (auto simp: write_cache_def)
  note b = cache_inv_other[OF ci _ assms(7)]
  obtain dev' where dev': "blkdev_flush_cache ops now ec dev 0 = Some (badge_err_ok, dev')"
    "served content dev_ok dev (blkdev_disk content dev) dev'"
    "\<forall>b' < blocks dev. content dev' b' = (if b' = index (block_flags c ! 0) then entry_bytes dev c 0 else content dev b')"
    using blkdev_layer.flush_served[OF assms(1-4), of 0 now ec] assms(5,6) by auto
  have "blkdev_delete_cache ops now ec (Some dev) = Some (badge_err_ok, Some (dev'\<lparr>cache := None\<rparr>))"
    using dev'(1) d assms(4,6) fs len assms(5) by (simp add: blkdev_delete_cache_def blkdev_flush_def)
  moreover have "blkdev_disk content dev (index f1) = Some (entry_bytes dev c 1)"
    using blkdev_view_cached[OF assms(4) ci assms(5), of "index f1"] b(1) assms(5,7) fs d by (simp add: blkdev_disk_def holds_block_def)
  moreover have "index f0 \<noteq> index f1" using spec[OF b(2)[OF assms(5)], of 0] assms(5,6) fs by (auto simp: holds_block_def)
  then have "content dev' (index f1) = content dev (index f1)" using dev'(3) b(1) assms(5) fs by simp
  then have "blkdev_disk content (dev'\<lparr>cache := None\<rparr>) (index f1) = Some (content dev (index f1))"
    using dev'(2) b(1) assms(5) fs blkdev_driver.content_cache[OF blkdev_layer.axioms(1)[OF assms(1)], where dev = dev' and c = None]
    by (simp add: blkdev_disk_def served_def same_device_def blkdev_view_def)
  ultimately show ?thesis using fs by simp
qed

definition ram_pending :: "u8 list blkdev" where
  "ram_pending = (ram_example False)\<lparr>cache := Some \<lparr>block_cache = [9, 9, 7, 7],
     block_flags = [\<lparr>update_time = 0, index = 0, present = True, erase = False, dirty = True\<rparr>,
       \<lparr>update_time = 0, index = 1, present = True, erase = False, dirty = True\<rparr>], cache_depth = 2\<rparr>\<rparr>"

theorem blkdev_delete_cache_loses_witness:
  "\<exists>dev'. blkdev_delete_cache (ram_ops memmove_objects) 5 badge_err_ok (Some ram_pending) = Some (badge_err_ok, Some dev') \<and>
    blkdev_disk ram_content ram_pending 1 = Some [7, 7] \<and> blkdev_disk ram_content dev' 1 = Some [3, 4]"
proof -
  let ?c = "the (cache ram_pending)"
  have inv: "blkdev_inv ram_content ram_ok ram_pending"
    by (simp add: blkdev_inv_def ram_ok_def cache_inv_def ram_pending_def ram_example_def flags_inv_def blkdev_is_dirty_def
        all_less_2)
  have wc: "write_cache ram_pending" by (simp add: write_cache_def ram_pending_def ram_example_def)
  from blkdev_delete_cache_loses[OF ram.blkdev_layer_axioms inv wc, where c = ?c and now = 5 and ec = badge_err_ok]
  show ?thesis by (simp add: ram_pending_def ram_example_def entry_bytes_def ram_content_def)
qed

end
