(* ===== verification/Ring_List.thy ===== *)
theory Ring_List
  imports Badger_Prelude
begin

text \<open>
  The circular doubly linked lists of the allocators (\<^verbatim>\<open>kernel/src/malloc/slab-alloc.c\<close>, and with a
  membership flag in \<^verbatim>\<open>static-buddy.c\<close>). The links live in the entries and the list heads, so a
  store maps every node to its two neighbours. A list head and the entries it reaches represent a
  list; the lemmas show that each operation is the list operation it stands for, and that it leaves
  every other list of the same store alone.
\<close>

section \<open>Definitions\<close>

record 'n ring =
  ring_prev :: "'n \<Rightarrow> 'n"
  ring_next :: "'n \<Rightarrow> 'n"

definition list_init :: "'n \<Rightarrow> 'n ring \<Rightarrow> 'n ring" where
  "list_init list r = r\<lparr>ring_prev := (ring_prev r)(list := list), ring_next := (ring_next r)(list := list)\<rparr>"

definition list_push_back :: "'n \<Rightarrow> 'n \<Rightarrow> 'n ring \<Rightarrow> 'n ring" where
  "list_push_back list entry r =
     (let p = ring_prev r list;
          r = r\<lparr>ring_prev := (ring_prev r)(entry := p)\<rparr>;
          r = r\<lparr>ring_next := (ring_next r)(entry := list)\<rparr>;
          r = r\<lparr>ring_next := (ring_next r)(p := entry)\<rparr>
      in r\<lparr>ring_prev := (ring_prev r)(list := entry)\<rparr>)"

definition list_remove :: "'n \<Rightarrow> 'n ring \<Rightarrow> 'n ring" where
  "list_remove entry r =
     (let p = ring_prev r entry;
          n = ring_next r entry;
          r = r\<lparr>ring_next := (ring_next r)(p := n)\<rparr>
      in r\<lparr>ring_prev := (ring_prev r)(n := p)\<rparr>)"

definition list_empty :: "'n \<Rightarrow> 'n ring \<Rightarrow> bool" where
  "list_empty list r \<longleftrightarrow> ring_prev r list = list"

section \<open>The list a head represents\<close>

text \<open>\<open>linked r a xs b\<close>: from \<open>a\<close> the links lead through \<open>xs\<close> to \<open>b\<close>, in both directions.\<close>

fun linked :: "'n ring \<Rightarrow> 'n \<Rightarrow> 'n list \<Rightarrow> 'n \<Rightarrow> bool" where
  "linked r a [] b \<longleftrightarrow> ring_next r a = b \<and> ring_prev r b = a"
| "linked r a (x # xs) b \<longleftrightarrow> ring_next r a = x \<and> ring_prev r x = a \<and> linked r x xs b"

definition ring_at :: "'n ring \<Rightarrow> 'n \<Rightarrow> 'n list \<Rightarrow> bool" where
  "ring_at r h xs \<longleftrightarrow> linked r h xs h \<and> distinct (h # xs)"

lemma linked_append: "linked r a (xs @ y # ys) b \<longleftrightarrow> linked r a xs y \<and> linked r y ys b"
  by (induction xs arbitrary: a) auto

lemma linked_frame:
  assumes "\<And>x. x \<in> set (a # xs) \<Longrightarrow> ring_next r' x = ring_next r x" and "\<And>x. x \<in> set (b # xs) \<Longrightarrow> ring_prev r' x = ring_prev r x"
  shows "linked r' a xs b = linked r a xs b"
  using assms by (induction xs arbitrary: a) auto

lemma linked_last: "linked r a xs b \<Longrightarrow> ring_prev r b = last (a # xs)"
  by (induction xs arbitrary: a) auto

lemma linked_first: "linked r a xs b \<Longrightarrow> ring_next r a = hd (xs @ [b])"
  by (cases xs) auto

lemma ring_at_prev: "ring_at r h xs \<Longrightarrow> ring_prev r h = last (h # xs)"
  unfolding ring_at_def by (blast dest: linked_last)

lemma list_empty_iff: "ring_at r h xs \<Longrightarrow> list_empty h r \<longleftrightarrow> xs = []"
  using ring_at_prev[of r h xs] by (cases xs rule: rev_cases) (auto simp: list_empty_def ring_at_def)

lemma list_init_ring: "ring_at (list_init h r) h []"
  by (simp add: ring_at_def list_init_def)

lemma list_init_other: "ring_at r h' ys \<Longrightarrow> h \<notin> set (h' # ys) \<Longrightarrow> ring_at (list_init h r) h' ys"
  unfolding ring_at_def by (subst linked_frame) (auto simp: list_init_def)

lemma push_back_other:
  assumes "ring_at r h xs" and "ring_at r h' ys" and "set (h # xs) \<inter> set (h' # ys) = {}" and "e \<notin> set (h' # ys)"
  shows "ring_at (list_push_back h e r) h' ys"
proof -
  have "last (h # xs) \<in> set (h # xs)" by (rule last_in_set) simp
  then have "last (h # xs) \<notin> set (h' # ys)" "h \<notin> set (h' # ys)" using assms(3) by auto
  then show ?thesis
    using assms(2,4) ring_at_prev[OF assms(1)] unfolding ring_at_def
    by (subst linked_frame) (auto simp: list_push_back_def Let_def)
qed

lemma push_back_ring:
  assumes ring: "ring_at r h xs" and e: "e \<notin> set (h # xs)"
  shows "ring_at (list_push_back h e r) h (xs @ [e])"
proof (cases xs rule: rev_cases)
  case Nil
  then show ?thesis using ring e by (auto simp: ring_at_def list_push_back_def Let_def)
next
  case (snoc ys p)
  let ?r = "list_push_back h e r"
  have l: "linked r h ys p" "ring_prev r h = p" and d: "distinct (h # ys @ [p])"
    using ring snoc linked_append[of r h ys p "[]" h] by (auto simp: ring_at_def)
  have "linked ?r h ys p"
    using l(1) d e snoc by (subst linked_frame) (auto simp: list_push_back_def Let_def l(2))
  moreover have "linked ?r p [e] h"
    using d e snoc by (auto simp: list_push_back_def Let_def l(2))
  ultimately have "linked ?r h (ys @ [p] @ [e]) h" using linked_append[of ?r h ys p "[e]" h] by simp
  then show ?thesis using d e snoc by (auto simp: ring_at_def)
qed

lemma remove_ring:
  assumes ring: "ring_at r h (xs @ e # ys)"
  shows "ring_at (list_remove e r) h (xs @ ys)"
proof -
  let ?r = "list_remove e r" and ?p = "last (h # xs)" and ?n = "hd (ys @ [h])"
  have l: "linked r h xs e" "linked r e ys h" and d: "distinct (h # xs @ e # ys)"
    using ring by (auto simp: ring_at_def linked_append)
  have p: "ring_prev r e = ?p" and n: "ring_next r e = ?n" using linked_last[OF l(1)] linked_first[OF l(2)] by simp_all
  have r: "?r = r\<lparr>ring_next := (ring_next r)(?p := ?n), ring_prev := (ring_prev r)(?n := ?p)\<rparr>"
    unfolding list_remove_def Let_def p n by simp
  have right: "linked r' a ys h" if "linked r e ys h" "ring_next r' a = ?n" "ring_prev r' ?n = a"
    "\<And>x. x \<in> set ys \<Longrightarrow> ring_next r' x = ring_next r x" "\<And>x. x \<in> set (tl (ys @ [h])) \<Longrightarrow> ring_prev r' x = ring_prev r x" for r' a
  proof (cases ys)
    case (Cons y zs)
    then show ?thesis using that linked_frame[of y zs r' r h] by auto
  qed (use that in auto)
  have "linked ?r h (xs @ ys) h"
  proof (cases xs rule: rev_cases)
    case Nil
    show ?thesis unfolding Nil append_Nil
      by (rule right[OF l(2)]) (use d Nil in \<open>auto simp: r neq_Nil_conv split: if_splits\<close>, (cases ys; auto)+)
  next
    case (snoc zs p')
    have "linked r h zs p'" using l(1) snoc by (simp add: linked_append)
    then have "linked ?r h zs p'"
      by (subst linked_frame) (use d snoc in \<open>(cases ys; auto simp: r)+\<close>)
    moreover have "linked ?r p' ys h"
      by (rule right[OF l(2)]) (use d snoc in \<open>(cases ys; auto simp: r)+\<close>)
    ultimately show ?thesis using linked_append[of ?r h zs p' ys h] snoc by simp
  qed
  then show ?thesis using d by (auto simp: ring_at_def)
qed


section \<open>Families of lists\<close>

text \<open>\<open>rings H L r\<close>: in the store \<open>r\<close> every head \<open>h \<in> H\<close> represents the list \<open>L h\<close>, and no node is in two lists.\<close>

definition rings :: "'n set \<Rightarrow> ('n \<Rightarrow> 'n list) \<Rightarrow> 'n ring \<Rightarrow> bool" where
  "rings H L r \<longleftrightarrow> (\<forall>h \<in> H. ring_at r h (L h)) \<and>
     (\<forall>h \<in> H. \<forall>h' \<in> H. h \<noteq> h' \<longrightarrow> set (h # L h) \<inter> set (h' # L h') = {})"

lemma ringsD: "rings H L r \<Longrightarrow> h \<in> H \<Longrightarrow> ring_at r h (L h)"
  by (simp add: rings_def)

lemma rings_disjoint: "rings H L r \<Longrightarrow> h \<in> H \<Longrightarrow> h' \<in> H \<Longrightarrow> h \<noteq> h' \<Longrightarrow> set (h # L h) \<inter> set (h' # L h') = {}"
  unfolding rings_def by blast

lemma rings_distinct: "rings H L r \<Longrightarrow> h \<in> H \<Longrightarrow> distinct (h # L h)"
  using ringsD[of H L r h] by (simp add: ring_at_def)

lemma rings_unique: "rings H L r \<Longrightarrow> h \<in> H \<Longrightarrow> h' \<in> H \<Longrightarrow> e \<in> set (L h) \<Longrightarrow> e \<in> set (L h') \<Longrightarrow> h = h'"
  using rings_disjoint[of H L r h h'] by auto

lemma rings_heads: "rings H L r \<Longrightarrow> h \<in> H \<Longrightarrow> e \<in> set (L h) \<Longrightarrow> e \<notin> H"
proof
  assume *: "rings H L r" "h \<in> H" "e \<in> set (L h)" "e \<in> H"
  show False
  proof (cases "e = h")
    case True
    then show False using rings_distinct[OF *(1,2)] *(3) by simp
  next
    case False
    then show False using rings_disjoint[OF *(1,2,4)] *(3) by auto
  qed
qed

lemma rings_empty_iff: "rings H L r \<Longrightarrow> h \<in> H \<Longrightarrow> list_empty h r \<longleftrightarrow> L h = []"
  by (blast dest: ringsD list_empty_iff)

lemma rings_push_back:
  assumes rings: "rings H L r" and h: "h \<in> H" and e: "e \<notin> H" "\<And>h'. h' \<in> H \<Longrightarrow> e \<notin> set (L h')"
  shows "rings H (L(h := L h @ [e])) (list_push_back h e r)"
  unfolding rings_def
proof (intro conjI ballI impI)
  fix h' assume h': "h' \<in> H"
  have eh: "e \<notin> set (h' # L h')" "e \<notin> set (h # L h)" using e h h' by auto
  show "ring_at (list_push_back h e r) h' ((L(h := L h @ [e])) h')"
  proof (cases "h' = h")
    case True
    then show ?thesis using push_back_ring[OF ringsD[OF rings h] eh(2)] by simp
  next
    case False
    then show ?thesis
      using push_back_other[OF ringsD[OF rings h] ringsD[OF rings h'] rings_disjoint[OF rings h h'] eh(1)] by auto
  qed
next
  fix h1 h2 assume "h1 \<in> H" "h2 \<in> H" "h1 \<noteq> h2"
  then show "set (h1 # (L(h := L h @ [e])) h1) \<inter> set (h2 # (L(h := L h @ [e])) h2) = {}"
    using rings_disjoint[OF rings, of h1 h2] e by auto
qed

lemma remove_other:
  assumes "ring_at r h xs" and "e \<in> set xs" and "ring_at r h' ys" and "set (h # xs) \<inter> set (h' # ys) = {}"
  shows "ring_at (list_remove e r) h' ys"
proof -
  obtain us vs where xs: "xs = us @ e # vs" using assms(2) by (meson split_list)
  have l: "linked r h us e" "linked r e vs h" using assms(1) xs by (auto simp: ring_at_def linked_append)
  have "last (h # us) \<in> set (h # us)" "hd (vs @ [h]) \<in> set (vs @ [h])" by (rule last_in_set hd_in_set; simp)+
  then have "last (h # us) \<in> set (h # xs)" "hd (vs @ [h]) \<in> set (h # xs)" using xs by auto
  then have out: "last (h # us) \<notin> set (h' # ys)" "hd (vs @ [h]) \<notin> set (h' # ys)" using assms(4) by blast+
  have "ring_next (list_remove e r) x = ring_next r x" "ring_prev (list_remove e r) x = ring_prev r x" if "x \<in> set (h' # ys)" for x
    using that out linked_last[OF l(1)] linked_first[OF l(2)] by (auto simp: list_remove_def Let_def)
  then have "linked (list_remove e r) h' ys h' = linked r h' ys h'" by (intro linked_frame)
  then show ?thesis using assms(3) by (simp add: ring_at_def)
qed

lemma rings_remove:
  assumes rings: "rings H L r" and h: "h \<in> H" and e: "e \<in> set (L h)"
  shows "rings H (L(h := remove1 e (L h))) (list_remove e r)"
  unfolding rings_def
proof (intro conjI ballI impI)
  obtain us vs where L: "L h = us @ e # vs" using e by (meson split_list)
  have "remove1 e (L h) = us @ vs" using rings_distinct[OF rings h] L by (simp add: remove1_append)
  then have here: "ring_at (list_remove e r) h (remove1 e (L h))"
    using remove_ring[of r h us e vs] ringsD[OF rings h] L by simp
  fix h' assume h': "h' \<in> H"
  then show "ring_at (list_remove e r) h' ((L(h := remove1 e (L h))) h')"
    using here remove_other[OF ringsD[OF rings h] e ringsD[OF rings h']] rings_disjoint[OF rings h h'] by auto
next
  fix h1 h2 assume "h1 \<in> H" "h2 \<in> H" "h1 \<noteq> h2"
  then have "set (h1 # L h1) \<inter> set (h2 # L h2) = {}" by (rule rings_disjoint[OF rings])
  then show "set (h1 # (L(h := remove1 e (L h))) h1) \<inter> set (h2 # (L(h := remove1 e (L h))) h2) = {}"
    using set_remove1_subset[of e "L h"] by auto
qed

lemma rings_init: "(\<And>h. h \<in> H \<Longrightarrow> ring_prev r h = h \<and> ring_next r h = h) \<Longrightarrow> rings H (\<lambda>_. []) r"
  by (auto simp: rings_def ring_at_def)

text \<open>Walking a list from its head along the \<^verbatim>\<open>prev\<close> links visits its entries from the last to the first.\<close>

lemma ring_walk: "ring_at r h (xs @ x # ys) \<Longrightarrow> ring_prev r (hd (ys @ [h])) = x"
proof -
  assume "ring_at r h (xs @ x # ys)"
  then have "linked r x ys h" by (simp add: ring_at_def linked_append)
  then show ?thesis by (cases ys) auto
qed

lemma ring_walk_first: "ring_at r h xs \<Longrightarrow> ring_prev r (hd (xs @ [h])) = h"
  by (cases xs) (auto simp: ring_at_def)

end
