(* ===== verification/Buddy.thy ===== *)
theory Buddy
  imports Ring_List Bitops Mem_String
begin

text \<open>
  The page allocator, \<^verbatim>\<open>kernel/src/malloc/static-buddy.c\<close>. A pool keeps one block descriptor per page;
  the array of descriptors is a list that covers the cleared metadata memory from
  \<^verbatim>\<open>pool->blocks\<close> up to the first page, so reading a little past \<^verbatim>\<open>total_pages\<close> entries is
  defined when there is padding. An access past that memory, an index past the free lists and
  a panic have no result (\<open>None\<close>). Orders are natural numbers, as are block indices; the
  sums and differences of \<^verbatim>\<open>size_t\<close> are words. \<open>1 << order\<close> is taken without overflow where the
  source uses it as an index mask, which needs pools of fewer than \<open>2 ^ 31\<close> pages.
\<close>

unbundle bit_operations_syntax

section \<open>Definitions\<close>

datatype block_type = BLOCK_TYPE_FREE | BLOCK_TYPE_USER | BLOCK_TYPE_PAGE | BLOCK_TYPE_SLAB | BLOCK_TYPE_ERROR

record buddy_block =
  bb_pid :: u8
  bb_order :: nat
  bb_in_list :: bool
  bb_is_waste :: bool
  bb_type :: block_type

datatype buddy_node = Free_List nat | Waste_List | Block nat

record memory_pool =
  pool_flags :: u32
  pool_start :: u64
  pool_end :: u64
  pages_start :: u64
  pages_end :: u64
  pool_pages :: u64
  free_pages :: u64
  max_order :: nat
  max_order_free :: nat
  max_order_waste :: u32
  pool_blocks :: "buddy_block list"
  pool_links :: "buddy_node ring"

definition PAGE_SIZE :: u64 where
  "PAGE_SIZE = 4096"

definition MAX_MEMORY_POOLS :: nat where
  "MAX_MEMORY_POOLS = 16"

definition ALIGN_UP :: "u64 \<Rightarrow> u64 \<Rightarrow> u64" where
  "ALIGN_UP x y = (x + (y - 1)) AND NOT (y - 1)"

definition ALIGN_DOWN :: "u64 \<Rightarrow> u64 \<Rightarrow> u64" where
  "ALIGN_DOWN x y = x AND NOT (y - 1)"

subsection \<open>Pools, blocks and addresses\<close>

fun ptr_to_pool :: "memory_pool list \<Rightarrow> u64 \<Rightarrow> nat \<Rightarrow> nat option" where
  "ptr_to_pool [] ptr i = None"
| "ptr_to_pool (pool # pools) ptr i =
     (if ptr \<ge> pages_start pool \<and> ptr < pages_end pool then Some i else ptr_to_pool pools ptr (i + 1))"

fun find_pool :: "memory_pool list \<Rightarrow> nat \<Rightarrow> u64 \<Rightarrow> nat \<Rightarrow> nat option" where
  "find_pool [] order alloc_size i = None"
| "find_pool (pool # pools) order alloc_size i =
     (if max_order_free pool \<ge> order \<and> free_pages pool \<ge> alloc_size then Some i else find_pool pools order alloc_size (i + 1))"

definition block_to_address :: "memory_pool \<Rightarrow> nat \<Rightarrow> u64" where
  "block_to_address pool index = pages_start pool + of_nat index * PAGE_SIZE"

definition address_to_block :: "memory_pool \<Rightarrow> u64 \<Rightarrow> nat" where
  "address_to_block pool ptr = unat ((ptr - pages_start pool) div PAGE_SIZE)"

definition next_power_of_two :: "u64 \<Rightarrow> u64" where
  "next_power_of_two x =
     (if x \<le> 1 then 1
      else let x = x - 1;
               x = x OR drop_bit 1 x;
               x = x OR drop_bit 2 x;
               x = x OR drop_bit 4 x;
               x = x OR drop_bit 8 x;
               x = x OR drop_bit 16 x;
               x = x OR drop_bit 32 x
           in x + 1)"

definition get_order :: "u64 \<Rightarrow> nat" where
  "get_order sz =
     (let sz = next_power_of_two sz
      in if sz > 0 then unat (63 - count_leading_unset_bits64 sz) else 0)"

subsection \<open>Lists with a membership flag\<close>

definition upd_block :: "nat \<Rightarrow> (buddy_block \<Rightarrow> buddy_block) \<Rightarrow> memory_pool \<Rightarrow> memory_pool" where
  "upd_block i f pool = pool\<lparr>pool_blocks := (pool_blocks pool)[i := f (pool_blocks pool ! i)]\<rparr>"

definition buddy_list_push_back :: "buddy_node \<Rightarrow> nat \<Rightarrow> memory_pool \<Rightarrow> memory_pool" where
  "buddy_list_push_back list entry pool =
     (let pool = upd_block entry (\<lambda>b. b\<lparr>bb_in_list := True\<rparr>) pool
      in pool\<lparr>pool_links := list_push_back list (Block entry) (pool_links pool)\<rparr>)"

definition buddy_list_remove :: "nat \<Rightarrow> memory_pool \<Rightarrow> memory_pool" where
  "buddy_list_remove entry pool =
     (let pool = upd_block entry (\<lambda>b. b\<lparr>bb_in_list := False\<rparr>) pool
      in pool\<lparr>pool_links := list_remove (Block entry) (pool_links pool)\<rparr>)"

abbreviation blk :: "memory_pool \<Rightarrow> nat \<Rightarrow> buddy_block" where
  "blk pool i \<equiv> pool_blocks pool ! i"

abbreviation nblocks :: "memory_pool \<Rightarrow> nat" where
  "nblocks pool \<equiv> length (pool_blocks pool)"

text \<open>Put a block that is in no list on the free list of its order, or on the waste list.\<close>

definition buddy_push_free :: "nat \<Rightarrow> memory_pool \<Rightarrow> memory_pool option" where
  "buddy_push_free i pool =
     (if \<not> bb_is_waste (blk pool i)
      then if bb_order (blk pool i) \<le> max_order pool
           then Some (buddy_list_push_back (Free_List (bb_order (blk pool i))) i pool) else None
      else Some (buddy_list_push_back Waste_List i pool))"

subsection \<open>Splitting and merging\<close>

definition split_block :: "memory_pool \<Rightarrow> nat \<Rightarrow> memory_pool option" where
  "split_block pool index =
     (let pool = upd_block index (\<lambda>b. b\<lparr>bb_order := bb_order b - 1\<rparr>) pool;
          order = bb_order (blk pool index);
          buddy_index = index XOR 2 ^ order
      in if buddy_index \<ge> nblocks pool then None
         else buddy_push_free buddy_index (upd_block buddy_index (\<lambda>b. b\<lparr>bb_order := order\<rparr>) pool))"

definition try_merge_buddy :: "memory_pool \<Rightarrow> nat \<Rightarrow> (nat option \<times> memory_pool) option" where
  "try_merge_buddy pool index =
     (let buddy_index = index XOR 2 ^ bb_order (blk pool index)
      in if buddy_index > unat (pool_pages pool + ucast (max_order_waste pool)) then Some (None, pool)
         else if buddy_index \<ge> nblocks pool then None
         else if bb_order (blk pool buddy_index) = bb_order (blk pool index) \<and> bb_in_list (blk pool buddy_index) then
           let pool = buddy_list_remove buddy_index pool;
               merged = (if index \<le> buddy_index then index else buddy_index)
           in Some (Some merged, upd_block merged (\<lambda>b. b\<lparr>bb_order := bb_order b + 1\<rparr>) pool)
         else Some (None, pool))"

definition listed_blocks :: "memory_pool \<Rightarrow> nat" where
  "listed_blocks pool = length (filter bb_in_list (pool_blocks pool))"

lemma upd_block_listed:
  "(\<And>b. bb_in_list (f b) = bb_in_list b) \<Longrightarrow> listed_blocks (upd_block i f pool) = listed_blocks pool"
  using length_filter_update[of i "pool_blocks pool" bb_in_list "f (blk pool i)"]
  by (cases "i < nblocks pool") (auto simp: listed_blocks_def upd_block_def list_update_beyond)

lemma try_merge_listed:
  "try_merge_buddy pool i = Some (Some m, pool') \<Longrightarrow> listed_blocks pool' < listed_blocks pool"
proof -
  assume *: "try_merge_buddy pool i = Some (Some m, pool')"
  let ?j = "i XOR 2 ^ bb_order (blk pool i)"
  have j: "?j < nblocks pool" "bb_in_list (blk pool ?j)"
    using * by (auto simp: try_merge_buddy_def Let_def split: if_splits)
  have "listed_blocks pool' = listed_blocks (buddy_list_remove ?j pool)"
    using * by (auto simp: try_merge_buddy_def Let_def upd_block_listed split: if_splits)
  also have "\<dots> + 1 = listed_blocks pool"
    using j length_filter_update[of ?j "pool_blocks pool" bb_in_list "(blk pool ?j)\<lparr>bb_in_list := False\<rparr>"]
    by (simp add: listed_blocks_def buddy_list_remove_def upd_block_def Let_def)
  finally show ?thesis by simp
qed

text \<open>The loop of \<^verbatim>\<open>free_block\<close>: every merge takes a buddy off a list, so it ends.\<close>

function merge_loop :: "memory_pool \<Rightarrow> nat \<Rightarrow> (nat \<times> memory_pool) option" where
  "merge_loop pool block =
     (case try_merge_buddy pool block of
        None \<Rightarrow> None
      | Some (None, pool') \<Rightarrow> Some (block, pool')
      | Some (Some merged, pool') \<Rightarrow> merge_loop pool' merged)"
  by pat_completeness auto
termination
  by (relation "measure (\<lambda>(pool, _). listed_blocks pool)") (auto intro: try_merge_listed)

declare merge_loop.simps [simp del]

definition free_block :: "memory_pool \<Rightarrow> nat \<Rightarrow> memory_pool option" where
  "free_block pool block =
     (case merge_loop pool block of
        None \<Rightarrow> None
      | Some (fb, pool) \<Rightarrow>
          let pool = (if \<not> bb_is_waste (blk pool fb)
                      then pool\<lparr>max_order_free := max (max_order_free pool) (bb_order (blk pool fb))\<rparr> else pool)
          in buddy_push_free fb pool)"

subsection \<open>Initialisation\<close>

text \<open>
  \<^verbatim>\<open>sizeof(buddy_block_t)\<close> is 24. The address of the blocks is computed with pointer arithmetic on
  block pointers, so the size of the free lists is scaled twice.
\<close>

definition zero_block :: buddy_block where
  "zero_block = \<lparr>bb_pid = 0, bb_order = 0, bb_in_list = False, bb_is_waste = False, bb_type = BLOCK_TYPE_FREE\<rparr>"

definition mark_waste :: "u64 \<Rightarrow> u64 \<Rightarrow> buddy_block list \<Rightarrow> buddy_block list" where
  "mark_waste from total_pages bs =
     fold (\<lambda>i bs. bs[i := (bs ! i)\<lparr>bb_is_waste := True\<rparr>]) [unat from..<unat total_pages] bs"

definition init_pool :: "memory_pool list \<Rightarrow> u64 \<Rightarrow> u64 \<Rightarrow> u32 \<Rightarrow> memory_pool list" where
  "init_pool pools mem_start mem_end fl =
     (if length pools \<ge> MAX_MEMORY_POOLS then pools
      else
        let total_pages = (mem_end - mem_start) div PAGE_SIZE;
            orders = get_order total_pages;
            metadata_block_size = 24 * total_pages;
            metadata_free_lists_size = 24 * (of_nat orders + 1);
            blocks_at = ALIGN_UP (mem_start + 24 * metadata_free_lists_size) 8;
            start_at = ALIGN_UP (blocks_at + metadata_block_size) PAGE_SIZE;
            end_at = ALIGN_DOWN mem_end PAGE_SIZE;
            pages = (end_at - start_at) div PAGE_SIZE;
            waste = (ucast (2 ^ orders - pages) :: u32);
            blocks = replicate (unat ((start_at - blocks_at) div 24)) zero_block;
            blocks = mark_waste (pages - ucast waste) total_pages blocks;
            blocks = blocks[0 := (blocks ! 0)\<lparr>bb_order := orders\<rparr>];
            links = fold (\<lambda>i. list_init (Free_List i)) [0..<orders + 1] \<lparr>ring_prev = id, ring_next = id\<rparr>;
            links = list_init Waste_List links;
            links = list_init (Block 0) links;
            pool = \<lparr>pool_flags = fl, pool_start = mem_start, pool_end = mem_end, pages_start = start_at, pages_end = end_at,
                     pool_pages = pages, free_pages = pages, max_order = orders, max_order_free = 0, max_order_waste = waste,
                     pool_blocks = blocks, pool_links = links\<rparr>;
            pool = buddy_list_push_back (Free_List orders) 0 pool
        in pools @ [pool\<lparr>max_order_free := orders\<rparr>])"

subsection \<open>Allocation\<close>

text \<open>The walk over one free list; the links are followed as they are, so it is partial.\<close>

partial_function (option) find_in_list :: "memory_pool \<Rightarrow> buddy_node \<Rightarrow> buddy_node \<Rightarrow> u64 \<Rightarrow> nat option option" where
  "find_in_list pool list node pages =
     (if ring_prev (pool_links pool) node = list then Some None
      else case ring_prev (pool_links pool) node of
             Block b \<Rightarrow>
               let last_block = unat ((of_nat b + pages) - 1)
               in if last_block \<ge> nblocks pool then None
                  else if \<not> bb_is_waste (blk pool last_block) then Some (Some b)
                  else find_in_list pool list (Block b) pages
           | _ \<Rightarrow> None)"

declare find_in_list.simps [code]

fun find_in_orders :: "memory_pool \<Rightarrow> u64 \<Rightarrow> nat list \<Rightarrow> nat option option" where
  "find_in_orders pool pages [] = Some None"
| "find_in_orders pool pages (a # as) =
     (case find_in_list pool (Free_List a) (Free_List a) pages of
        Some None \<Rightarrow> find_in_orders pool pages as
      | r \<Rightarrow> r)"

definition pool_find_block :: "memory_pool \<Rightarrow> nat \<Rightarrow> u64 \<Rightarrow> (nat option \<times> memory_pool) option" where
  "pool_find_block pool allocation_order pages =
     (case find_in_orders pool pages [allocation_order..<max_order pool + 1] of
        None \<Rightarrow> None
      | Some None \<Rightarrow> Some (None, pool)
      | Some (Some b) \<Rightarrow> Some (Some b, buddy_list_remove b pool))"

lemma xor_power_neq: "i XOR 2 ^ n \<noteq> (i::nat)"
proof
  assume "i XOR 2 ^ n = i"
  then have "bit (i XOR 2 ^ n) n = bit i n" by simp
  then show False by (simp add: bit_xor_iff bit_exp_iff)
qed

lemma buddy_push_free_order: "buddy_push_free j pool = Some pool' \<Longrightarrow> bb_order (blk pool' i) = bb_order (blk pool i)"
  by (cases "j = i"; cases "j < nblocks pool")
    (auto simp: buddy_push_free_def buddy_list_push_back_def upd_block_def Let_def list_update_beyond split: if_splits)

lemma split_block_order: "split_block pool i = Some pool' \<Longrightarrow> i < nblocks pool \<Longrightarrow> bb_order (blk pool' i) = bb_order (blk pool i) - 1"
  by (auto simp: split_block_def Let_def upd_block_def xor_power_neq xor_power_neq[symmetric] dest!: buddy_push_free_order[where i = i] split: if_splits)

text \<open>The loop that splits a block down to the requested order.\<close>

function split_loop :: "memory_pool \<Rightarrow> nat \<Rightarrow> nat \<Rightarrow> memory_pool option" where
  "split_loop pool block target =
     (if block < nblocks pool \<and> bb_order (blk pool block) > target
      then case split_block pool block of None \<Rightarrow> None | Some pool' \<Rightarrow> split_loop pool' block target
      else if block < nblocks pool then Some pool else None)"
  by pat_completeness auto
termination
  by (relation "measure (\<lambda>(pool, block, _). bb_order (blk pool block))") (auto simp: split_block_order)

declare split_loop.simps [simp del]

fun shrink_max_order :: "buddy_node ring \<Rightarrow> nat \<Rightarrow> nat" where
  "shrink_max_order links m = (if m \<noteq> 0 \<and> list_empty (Free_List m) links then shrink_max_order links (m - 1) else m)"

declare shrink_max_order.simps [simp del]

text \<open>
  The search over the pools. \<open>Some None\<close> is the out-of-memory result. The size limit for requests
  of the highest order compares the size in bytes with a number of pages, in 32 bits.
\<close>

fun alloc_search :: "memory_pool list \<Rightarrow> u64 \<Rightarrow> nat \<Rightarrow> u64 \<Rightarrow> nat list \<Rightarrow> (nat \<times> nat \<times> memory_pool) option option" where
  "alloc_search pools sz order pages [] = Some None"
| "alloc_search pools sz order pages (i # is) =
     (case find_pool (drop i pools) order pages i of
        None \<Rightarrow> Some None
      | Some p \<Rightarrow>
          let pool = pools ! p
          in if order = max_order pool \<and> sz > ucast ((2 ^ order - max_order_waste pool) :: u32)
             then alloc_search pools sz order pages is
             else case pool_find_block pool order pages of
                    None \<Rightarrow> None
                  | Some (None, _) \<Rightarrow> alloc_search pools sz order pages is
                  | Some (Some b, pool') \<Rightarrow> Some (Some (p, b, pool')))"

text \<open>Returns the pools and the address of the allocation, 0 for \<^verbatim>\<open>NULL\<close>.\<close>

definition buddy_allocate :: "memory_pool list \<Rightarrow> u64 \<Rightarrow> block_type \<Rightarrow> u32 \<Rightarrow> (memory_pool list \<times> u64) option" where
  "buddy_allocate pools sz ty fl =
     (if sz = 0 then Some (pools, 0)
      else
        let pages = (sz + (PAGE_SIZE - 1)) div PAGE_SIZE;
            order = get_order pages
        in case alloc_search pools sz order pages [0..<length pools] of
             None \<Rightarrow> None
           | Some None \<Rightarrow> Some (pools, 0)
           | Some (Some (p, b, pool)) \<Rightarrow>
               (case split_loop pool b order of
                  None \<Rightarrow> None
                | Some pool \<Rightarrow>
                    let pool = pool\<lparr>max_order_free := shrink_max_order (pool_links pool) (max_order_free pool)\<rparr>;
                        pool = pool\<lparr>free_pages := free_pages pool - of_nat (2 ^ bb_order (blk pool b))\<rparr>;
                        pool = upd_block b (\<lambda>x. x\<lparr>bb_type := ty\<rparr>) pool
                    in Some (pools[p := pool], block_to_address pool b)))"

subsection \<open>Deallocation\<close>

text \<open>\<open>Some None\<close> is the null result; a pointer that is not page-aligned or in no pool panics.\<close>

definition buddy_get_block :: "memory_pool list \<Rightarrow> u64 \<Rightarrow> (nat \<times> nat) option option" where
  "buddy_get_block pools ptr =
     (if ptr = 0 then Some None
      else if ALIGN_DOWN ptr PAGE_SIZE \<noteq> ptr then None
      else case ptr_to_pool pools ptr 0 of
             None \<Rightarrow> None
           | Some p \<Rightarrow>
               let b = address_to_block (pools ! p) ptr
               in if b \<ge> nblocks (pools ! p) then None else Some (Some (p, b)))"

definition buddy_deallocate :: "memory_pool list \<Rightarrow> u64 \<Rightarrow> memory_pool list option" where
  "buddy_deallocate pools ptr =
     (case buddy_get_block pools ptr of
        None \<Rightarrow> None
      | Some None \<Rightarrow> Some pools
      | Some (Some (p, b)) \<Rightarrow>
          let pool = pools ! p;
              pool = pool\<lparr>free_pages := free_pages pool + of_nat (2 ^ bb_order (blk pool b))\<rparr>;
              pool = upd_block b (\<lambda>x. x\<lparr>bb_type := BLOCK_TYPE_FREE\<rparr>) pool
          in case free_block pool b of None \<Rightarrow> None | Some pool \<Rightarrow> Some (pools[p := pool]))"

text \<open>
  \<^verbatim>\<open>(1 << block->order) * PAGE_SIZE\<close> is a product of \<^verbatim>\<open>int\<close>s, converted to \<^verbatim>\<open>size_t\<close> afterwards. From order 19
  on it is not representable and the behaviour of the C code is undefined, which is \<open>None\<close> here.
\<close>

definition order_size :: "nat \<Rightarrow> u64 option" where
  "order_size order = (if order < 19 then Some (2 ^ order * 4096) else None)"

definition buddy_reallocate :: "memory_pool list \<Rightarrow> mem \<Rightarrow> u64 \<Rightarrow> u64 \<Rightarrow> (memory_pool list \<times> mem \<times> u64) option" where
  "buddy_reallocate pools m ptr sz =
     (case buddy_get_block pools ptr of
        None \<Rightarrow> None
      | Some None \<Rightarrow> Some (pools, m, 0)
      | Some (Some (p, b)) \<Rightarrow>
          let block = blk (pools ! p) b;
              pages = (sz + (PAGE_SIZE - 1)) div PAGE_SIZE
          in case order_size (bb_order block) of
               None \<Rightarrow> None
             | Some old_size \<Rightarrow>
                 if bb_order block = get_order pages then Some (pools, m, ptr)
                 else case buddy_allocate pools sz (bb_type block) (pool_flags (pools ! p)) of
                        None \<Rightarrow> None
                      | Some (pools, new_block) \<Rightarrow>
                          if new_block = 0 then Some (pools, m, 0)
                          else let m = fst (memcpy m new_block ptr (if old_size < sz then old_size else sz))
                               in (case buddy_deallocate pools ptr of None \<Rightarrow> None | Some pools \<Rightarrow> Some (pools, m, new_block)))"

definition buddy_get_type :: "memory_pool list \<Rightarrow> u64 \<Rightarrow> block_type option" where
  "buddy_get_type pools ptr =
     (case buddy_get_block pools ptr of
        None \<Rightarrow> None
      | Some None \<Rightarrow> Some BLOCK_TYPE_ERROR
      | Some (Some (p, b)) \<Rightarrow> Some (bb_type (blk (pools ! p) b)))"

definition buddy_get_size :: "memory_pool list \<Rightarrow> u64 \<Rightarrow> u64 option" where
  "buddy_get_size pools ptr =
     (case buddy_get_block pools ptr of
        None \<Rightarrow> None
      | Some None \<Rightarrow> Some 0
      | Some (Some (p, b)) \<Rightarrow> order_size (bb_order (blk (pools ! p) b)))"

section \<open>Tilings\<close>

text \<open>Aligned power-of-two blocks that cover \<open>2 ^ M\<close> pages without overlap.\<close>

definition tiling :: "nat \<Rightarrow> nat set \<Rightarrow> (nat \<Rightarrow> nat) \<Rightarrow> bool" where
  "tiling M S ord \<longleftrightarrow> (\<forall>i \<in> S. 2 ^ ord i dvd i \<and> i + 2 ^ ord i \<le> 2 ^ M) \<and>
     (\<forall>i \<in> S. \<forall>j \<in> S. i \<noteq> j \<longrightarrow> {i..<i + 2 ^ ord i} \<inter> {j..<j + 2 ^ ord j} = {}) \<and>
     (\<Union>i \<in> S. {i..<i + 2 ^ ord i}) = {..<2 ^ M}"

lemma tiling_cong: "(\<And>i. i \<in> S \<Longrightarrow> ord i = ord' i) \<Longrightarrow> tiling M S ord = tiling M S ord'"
  by (simp add: tiling_def)

lemma tilingD:
  assumes "tiling M S ord" and "i \<in> S"
  shows "2 ^ ord i dvd i" and "i + 2 ^ ord i \<le> 2 ^ M" and "i < 2 ^ M" and "ord i \<le> M"
proof -
  show d: "2 ^ ord i dvd i" and le: "i + 2 ^ ord i \<le> 2 ^ M" using assms by (auto simp: tiling_def)
  have "(0::nat) < 2 ^ ord i" by simp
  then show "i < 2 ^ M" using le by linarith
  have "(2::nat) ^ ord i \<le> 2 ^ M" using le by linarith
  then show "ord i \<le> M" by simp
qed

lemma tiling_disjoint: "tiling M S ord \<Longrightarrow> i \<in> S \<Longrightarrow> j \<in> S \<Longrightarrow> i \<noteq> j \<Longrightarrow> {i..<i + 2 ^ ord i} \<inter> {j..<j + 2 ^ ord j} = {}"
  unfolding tiling_def by blast

lemma tiling_disjointE:
  assumes "tiling M S ord" and "i \<in> S" and "j \<in> S" and "i < j"
  shows "i + 2 ^ ord i \<le> j"
proof (rule ccontr)
  assume "\<not> i + 2 ^ ord i \<le> j"
  then have "j \<in> {i..<i + 2 ^ ord i} \<inter> {j..<j + 2 ^ ord j}" using assms(4) by simp
  then show False using tiling_disjoint[OF assms(1-3)] assms(4) by simp
qed

lemma xor_power_add: "2 ^ Suc k dvd i \<Longrightarrow> i XOR 2 ^ k = i + (2::nat) ^ k"
proof -
  assume "2 ^ Suc k dvd i"
  then have "\<not> bit i k" by (auto simp: bit_iff_odd elim!: dvdE)
  then show ?thesis using flip_bit_eq_if[of k i] set_bit_eq[of k i] by (simp add: flip_bit_eq_xor)
qed

lemma xor_power_sub: "2 ^ k dvd i \<Longrightarrow> \<not> 2 ^ Suc k dvd i \<Longrightarrow> i XOR 2 ^ k = i - (2::nat) ^ k \<and> 2 ^ k \<le> i \<and> 2 ^ Suc k dvd i - 2 ^ k"
proof -
  assume "2 ^ k dvd i" "\<not> 2 ^ Suc k dvd i"
  then obtain q where q: "i = 2 ^ k * q" "odd q" by (auto elim!: dvdE)
  then obtain r where r: "q = 2 * r + 1" by (auto elim: oddE)
  have i: "i - 2 ^ k = 2 ^ Suc k * r" "2 ^ k \<le> i" using q(1) r by (simp_all add: algebra_simps)
  have "(i - 2 ^ k) XOR 2 ^ k = i" using xor_power_add[of k "i - 2 ^ k"] i by simp
  then have "i XOR 2 ^ k = (i - 2 ^ k) XOR (2 ^ k XOR 2 ^ k)" by (metis xor.assoc)
  then show ?thesis using i by simp
qed

lemma tiling_split:
  assumes T: "tiling M S ord" and i: "i \<in> S" and k: "ord i = Suc k"
  shows "tiling M (insert (i + 2 ^ k) S) (ord(i := k, i + 2 ^ k := k))" and "i + 2 ^ k \<notin> S" and "i + 2 ^ k < 2 ^ M"
proof -
  let ?j = "i + 2 ^ k" and ?o = "ord(i := k, i + 2 ^ k := k)"
  have d: "2 ^ Suc k dvd i" and le: "i + 2 ^ k + 2 ^ k \<le> 2 ^ M" using tilingD(1,2)[OF T i] k by simp_all
  have pos: "(0::nat) < 2 ^ k" by simp
  then show lt: "?j < 2 ^ M" using le by linarith
  show notin: "?j \<notin> S" using tiling_disjointE[OF T i, of ?j] k pos by auto
  have dk: "2 ^ k dvd i" using d by (meson dvd_trans le_imp_power_dvd le_Suc_eq order_refl)
  have spans: "{i..<i + 2 ^ ord i} = {i..<i + 2 ^ k} \<union> {?j..<?j + 2 ^ k}" unfolding k by auto
  have old: "{x..<x + 2 ^ ?o x} = {x..<x + 2 ^ ord x}" if "x \<in> S" "x \<noteq> i" for x using that notin by auto
  have "2 ^ ?o x dvd x \<and> x + 2 ^ ?o x \<le> 2 ^ M" if "x \<in> insert ?j S" for x
    using that tilingD(1,2)[OF T, of x] dk le notin by auto
  moreover have "{x..<x + 2 ^ ?o x} \<inter> {y..<y + 2 ^ ?o y} = {}" if "x \<in> insert ?j S" "y \<in> insert ?j S" "x < y" for x y
  proof -
    have "x + 2 ^ ?o x \<le> y"
      using that tiling_disjointE[OF T, of x y] tiling_disjointE[OF T i, of y] tiling_disjointE[OF T i, of x] tiling_disjointE[OF T, of x i] notin i k
      by (cases "x = i"; cases "y = i"; cases "x = ?j"; cases "y = ?j"; cases "x < i") auto
    then show ?thesis by auto
  qed
  then have "{x..<x + 2 ^ ?o x} \<inter> {y..<y + 2 ^ ?o y} = {}" if "x \<in> insert ?j S" "y \<in> insert ?j S" "x \<noteq> y" for x y
    using that by (metis inf_commute linorder_neqE_nat)
  moreover have "(\<Union>x \<in> insert ?j S. {x..<x + 2 ^ ?o x}) = {..<2 ^ M}"
  proof -
    have "(\<Union>x \<in> insert ?j S. {x..<x + 2 ^ ?o x}) = {?j..<?j + 2 ^ k} \<union> {i..<i + 2 ^ k} \<union> (\<Union>x \<in> S - {i}. {x..<x + 2 ^ ?o x})"
      using i notin by auto
    also have "\<dots> = {i..<i + 2 ^ ord i} \<union> (\<Union>x \<in> S - {i}. {x..<x + 2 ^ ord x})" unfolding spans using old by auto
    also have "\<dots> = {..<2 ^ M}" using T i by (auto simp: tiling_def)
    finally show ?thesis .
  qed
  ultimately show "tiling M (insert ?j S) ?o" unfolding tiling_def by blast
qed

lemma tiling_merge:
  assumes T: "tiling M S ord" and i: "i \<in> S" and d: "2 ^ Suc k dvd i" and k: "ord i = k" and j: "i + 2 ^ k \<in> S" "ord (i + 2 ^ k) = k"
  shows "tiling M (S - {i + 2 ^ k}) (ord(i := Suc k))"
proof -
  let ?j = "i + 2 ^ k" and ?o = "ord(i := Suc k)"
  have ij: "i \<noteq> ?j" by simp
  have le: "i + 2 ^ Suc k \<le> 2 ^ M" using tilingD(2)[OF T j(1)] j(2) by simp
  have spans: "{i..<i + 2 ^ Suc k} = {i..<i + 2 ^ ord i} \<union> {?j..<?j + 2 ^ ord ?j}" unfolding k j(2) by auto
  have "2 ^ ?o x dvd x \<and> x + 2 ^ ?o x \<le> 2 ^ M" if "x \<in> S - {?j}" for x
    using that tilingD(1,2)[OF T, of x] d le by auto
  moreover have "{x..<x + 2 ^ ?o x} \<inter> {y..<y + 2 ^ ?o y} = {}" if "x \<in> S - {?j}" "y \<in> S - {?j}" "x < y" for x y
  proof -
    have "x + 2 ^ ?o x \<le> y"
      using that tiling_disjointE[OF T, of x y] tiling_disjointE[OF T i, of y] tiling_disjointE[OF T j(1), of y] k j(2)
      by (cases "x = i"; cases "y < ?j") auto
    then show ?thesis by auto
  qed
  then have "{x..<x + 2 ^ ?o x} \<inter> {y..<y + 2 ^ ?o y} = {}" if "x \<in> S - {?j}" "y \<in> S - {?j}" "x \<noteq> y" for x y
    using that by (metis inf_commute linorder_neqE_nat)
  moreover have "(\<Union>x \<in> S - {?j}. {x..<x + 2 ^ ?o x}) = {..<2 ^ M}"
  proof -
    have "(\<Union>x \<in> S - {?j}. {x..<x + 2 ^ ?o x}) = {i..<i + 2 ^ Suc k} \<union> (\<Union>x \<in> S - {i, ?j}. {x..<x + 2 ^ ord x})"
      using i ij by (auto split: if_splits)
    also have "\<dots> = (\<Union>x \<in> S. {x..<x + 2 ^ ord x})" unfolding spans using i j(1) by auto
    finally show ?thesis using T by (simp add: tiling_def)
  qed
  ultimately show ?thesis unfolding tiling_def by blast
qed

text \<open>The buddy of a tile of the same order: the lower of the two is aligned for the next order.\<close>

lemma tiling_merge_buddy:
  assumes T: "tiling M S ord" and i: "i \<in> S" and j: "j \<in> S" and ij: "j = i XOR 2 ^ ord i" "ord j = ord i"
  shows "tiling M (S - {max i j}) (ord(min i j := Suc (ord i)))" and "i \<noteq> j"
proof -
  show "i \<noteq> j" using xor_power_neq[of i "ord i"] ij(1) by simp
  show "tiling M (S - {max i j}) (ord(min i j := Suc (ord i)))"
  proof (cases "2 ^ Suc (ord i) dvd i")
    case True
    then have "j = i + 2 ^ ord i" using xor_power_add ij(1) by simp
    then show ?thesis using tiling_merge[OF T i True refl] j ij(2) by simp
  next
    case False
    then have "j = i - 2 ^ ord i" "2 ^ ord i \<le> i" and d: "2 ^ Suc (ord j) dvd j"
      using xor_power_sub[OF tilingD(1)[OF T i]] ij by auto
    then have "i = j + 2 ^ ord j" using ij(2) by simp
    then show ?thesis using tiling_merge[OF T j d refl] i ij(2) by simp
  qed
qed

section \<open>The pool invariant\<close>

lemma blk_upd_block [simp]:
  "blk (upd_block j f pool) i = (if i = j \<and> j < nblocks pool then f (blk pool i) else blk pool i)"
  by (auto simp: upd_block_def list_update_beyond)

lemma upd_block_fields [simp]:
  "nblocks (upd_block j f pool) = nblocks pool" "pool_links (upd_block j f pool) = pool_links pool"
  "max_order (upd_block j f pool) = max_order pool" "max_order_free (upd_block j f pool) = max_order_free pool"
  "max_order_waste (upd_block j f pool) = max_order_waste pool" "pool_pages (upd_block j f pool) = pool_pages pool"
  "free_pages (upd_block j f pool) = free_pages pool" "pages_start (upd_block j f pool) = pages_start pool"
  "pages_end (upd_block j f pool) = pages_end pool"
  by (simp_all add: upd_block_def)

definition pool_heads :: "memory_pool \<Rightarrow> buddy_node set" where
  "pool_heads pool = insert Waste_List (Free_List ` {..max_order pool})"

definition free_set :: "memory_pool \<Rightarrow> nat set" where
  "free_set pool = {i. i < nblocks pool \<and> bb_in_list (blk pool i)}"

definition entry_ok :: "memory_pool \<Rightarrow> buddy_node \<Rightarrow> buddy_node \<Rightarrow> bool" where
  "entry_ok pool h n \<longleftrightarrow> (\<exists>i < 2 ^ max_order pool. n = Block i \<and> bb_in_list (blk pool i) \<and>
     (if bb_is_waste (blk pool i) then h = Waste_List else h = Free_List (bb_order (blk pool i))))"

text \<open>
  \<open>A\<close> are the blocks handed out and \<open>L\<close> the lists: the blocks handed out and the listed ones tile the
  pool, every list holds blocks of its own order, and no free list above \<^verbatim>\<open>max_order_free\<close> has an entry.
\<close>

definition pool_inv :: "memory_pool \<Rightarrow> nat set \<Rightarrow> (buddy_node \<Rightarrow> buddy_node list) \<Rightarrow> bool" where
  "pool_inv pool A L \<longleftrightarrow>
     2 ^ max_order pool < nblocks pool \<and> unat (pool_pages pool + ucast (max_order_waste pool)) = 2 ^ max_order pool \<and>
     rings (pool_heads pool) L (pool_links pool) \<and>
     (\<forall>h \<in> pool_heads pool. \<forall>n \<in> set (L h). entry_ok pool h n) \<and>
     (\<forall>i \<in> free_set pool. \<exists>h \<in> pool_heads pool. Block i \<in> set (L h)) \<and>
     (\<forall>i \<in> A. i < 2 ^ max_order pool \<and> \<not> bb_in_list (blk pool i)) \<and>
     tiling (max_order pool) (A \<union> free_set pool) (\<lambda>i. bb_order (blk pool i)) \<and>
     max_order_free pool \<le> max_order pool \<and>
     (\<forall>k. max_order_free pool < k \<and> k \<le> max_order pool \<longrightarrow> L (Free_List k) = [])"

lemma pool_invD:
  assumes "pool_inv pool A L"
  shows "2 ^ max_order pool < nblocks pool" and "unat (pool_pages pool + ucast (max_order_waste pool)) = 2 ^ max_order pool"
    and "rings (pool_heads pool) L (pool_links pool)"
    and "\<And>h n. h \<in> pool_heads pool \<Longrightarrow> n \<in> set (L h) \<Longrightarrow> entry_ok pool h n"
    and "\<And>i. i \<in> free_set pool \<Longrightarrow> \<exists>h \<in> pool_heads pool. Block i \<in> set (L h)"
    and "\<And>i. i \<in> A \<Longrightarrow> i < 2 ^ max_order pool" and "\<And>i. i \<in> A \<Longrightarrow> \<not> bb_in_list (blk pool i)"
    and "tiling (max_order pool) (A \<union> free_set pool) (\<lambda>i. bb_order (blk pool i))"
    and "max_order_free pool \<le> max_order pool"
    and "\<And>k. max_order_free pool < k \<Longrightarrow> k \<le> max_order pool \<Longrightarrow> L (Free_List k) = []"
  using assms unfolding pool_inv_def by blast+

text \<open>What the list operations leave alone.\<close>

definition pool_frame :: "memory_pool \<Rightarrow> memory_pool \<Rightarrow> bool" where
  "pool_frame p q \<longleftrightarrow> pages_start q = pages_start p \<and> pages_end q = pages_end p \<and> pool_pages q = pool_pages p \<and>
     max_order q = max_order p \<and> max_order_waste q = max_order_waste p \<and> free_pages q = free_pages p \<and> nblocks q = nblocks p \<and>
     (\<forall>i. bb_is_waste (blk q i) = bb_is_waste (blk p i))"

lemma pool_frame_refl [simp]: "pool_frame p p"
  by (simp add: pool_frame_def)

lemma pool_frame_trans [trans]: "pool_frame p q \<Longrightarrow> pool_frame q r \<Longrightarrow> pool_frame p r"
  by (simp add: pool_frame_def)

lemma pool_frame_upd [simp]: "(\<And>b. bb_is_waste (f b) = bb_is_waste b) \<Longrightarrow> pool_frame p (upd_block i f p)"
  by (simp add: pool_frame_def)

lemma entry_index:
  assumes "pool_inv pool A L" and "h \<in> pool_heads pool" and "Block b \<in> set (L h)"
  shows "b < 2 ^ max_order pool" and "b < nblocks pool" and "b \<in> free_set pool" and "b \<notin> A"
    and "if bb_is_waste (blk pool b) then h = Waste_List else h = Free_List (bb_order (blk pool b))"
proof -
  have e: "entry_ok pool h (Block b)" by (rule pool_invD(4)[OF assms])
  then have l: "bb_in_list (blk pool b)" by (auto simp: entry_ok_def)
  from e show b: "b < 2 ^ max_order pool" and "if bb_is_waste (blk pool b) then h = Waste_List else h = Free_List (bb_order (blk pool b))"
    by (auto simp: entry_ok_def split: if_splits)
  show "b < nblocks pool" using b pool_invD(1)[OF assms(1)] by linarith
  then show "b \<in> free_set pool" using l by (simp add: free_set_def)
  show "b \<notin> A" using l pool_invD(7)[OF assms(1)] by blast
qed

lemma free_set_listed: "pool_inv pool A L \<Longrightarrow> i \<in> free_set pool \<Longrightarrow>
    \<exists>h \<in> pool_heads pool. Block i \<in> set (L h) \<and> (if bb_is_waste (blk pool i) then h = Waste_List else h = Free_List (bb_order (blk pool i)))"
  using pool_invD(5)[of pool A L i] entry_index(5)[of pool A L _ i] by blast

text \<open>Taking a block off its list.\<close>

lemma remove_fields [simp]:
  "nblocks (buddy_list_remove b pool) = nblocks pool" "max_order (buddy_list_remove b pool) = max_order pool"
  "max_order_free (buddy_list_remove b pool) = max_order_free pool" "max_order_waste (buddy_list_remove b pool) = max_order_waste pool"
  "pool_pages (buddy_list_remove b pool) = pool_pages pool"
  "pool_links (buddy_list_remove b pool) = list_remove (Block b) (pool_links pool)"
  "blk (buddy_list_remove b pool) i = (if i = b \<and> b < nblocks pool then (blk pool i)\<lparr>bb_in_list := False\<rparr> else blk pool i)"
  by (simp_all add: buddy_list_remove_def Let_def)

lemma pool_frame_remove [simp]: "pool_frame pool (buddy_list_remove b pool)"
  by (simp add: pool_frame_def) (simp add: buddy_list_remove_def Let_def)

lemma pool_heads_cong: "max_order p = max_order q \<Longrightarrow> pool_heads p = pool_heads q"
  by (simp add: pool_heads_def)

lemma inv_remove:
  assumes inv: "pool_inv pool A L" and h: "h \<in> pool_heads pool" and b: "Block b \<in> set (L h)"
  shows "pool_inv (buddy_list_remove b pool) (insert b A) (L(h := remove1 (Block b) (L h)))" (is "pool_inv ?p _ ?L")
proof -
  note bi = entry_index[OF inv h b]
  have H: "pool_heads ?p = pool_heads pool" by (rule pool_heads_cong) simp
  have fs: "free_set ?p = free_set pool - {b}" using bi(2) by (auto simp: free_set_def)
  have dist: "distinct (L h)" using rings_distinct[OF pool_invD(3)[OF inv] h] by simp
  have rings: "rings (pool_heads ?p) ?L (pool_links ?p)"
    using rings_remove[OF pool_invD(3)[OF inv] h b] by (simp add: H)
  have uniq: "h' = h" if "h' \<in> pool_heads pool" "Block b \<in> set (L h')" for h'
    using rings_unique[OF pool_invD(3)[OF inv] that(1) h that(2) b] .
  have entries: "entry_ok ?p h' n" if n: "h' \<in> pool_heads ?p" "n \<in> set (?L h')" for h' n
  proof -
    have n': "n \<in> set (L h')" "n \<noteq> Block b"
      using n uniq dist by (auto simp: H split: if_splits dest: notin_set_remove1)
    show ?thesis using pool_invD(4)[OF inv, of h' n] n n' by (auto simp: H entry_ok_def)
  qed
  have listed: "\<exists>h' \<in> pool_heads ?p. Block i \<in> set (?L h')" if "i \<in> free_set ?p" for i
    using that pool_invD(5)[OF inv, of i] by (auto simp: fs H in_set_remove1)
  have ords: "tiling (max_order pool) (insert b A \<union> free_set ?p) (\<lambda>i. bb_order (blk ?p i))"
  proof -
    have "insert b A \<union> free_set ?p = A \<union> free_set pool" using fs bi(3) by auto
    moreover have "(\<lambda>i. bb_order (blk ?p i)) = (\<lambda>i. bb_order (blk pool i))" by (simp add: fun_eq_iff)
    ultimately show ?thesis using pool_invD(8)[OF inv] by simp
  qed
  have empty: "?L (Free_List k) = []" if "max_order_free pool < k" "k \<le> max_order pool" for k
    using pool_invD(10)[OF inv that] by auto
  show ?thesis
    unfolding pool_inv_def
    using pool_invD(1,2,6,7,9)[OF inv] bi(1,2) rings entries listed ords empty by simp
qed

lemma push_fields [simp]:
  "nblocks (buddy_list_push_back h b pool) = nblocks pool" "max_order (buddy_list_push_back h b pool) = max_order pool"
  "max_order_free (buddy_list_push_back h b pool) = max_order_free pool" "max_order_waste (buddy_list_push_back h b pool) = max_order_waste pool"
  "pool_pages (buddy_list_push_back h b pool) = pool_pages pool"
  "pool_links (buddy_list_push_back h b pool) = list_push_back h (Block b) (pool_links pool)"
  "blk (buddy_list_push_back h b pool) i = (if i = b \<and> b < nblocks pool then (blk pool i)\<lparr>bb_in_list := True\<rparr> else blk pool i)"
  by (simp_all add: buddy_list_push_back_def Let_def)

lemma pool_frame_push [simp]: "pool_frame pool (buddy_list_push_back h b pool)"
  by (simp add: pool_frame_def) (simp add: buddy_list_push_back_def Let_def)

text \<open>Putting a block in hand on the list it belongs to.\<close>

definition home :: "memory_pool \<Rightarrow> nat \<Rightarrow> buddy_node" where
  "home pool i = (if bb_is_waste (blk pool i) then Waste_List else Free_List (bb_order (blk pool i)))"

lemma inv_push:
  assumes inv: "pool_inv pool A L" and i: "i \<in> A" and mo: "\<not> bb_is_waste (blk pool i) \<Longrightarrow> bb_order (blk pool i) \<le> max_order_free pool"
  shows "buddy_push_free i pool = Some (buddy_list_push_back (home pool i) i pool)"
    and "pool_inv (buddy_list_push_back (home pool i) i pool) (A - {i}) (L(home pool i := L (home pool i) @ [Block i]))"
      (is "pool_inv ?p _ ?L")
proof -
  have i2: "i < 2 ^ max_order pool" and il: "\<not> bb_in_list (blk pool i)" using pool_invD(6,7)[OF inv i] .
  have ib: "i < nblocks pool" using i2 pool_invD(1)[OF inv] by linarith
  have o: "bb_order (blk pool i) \<le> max_order pool" using tilingD(4)[OF pool_invD(8)[OF inv]] i by blast
  then show "buddy_push_free i pool = Some (buddy_list_push_back (home pool i) i pool)"
    by (simp add: buddy_push_free_def home_def)
  have h: "home pool i \<in> pool_heads pool" using o by (simp add: home_def pool_heads_def)
  have H: "pool_heads ?p = pool_heads pool" by (rule pool_heads_cong) simp
  have fs: "free_set ?p = insert i (free_set pool)" using ib by (auto simp: free_set_def)
  have fresh: "Block i \<notin> set (L h')" if "h' \<in> pool_heads pool" for h' using entry_index(4)[OF inv that] i by blast
  have "Block i \<notin> pool_heads pool" by (auto simp: pool_heads_def)
  then have rings: "rings (pool_heads ?p) ?L (pool_links ?p)"
    using rings_push_back[OF pool_invD(3)[OF inv] h] fresh by (simp add: H)
  have entries: "entry_ok ?p h' n" if n: "h' \<in> pool_heads ?p" "n \<in> set (?L h')" for h' n
  proof (cases "n = Block i")
    case True
    then have "h' = home pool i" using n fresh by (auto simp: H split: if_splits)
    then show ?thesis using True i2 ib by (auto simp: entry_ok_def home_def)
  next
    case False
    then have "n \<in> set (L h')" using n by (auto split: if_splits)
    then show ?thesis using pool_invD(4)[OF inv, of h' n] n(1) False by (auto simp: H entry_ok_def)
  qed
  have sub: "set (L h') \<subseteq> set (?L h')" "Block i \<in> set (?L (home pool i))" for h' by auto
  have listed: "\<exists>h' \<in> pool_heads ?p. Block j \<in> set (?L h')" if "j \<in> free_set ?p" for j
    using that pool_invD(5)[OF inv, of j] h sub unfolding fs H by blast
  have "A - {i} \<union> free_set ?p = A \<union> free_set pool" using fs i by auto
  moreover have "(\<lambda>i. bb_order (blk ?p i)) = (\<lambda>i. bb_order (blk pool i))" by (simp add: fun_eq_iff)
  ultimately have ords: "tiling (max_order pool) (A - {i} \<union> free_set ?p) (\<lambda>i. bb_order (blk ?p i))"
    using pool_invD(8)[OF inv] by simp
  have empty: "?L (Free_List k) = []" if "max_order_free pool < k" "k \<le> max_order pool" for k
    using pool_invD(10)[OF inv that] that mo by (auto simp: home_def)
  show "pool_inv ?p (A - {i}) ?L"
    unfolding pool_inv_def using pool_invD(1,2,6,7,9)[OF inv] rings entries listed ords empty by simp
qed

text \<open>Changing the orders of blocks that are on no list.\<close>

lemma inv_orders:
  assumes inv: "pool_inv pool A L" and f: "\<And>i. i \<in> free_set pool \<Longrightarrow> blk p i = blk pool i"
    and same: "nblocks p = nblocks pool" "\<And>i. bb_in_list (blk p i) = bb_in_list (blk pool i)" "pool_links p = pool_links pool"
      "max_order p = max_order pool" "max_order_free p = max_order_free pool" "pool_pages p = pool_pages pool" "max_order_waste p = max_order_waste pool"
    and A: "\<And>i. i \<in> A' \<Longrightarrow> i < 2 ^ max_order pool \<and> \<not> bb_in_list (blk pool i)"
    and T: "tiling (max_order pool) (A' \<union> free_set pool) (\<lambda>i. bb_order (blk p i))"
  shows "pool_inv p A' L"
proof -
  have fs: "free_set p = free_set pool" by (simp add: free_set_def same)
  have H: "pool_heads p = pool_heads pool" by (rule pool_heads_cong) (simp add: same)
  have "entry_ok p h n" if "h \<in> pool_heads pool" "n \<in> set (L h)" for h n
  proof -
    from pool_invD(4)[OF inv that] obtain b where b: "n = Block b" by (auto simp: entry_ok_def)
    then have "blk p b = blk pool b" using f entry_index(3)[OF inv that(1)] that(2) by blast
    then show ?thesis using pool_invD(4)[OF inv that] b by (auto simp: entry_ok_def same)
  qed
  then show ?thesis unfolding pool_inv_def using pool_invD(1,2,3,5,9,10)[OF inv] A T by (auto simp: same fs H)
qed

text \<open>The invariant does not depend on the type of a block or the page count.\<close>

lemma inv_same:
  assumes inv: "pool_inv pool A L"
    and same: "nblocks p = nblocks pool" "\<And>i. bb_in_list (blk p i) = bb_in_list (blk pool i)"
      "\<And>i. bb_is_waste (blk p i) = bb_is_waste (blk pool i)" "\<And>i. bb_order (blk p i) = bb_order (blk pool i)"
      "pool_links p = pool_links pool" "max_order p = max_order pool" "pool_pages p = pool_pages pool" "max_order_waste p = max_order_waste pool"
    and mof: "max_order_free p \<le> max_order pool" "\<And>k. max_order_free p < k \<Longrightarrow> k \<le> max_order pool \<Longrightarrow> L (Free_List k) = []"
  shows "pool_inv p A L"
proof -
  have "free_set p = free_set pool" "entry_ok p = entry_ok pool" "pool_heads p = pool_heads pool"
    by (simp_all add: free_set_def entry_ok_def pool_heads_def same fun_eq_iff)
  then show ?thesis unfolding pool_inv_def using pool_invD(1-8)[OF inv] mof by (simp add: same)
qed

lemma hand_not_free: "pool_inv pool A L \<Longrightarrow> i \<in> A \<Longrightarrow> i \<notin> free_set pool"
  using pool_invD(7) by (auto simp: free_set_def)

text \<open>Splitting a block in hand.\<close>

lemma split_inv:
  assumes inv: "pool_inv pool A L" and i: "i \<in> A" and k: "bb_order (blk pool i) = Suc k" and mo: "k \<le> max_order_free pool"
  shows "\<exists>pool' L'. split_block pool i = Some pool' \<and> pool_inv pool' A L' \<and> pool_frame pool pool' \<and>
    max_order_free pool' = max_order_free pool \<and> bb_order (blk pool' i) = k \<and> (\<forall>a \<in> A - {i}. bb_order (blk pool' a) = bb_order (blk pool a))"
proof -
  let ?j = "i + 2 ^ k" and ?p = "upd_block (i + 2 ^ k) (\<lambda>b. b\<lparr>bb_order := k\<rparr>) (upd_block i (\<lambda>b. b\<lparr>bb_order := bb_order b - 1\<rparr>) pool)"
  note T = pool_invD(8)[OF inv]
  have iS: "i \<in> A \<union> free_set pool" using i by simp
  note sp = tiling_split[OF T iS, of k, OF k]
  have bounds: "i < nblocks pool" "?j < nblocks pool" using pool_invD(1,6)[OF inv] i sp(3) by fastforce+
  have d: "2 ^ Suc k dvd i" using tilingD(1)[OF T iS] k by simp
  have split: "split_block pool i = buddy_push_free ?j ?p"
    using bounds k xor_power_add[OF d] by (simp add: split_block_def Let_def)
  have j: "?j \<notin> A" "?j \<notin> free_set pool" using sp(2) by auto
  have inv': "pool_inv ?p (insert ?j A) L"
  proof (rule inv_orders[OF inv])
    show "blk ?p x = blk pool x" if "x \<in> free_set pool" for x using that hand_not_free[OF inv i] j(2) by auto
    show "x < 2 ^ max_order pool \<and> \<not> bb_in_list (blk pool x)" if "x \<in> insert ?j A" for x
      using that pool_invD(6,7)[OF inv] sp(3) j(2) bounds(2) by (auto simp: free_set_def)
    have "tiling (max_order pool) (insert ?j A \<union> free_set pool) ((\<lambda>i. bb_order (blk pool i))(i := k, ?j := k))"
      using sp(1) by simp
    then show "tiling (max_order pool) (insert ?j A \<union> free_set pool) (\<lambda>i. bb_order (blk ?p i))"
      by (rule iffD1[OF tiling_cong, rotated]) (use bounds k in auto)
  qed (use bounds in auto)
  let ?q = "buddy_list_push_back (home ?p ?j) ?j ?p"
  have push: "buddy_push_free ?j ?p = Some ?q" and invq: "pool_inv ?q (insert ?j A - {?j}) (L(home ?p ?j := L (home ?p ?j) @ [Block ?j]))"
    using inv_push[OF inv', of ?j] bounds mo by auto
  have "insert ?j A - {?j} = A" using j by auto
  moreover have "pool_frame pool ?q" by (rule pool_frame_trans[OF pool_frame_trans[OF pool_frame_upd pool_frame_upd] pool_frame_push]) simp_all
  moreover have "bb_order (blk ?q i) = k" "\<forall>a \<in> A - {i}. bb_order (blk ?q a) = bb_order (blk pool a)"
    using bounds k j by auto
  ultimately show ?thesis using split push invq by auto
qed

lemma split_loop_inv:
  "pool_inv pool A L \<Longrightarrow> i \<in> A \<Longrightarrow> target \<le> bb_order (blk pool i) \<Longrightarrow> bb_order (blk pool i) \<le> max_order_free pool \<Longrightarrow>
    \<exists>pool' L'. split_loop pool i target = Some pool' \<and> pool_inv pool' A L' \<and> pool_frame pool pool' \<and>
      max_order_free pool' = max_order_free pool \<and> bb_order (blk pool' i) = target \<and> (\<forall>a \<in> A - {i}. bb_order (blk pool' a) = bb_order (blk pool a))"
proof (induction "bb_order (blk pool i) - target" arbitrary: pool L)
  case 0
  have "i < nblocks pool" using pool_invD(1,6)[OF 0(2)] 0(3) by fastforce
  then show ?case using 0 by (subst split_loop.simps) auto
next
  case (Suc n)
  have ib: "i < nblocks pool" using pool_invD(1,6)[OF Suc(3)] Suc(4) by fastforce
  obtain k where k: "bb_order (blk pool i) = Suc k" "target \<le> k" using Suc(2,5) by (cases "bb_order (blk pool i)") auto
  obtain p' L' where p': "split_block pool i = Some p'" "pool_inv p' A L'" "pool_frame pool p'" "max_order_free p' = max_order_free pool"
    "bb_order (blk p' i) = k" "\<forall>a \<in> A - {i}. bb_order (blk p' a) = bb_order (blk pool a)"
    using split_inv[OF Suc(3,4) k(1)] Suc(6) k(1) by auto
  obtain q L'' where q: "split_loop p' i target = Some q" "pool_inv q A L''" "pool_frame p' q" "max_order_free q = max_order_free p'"
    "bb_order (blk q i) = target" "\<forall>a \<in> A - {i}. bb_order (blk q a) = bb_order (blk p' a)"
    using Suc(1)[of p' L'] Suc(2,4,6) p' k by (auto simp: Suc_diff_le)
  have "split_loop pool i target = Some q" using q(1) p'(1) k ib by (subst split_loop.simps) simp
  then show ?case using q p' pool_frame_trans by auto
qed

text \<open>Merging a block in hand with its buddy.\<close>

lemma try_merge_inv:
  assumes inv: "pool_inv pool A L" and i: "i \<in> A"
  shows "try_merge_buddy pool i = Some (None, pool) \<or>
    (\<exists>m pool' L'. try_merge_buddy pool i = Some (Some m, pool') \<and> pool_inv pool' (insert m (A - {i})) L' \<and> m \<notin> A - {i} \<and>
      pool_frame pool pool' \<and> max_order_free pool' = max_order_free pool \<and> (\<forall>a \<in> A - {i}. bb_order (blk pool' a) = bb_order (blk pool a)))"
proof -
  let ?k = "bb_order (blk pool i)" let ?j = "i XOR 2 ^ ?k" let ?M = "max_order pool"
  note T = pool_invD(8)[OF inv]
  have iS: "i \<in> A \<union> free_set pool" using i by simp
  have ib: "i < nblocks pool" using pool_invD(1,6)[OF inv] i by fastforce
  show ?thesis
  proof (cases "?j \<le> 2 ^ ?M \<and> bb_order (blk pool ?j) = ?k \<and> bb_in_list (blk pool ?j)")
    case False
    have "\<not> nblocks pool \<le> ?j" if "?j \<le> 2 ^ ?M" using that pool_invD(1)[OF inv] by linarith
    then have "try_merge_buddy pool i = Some (None, pool)"
      using False pool_invD(2)[OF inv] by (cases "?j \<le> 2 ^ ?M") (auto simp: try_merge_buddy_def Let_def)
    then show ?thesis ..
  next
    case True
    have jb: "?j < nblocks pool" using True pool_invD(1)[OF inv] by linarith
    then have jf: "?j \<in> free_set pool" using True by (simp add: free_set_def)
    then obtain h where h: "h \<in> pool_heads pool" "Block ?j \<in> set (L h)" using pool_invD(5)[OF inv] by blast
    let ?m = "min i ?j" and ?p = "buddy_list_remove ?j pool"
    let ?q = "upd_block ?m (\<lambda>b. b\<lparr>bb_order := bb_order b + 1\<rparr>) ?p" and ?L = "L(h := remove1 (Block ?j) (L h))"
    have merge: "try_merge_buddy pool i = Some (Some ?m, ?q)"
      using True jb pool_invD(2)[OF inv] by (auto simp: try_merge_buddy_def Let_def min_def)
    have invp: "pool_inv ?p (insert ?j A) ?L" by (rule inv_remove[OF inv h])
    note Tp = pool_invD(8)[OF invp]
    have jA: "?j \<notin> A" using jf hand_not_free[OF inv] by blast
    have o: "bb_order (blk ?p x) = bb_order (blk pool x)" for x by simp
    have ji: "i \<in> insert ?j A \<union> free_set ?p" "?j \<in> insert ?j A \<union> free_set ?p" using i by simp_all
    have tile: "tiling ?M (insert ?j A \<union> free_set ?p - {max i ?j}) ((\<lambda>x. bb_order (blk pool x))(?m := Suc ?k))"
      using tiling_merge_buddy(1)[OF Tp ji] True unfolding o by simp
    have ne: "i \<noteq> ?j" using xor_power_neq[of i ?k] by metis
    have A': "insert ?m (A - {i}) = insert ?j A - {max i ?j}" using i jA ne by (auto simp: min_def max_def)
    have nf: "max i ?j \<notin> free_set ?p" "?m \<notin> free_set ?p"
      using hand_not_free[OF invp, of i] hand_not_free[OF invp, of ?j] i by (auto simp: min_def max_def)
    have invq: "pool_inv ?q (insert ?m (A - {i})) ?L"
    proof (rule inv_orders[OF invp])
      show "blk ?q x = blk ?p x" if "x \<in> free_set ?p" for x using that nf by auto
      show "x < 2 ^ max_order ?p \<and> \<not> bb_in_list (blk ?p x)" if "x \<in> insert ?m (A - {i})" for x
        using that pool_invD(6,7)[OF invp] unfolding A' by blast
      have "insert ?m (A - {i}) \<union> free_set ?p = insert ?j A \<union> free_set ?p - {max i ?j}" using nf unfolding A' by auto
      moreover have "(\<lambda>x. bb_order (blk ?q x)) = (\<lambda>x. bb_order (blk pool x))(?m := Suc ?k)"
        using True ib jb by (auto simp: fun_eq_iff min_def)
      ultimately show "tiling (max_order ?p) (insert ?m (A - {i}) \<union> free_set ?p) (\<lambda>x. bb_order (blk ?q x))"
        using tile by simp
    qed simp_all
    have frame: "pool_frame pool ?q" by (rule pool_frame_trans[OF pool_frame_remove pool_frame_upd]) simp
    have mA: "?m \<notin> A - {i}" using jA by (auto simp: min_def)
    have "\<forall>a \<in> A - {i}. bb_order (blk ?q a) = bb_order (blk pool a)"
    proof
      fix a assume "a \<in> A - {i}"
      then have "a \<noteq> ?m" using mA by blast
      then show "bb_order (blk ?q a) = bb_order (blk pool a)" by simp
    qed
    then show ?thesis using merge invq frame mA by (intro disjI2 exI[of _ ?m] exI[of _ ?q] exI[of _ ?L]) simp
  qed
qed

lemma merge_loop_inv:
  "pool_inv pool A L \<Longrightarrow> i \<in> A \<Longrightarrow>
    \<exists>m pool' L'. merge_loop pool i = Some (m, pool') \<and> pool_inv pool' (insert m (A - {i})) L' \<and> m \<notin> A - {i} \<and>
      pool_frame pool pool' \<and> max_order_free pool' = max_order_free pool \<and> (\<forall>a \<in> A - {i}. bb_order (blk pool' a) = bb_order (blk pool a))"
proof (induction "listed_blocks pool" arbitrary: pool A L i rule: less_induct)
  case less
  from try_merge_inv[OF less.prems] show ?case
  proof (elim disjE exE conjE)
    assume "try_merge_buddy pool i = Some (None, pool)"
    then show ?thesis using less.prems by (subst merge_loop.simps) (auto simp: insert_absorb)
  next
    fix m p L' assume m: "try_merge_buddy pool i = Some (Some m, p)" "pool_inv p (insert m (A - {i})) L'" "m \<notin> A - {i}"
      "pool_frame pool p" "max_order_free p = max_order_free pool" "\<forall>a \<in> A - {i}. bb_order (blk p a) = bb_order (blk pool a)"
    obtain n q L'' where "merge_loop p m = Some (n, q)" "pool_inv q (insert n (insert m (A - {i}) - {m})) L''"
      "n \<notin> insert m (A - {i}) - {m}" "pool_frame p q" "max_order_free q = max_order_free p"
      "\<forall>a \<in> insert m (A - {i}) - {m}. bb_order (blk q a) = bb_order (blk p a)"
      using less.hyps[OF try_merge_listed[OF m(1)] m(2)] by blast
    moreover have "insert m (A - {i}) - {m} = A - {i}" using m(3) by simp
    moreover have "merge_loop pool i = merge_loop p m" using m(1) by (subst merge_loop.simps) simp
    ultimately show ?thesis using m(4-6) pool_frame_trans by auto
  qed
qed

lemma free_block_inv:
  assumes inv: "pool_inv pool A L" and i: "i \<in> A"
  shows "\<exists>pool' L'. free_block pool i = Some pool' \<and> pool_inv pool' (A - {i}) L' \<and> pool_frame pool pool' \<and>
    (\<forall>a \<in> A - {i}. bb_order (blk pool' a) = bb_order (blk pool a))"
proof -
  obtain m p L' where m: "merge_loop pool i = Some (m, p)" "pool_inv p (insert m (A - {i})) L'" "m \<notin> A - {i}"
    "pool_frame pool p" "\<forall>a \<in> A - {i}. bb_order (blk p a) = bb_order (blk pool a)"
    using merge_loop_inv[OF inv i] by blast
  let ?f = "if bb_is_waste (blk p m) then max_order_free p else max (max_order_free p) (bb_order (blk p m))"
  let ?q = "p\<lparr>max_order_free := ?f\<rparr>"
  have "bb_order (blk p m) \<le> max_order p" using tilingD(4)[OF pool_invD(8)[OF m(2)]] by blast
  then have invq: "pool_inv ?q (insert m (A - {i})) L'"
    using pool_invD(9,10)[OF m(2)] by (intro inv_same[OF m(2)]) (auto split: if_splits)
  have fb: "free_block pool i = buddy_push_free m ?q" using m(1) by (simp add: free_block_def Let_def)
  note push = inv_push[OF invq, of m]
  have frame: "pool_frame pool (buddy_list_push_back (home ?q m) m ?q)"
  proof (rule pool_frame_trans[OF m(4)])
    have "pool_frame p ?q" by (simp add: pool_frame_def)
    then show "pool_frame p (buddy_list_push_back (home ?q m) m ?q)" by (rule pool_frame_trans) simp
  qed
  have "insert m (A - {i}) - {m} = A - {i}" using m(3) by simp
  then show ?thesis using fb push frame m(5) by auto
qed

section \<open>Orders\<close>

text \<open>The top \<open>m\<close> bits of \<open>x\<close>, from its highest set bit \<open>n\<close> down, are all set.\<close>

definition top_run :: "nat \<Rightarrow> nat \<Rightarrow> u64 \<Rightarrow> bool" where
  "top_run n m x \<longleftrightarrow> (\<forall>i > n. \<not> bit x i) \<and> (\<forall>i \<le> n. n < i + m \<longrightarrow> bit x i)"

lemma top_run_double: "top_run n m x \<Longrightarrow> top_run n (m + m) (x OR drop_bit m x)"
  unfolding top_run_def
proof (intro conjI allI impI)
  fix i assume *: "(\<forall>i > n. \<not> bit x i) \<and> (\<forall>i \<le> n. n < i + m \<longrightarrow> bit x i)"
  show "i \<le> n \<Longrightarrow> n < i + (m + m) \<Longrightarrow> bit (x OR drop_bit m x) i"
    using * by (cases "n < i + m") (auto simp: bit_or_iff bit_drop_bit_eq add.commute)
  show "n < i \<Longrightarrow> \<not> bit (x OR drop_bit m x) i"
    using * by (auto simp: bit_or_iff bit_drop_bit_eq)
qed

lemma top_run_mask: "top_run n 64 x \<Longrightarrow> n < 64 \<Longrightarrow> x = mask (Suc n)"
  by (rule bit_word_eqI) (auto simp: top_run_def bit_mask_iff less_Suc_eq_le not_less[symmetric])

lemma bit_word_odd: "bit (x :: 'a::len word) i \<longleftrightarrow> odd (unat x div 2 ^ i)"
proof -
  have "bit x i = bit (unat x) i" by (simp add: bit_unsigned_iff)
  then show ?thesis by (simp only: bit_iff_odd)
qed

lemma top_bit_bounds:
  assumes "2 ^ n \<le> unat x" and "unat x < 2 ^ Suc n"
  shows "top_run n 1 (x :: u64)"
proof -
  have "\<not> bit x i" if "n < i" for i
  proof -
    have "(2::nat) ^ Suc n \<le> 2 ^ i" using that by (intro power_increasing) auto
    then have "unat x < 2 ^ i" using assms(2) by linarith
    then show ?thesis by (simp add: bit_word_odd)
  qed
  moreover have "bit x n"
  proof -
    have "unat x div 2 ^ n = 1" using assms by (intro div_nat_eqI) (simp_all add: mult.commute)
    then show ?thesis by (simp add: bit_word_odd)
  qed
  ultimately show ?thesis by (auto simp: top_run_def le_less)
qed

lemma power_interval:
  assumes "0 < (v::nat)"
  obtains n where "2 ^ n \<le> v" "v < 2 ^ Suc n"
  using ex_power_ivl1[of 2 v] assms that by (auto simp: Suc_le_eq)

lemma next_power_of_two_eq:
  assumes "2 ^ n < unat x" and "unat x \<le> 2 ^ Suc n" and "n < 63"
  shows "next_power_of_two x = 2 ^ Suc n"
proof -
  have "(1::nat) \<le> 2 ^ n" by simp
  then have gt: "1 < unat x" using assms(1) by linarith
  then have nle: "\<not> x \<le> 1" by (simp add: word_le_nat_alt)
  have "unat (x - 1) = unat x - 1" using gt by (subst unat_sub_small) (simp_all add: word_le_nat_alt)
  then have "top_run n 1 (x - 1)" using assms(1,2) by (intro top_bit_bounds) linarith+
  note r1 = top_run_double[OF this, unfolded one_add_one]
  note r2 = top_run_double[OF r1, unfolded numeral_plus_numeral semiring_norm]
  note r4 = top_run_double[OF r2, unfolded numeral_plus_numeral semiring_norm]
  note r8 = top_run_double[OF r4, unfolded numeral_plus_numeral semiring_norm]
  note r16 = top_run_double[OF r8, unfolded numeral_plus_numeral semiring_norm]
  note r32 = top_run_double[OF r16, unfolded numeral_plus_numeral semiring_norm]
  have "next_power_of_two x = mask (Suc n) + 1"
    unfolding next_power_of_two_def Let_def using nle top_run_mask[OF r32] assms(3) by simp
  then show ?thesis by (simp add: mask_eq_decr_exp)
qed

lemma get_order_power:
  assumes "k < 64" and "next_power_of_two x = 2 ^ k"
  shows "get_order x = k"
proof -
  have "(2::nat) ^ k < 2 ^ LENGTH(64)" using assms(1) by (intro power_strict_increasing) simp_all
  from unat_of_nat_small[OF this] have u: "unat ((2::u64) ^ k) = 2 ^ k" by (simp only: of_nat_power of_nat_numeral)
  have nz: "(2::u64) ^ k \<noteq> 0" using u by (metis power_not_zero unat_0 zero_neq_numeral)
  obtain n where n: "clz64 (2 ^ k) = int n" "2 ^ 63 \<le> (2::nat) ^ k * 2 ^ n" "(2::nat) ^ k * 2 ^ n < 2 ^ 64"
    using clz64_normalises[OF nz] unfolding u by blast
  have "(2::nat) ^ 63 \<le> 2 ^ (k + n)" "(2::nat) ^ (k + n) < 2 ^ 64" using n(2,3) by (simp_all only: power_add)
  then have "63 \<le> k + n" "k + n < 64" by (simp_all only: power_increasing_iff power_strict_increasing_iff one_less_numeral_iff semiring_norm)
  then have kn: "k = 63 - n" "n \<le> 63" by simp_all
  have "63 - count_leading_unset_bits64 (2 ^ k) = (63 - of_nat n :: u32)" unfolding count_leading_unset_bits64_def n(1) by simp
  also have "\<dots> = of_nat (63 - n)" using kn(2) by (simp add: of_nat_diff)
  finally have "unat (63 - count_leading_unset_bits64 (2 ^ k)) = k" unfolding kn(1)[symmetric] using assms(1) by (simp add: unat_of_nat_small)
  then show ?thesis using nz by (simp add: get_order_def assms(2) word_gt_0)
qed

text \<open>The order of a number of pages: the smallest exponent whose power reaches it.\<close>

lemma get_order_bounds:
  assumes "0 < unat x" and "unat x \<le> 2 ^ 63"
  shows "unat x \<le> 2 ^ get_order x" and "2 ^ get_order x < 2 * unat x" and "get_order x \<le> 63"
proof -
  have "unat x \<le> 2 ^ get_order x \<and> 2 ^ get_order x < 2 * unat x \<and> get_order x \<le> 63"
  proof (cases "unat x = 1")
    case True
    then have "next_power_of_two x = 2 ^ 0" by (simp add: next_power_of_two_def word_le_nat_alt)
    then have "get_order x = 0" by (intro get_order_power) simp_all
    then show ?thesis using True by simp
  next
    case False
    then obtain n where n: "2 ^ n \<le> unat x - 1" "unat x - 1 < 2 ^ Suc n" using power_interval[of "unat x - 1"] assms(1) by auto
    then have b: "2 ^ n < unat x" "unat x \<le> 2 ^ Suc n" using assms(1) False by linarith+
    have "(2::nat) ^ n < 2 ^ 63" using b(1) assms(2) by linarith
    then have "n < 63" by (simp only: power_strict_increasing_iff one_less_numeral_iff semiring_norm)
    then have "get_order x = Suc n" using next_power_of_two_eq[OF b] by (intro get_order_power) simp_all
    then show ?thesis using b \<open>n < 63\<close> by simp
  qed
  then show "unat x \<le> 2 ^ get_order x" and "2 ^ get_order x < 2 * unat x" and "get_order x \<le> 63" by simp_all
qed

section \<open>Searching for a block\<close>

abbreviation request_last :: "u64 \<Rightarrow> nat \<Rightarrow> nat" where
  "request_last pages b \<equiv> unat ((of_nat b + pages) - 1)"

lemma find_in_list_walk:
  assumes "ring_at (pool_links pool) h (xs @ ys)"
    and "\<And>n. n \<in> set xs \<Longrightarrow> \<exists>b. n = Block b \<and> request_last pages b < nblocks pool"
  shows "find_in_list pool h (hd (ys @ [h])) pages = Some None \<and> (\<forall>b. Block b \<in> set xs \<longrightarrow> bb_is_waste (blk pool (request_last pages b))) \<or>
    (\<exists>b. Block b \<in> set xs \<and> find_in_list pool h (hd (ys @ [h])) pages = Some (Some b) \<and> \<not> bb_is_waste (blk pool (request_last pages b)))"
  using assms
proof (induction xs arbitrary: ys rule: rev_induct)
  case Nil
  then have "ring_prev (pool_links pool) (hd (ys @ [h])) = h" using ring_walk_first by fastforce
  then show ?case by (subst find_in_list.simps) simp
next
  case (snoc n xs)
  have ring: "ring_at (pool_links pool) h (xs @ n # ys)" using snoc.prems(1) by simp
  obtain b where b: "n = Block b" "request_last pages b < nblocks pool" using snoc.prems(2)[of n] by auto
  have prev: "ring_prev (pool_links pool) (hd (ys @ [h])) = Block b" using ring_walk[OF ring] b(1) by simp
  have ne: "Block b \<noteq> h" using ring b(1) by (auto simp: ring_at_def)
  have step: "find_in_list pool h (hd (ys @ [h])) pages =
      (if \<not> bb_is_waste (blk pool (request_last pages b)) then Some (Some b) else find_in_list pool h (Block b) pages)"
    using prev ne b(2) by (subst find_in_list.simps) (simp add: Let_def)
  show ?case
  proof (cases "bb_is_waste (blk pool (request_last pages b))")
    case False
    then show ?thesis using step b(1) by auto
  next
    case True
    have "hd ((n # ys) @ [h]) = Block b" using b(1) by simp
    then show ?thesis using snoc.IH[OF ring] snoc.prems(2) step True b(1) by auto
  qed
qed

text \<open>The request fits in the block \<open>b\<close>: its last page is not waste.\<close>

definition suits :: "memory_pool \<Rightarrow> u64 \<Rightarrow> nat \<Rightarrow> bool" where
  "suits pool pages b \<longleftrightarrow> \<not> bb_is_waste (blk pool (b + unat pages - 1))"

lemma max_order_bound: "pool_inv pool A L \<Longrightarrow> (2::nat) ^ max_order pool < 2 ^ 64 \<and> max_order pool \<le> 63"
proof -
  assume "pool_inv pool A L"
  then have "(2::nat) ^ max_order pool < 2 ^ 64"
    using pool_invD(2) unat_less[of "pool_pages pool + ucast (max_order_waste pool)"] by fastforce
  moreover from this have "max_order pool < 64" by (simp only: power_strict_increasing_iff one_less_numeral_iff semiring_norm)
  ultimately show ?thesis by simp
qed

lemma request_last_eq:
  assumes inv: "pool_inv pool A L" and b: "b \<in> free_set pool" and pages: "0 < unat pages" "unat pages \<le> 2 ^ bb_order (blk pool b)"
  shows "request_last pages b = b + unat pages - 1" and "b + unat pages \<le> 2 ^ max_order pool"
proof -
  show le: "b + unat pages \<le> 2 ^ max_order pool" using tilingD(2)[OF pool_invD(8)[OF inv], of b] b pages(2) by auto
  have lt: "b + unat pages < 2 ^ LENGTH(64)" using le max_order_bound[OF inv] by simp
  then have "unat (of_nat b + pages :: u64) = b + unat pages"
    using unat_of_nat_small[of b, where 'a = 64] unat_add_small[of "of_nat b" pages] by simp
  then show "request_last pages b = b + unat pages - 1"
    using pages(1) by (subst unat_sub_small) (simp_all add: word_le_nat_alt)
qed

lemma find_in_list_inv:
  assumes inv: "pool_inv pool A L" and a: "a \<le> max_order pool" and pages: "0 < unat pages" "unat pages \<le> 2 ^ a"
  shows "find_in_list pool (Free_List a) (Free_List a) pages = Some None \<and> (\<forall>b. Block b \<in> set (L (Free_List a)) \<longrightarrow> \<not> suits pool pages b) \<or>
    (\<exists>b. Block b \<in> set (L (Free_List a)) \<and> find_in_list pool (Free_List a) (Free_List a) pages = Some (Some b) \<and> suits pool pages b)"
proof -
  have h: "Free_List a \<in> pool_heads pool" using a by (simp add: pool_heads_def)
  have last: "request_last pages b = b + unat pages - 1" "request_last pages b < nblocks pool" if b: "Block b \<in> set (L (Free_List a))" for b
  proof -
    have bf: "b \<in> free_set pool" "bb_order (blk pool b) = a" using entry_index(3,5)[OF inv h b] by (auto split: if_splits)
    then show "request_last pages b = b + unat pages - 1" using request_last_eq(1)[OF inv bf(1) pages(1)] pages(2) by simp
    moreover have "b + unat pages \<le> 2 ^ max_order pool" using request_last_eq(2)[OF inv bf(1) pages(1)] bf(2) pages(2) by simp
    ultimately show "request_last pages b < nblocks pool" using pages(1) pool_invD(1)[OF inv] by linarith
  qed
  have "\<exists>b. n = Block b \<and> request_last pages b < nblocks pool" if "n \<in> set (L (Free_List a))" for n
    using pool_invD(4)[OF inv h that] last(2) that by (auto simp: entry_ok_def)
  then show ?thesis
    using find_in_list_walk[of pool "Free_List a" "L (Free_List a)" "[]" pages] ringsD[OF pool_invD(3)[OF inv] h] last(1)
    by (auto simp: suits_def)
qed

lemma find_in_orders_inv:
  assumes inv: "pool_inv pool A L" and pages: "0 < unat pages"
  shows "\<forall>a \<in> set as. a \<le> max_order pool \<and> unat pages \<le> 2 ^ a \<Longrightarrow>
    find_in_orders pool pages as = Some None \<and> (\<forall>a \<in> set as. \<forall>b. Block b \<in> set (L (Free_List a)) \<longrightarrow> \<not> suits pool pages b) \<or>
    (\<exists>a \<in> set as. \<exists>b. Block b \<in> set (L (Free_List a)) \<and> find_in_orders pool pages as = Some (Some b) \<and> suits pool pages b)"
proof (induction as)
  case (Cons a as)
  have a: "a \<le> max_order pool" "unat pages \<le> 2 ^ a" using Cons.prems by auto
  from find_in_list_inv[OF inv a(1) pages a(2)] show ?case
  proof (elim disjE exE conjE)
    assume none: "find_in_list pool (Free_List a) (Free_List a) pages = Some None" "\<forall>b. Block b \<in> set (L (Free_List a)) \<longrightarrow> \<not> suits pool pages b"
    have "find_in_orders pool pages as = Some None \<and> (\<forall>a \<in> set as. \<forall>b. Block b \<in> set (L (Free_List a)) \<longrightarrow> \<not> suits pool pages b) \<or>
      (\<exists>a \<in> set as. \<exists>b. Block b \<in> set (L (Free_List a)) \<and> find_in_orders pool pages as = Some (Some b) \<and> suits pool pages b)"
      by (rule Cons.IH) (use Cons.prems in auto)
    then show ?thesis using none by auto
  next
    fix b assume "Block b \<in> set (L (Free_List a))" "find_in_list pool (Free_List a) (Free_List a) pages = Some (Some b)" "suits pool pages b"
    then show ?thesis by (intro disjI2 bexI[of _ a] exI[of _ b]) simp_all
  qed
qed simp

text \<open>
  The search of one pool: it takes a suitable block off its list, and finds none only when no free
  block of a sufficient order suits the request.
\<close>

lemma pool_find_block_inv:
  assumes inv: "pool_inv pool A L" and pages: "0 < unat pages" "unat pages \<le> 2 ^ order"
  shows "pool_find_block pool order pages = Some (None, pool) \<and>
      (\<forall>b \<in> free_set pool. \<not> bb_is_waste (blk pool b) \<and> order \<le> bb_order (blk pool b) \<longrightarrow> \<not> suits pool pages b) \<or>
    (\<exists>b L'. pool_find_block pool order pages = Some (Some b, buddy_list_remove b pool) \<and> pool_inv (buddy_list_remove b pool) (insert b A) L' \<and>
      b \<notin> A \<and> b < nblocks pool \<and> suits pool pages b \<and> order \<le> bb_order (blk pool b) \<and> bb_order (blk pool b) \<le> max_order_free pool \<and>
      b + unat pages \<le> 2 ^ max_order pool)"
proof -
  let ?as = "[order..<max_order pool + 1]"
  have as: "a \<le> max_order pool \<and> unat pages \<le> 2 ^ a" if "a \<in> set ?as" for a
  proof -
    have "(2::nat) ^ order \<le> 2 ^ a" using that by (intro power_increasing) auto
    then have "unat pages \<le> 2 ^ a" using pages(2) by linarith
    then show ?thesis using that by auto
  qed
  have "\<forall>a \<in> set ?as. a \<le> max_order pool \<and> unat pages \<le> 2 ^ a" using as by blast
  from find_in_orders_inv[OF inv pages(1) this] show ?thesis
  proof (elim disjE bexE exE conjE)
    assume none: "find_in_orders pool pages ?as = Some None" "\<forall>a \<in> set ?as. \<forall>b. Block b \<in> set (L (Free_List a)) \<longrightarrow> \<not> suits pool pages b"
    have "\<not> suits pool pages b" if b: "b \<in> free_set pool" "\<not> bb_is_waste (blk pool b)" "order \<le> bb_order (blk pool b)" for b
    proof -
      have "Block b \<in> set (L (Free_List (bb_order (blk pool b))))" using free_set_listed[OF inv b(1)] b(2) by auto
      moreover have "bb_order (blk pool b) \<le> max_order pool" using tilingD(4)[OF pool_invD(8)[OF inv]] b(1) by blast
      ultimately show ?thesis using none(2) b(3) by (auto simp del: upt_Suc)
    qed
    then show ?thesis using none(1) unfolding pool_find_block_def by simp
  next
    fix a b assume b: "a \<in> set ?as" "Block b \<in> set (L (Free_List a))" "find_in_orders pool pages ?as = Some (Some b)" "suits pool pages b"
    have h: "Free_List a \<in> pool_heads pool" using as[OF b(1)] by (simp add: pool_heads_def)
    note e = entry_index[OF inv h b(2)]
    have o: "bb_order (blk pool b) = a" using e(5) by (auto split: if_splits)
    have "a \<le> max_order_free pool" using pool_invD(10)[OF inv, of a] as[OF b(1)] b(2) by (force simp: not_less[symmetric])
    moreover have "b + unat pages \<le> 2 ^ max_order pool" using request_last_eq(2)[OF inv e(3) pages(1)] as[OF b(1)] o by simp
    moreover have "pool_find_block pool order pages = Some (Some b, buddy_list_remove b pool)" unfolding pool_find_block_def using b(3) by simp
    ultimately show ?thesis using inv_remove[OF inv h b(2)] e b(1,4) o by auto
  qed
qed

end
