(* ===== verification/Allocator.thy ===== *)
theory Allocator
  imports Badger_Prelude
begin

text \<open>
  What the clients of an allocator rely on. A request has a kind and a size; a state that meets the
  invariant serves every admissible request with the address of new memory or with 0, frees what
  was allocated, and keeps the allocations apart. The step relation is a client that allocates and
  frees in any order, with the map of the allocations it holds.
\<close>

type_synonym 'r allocations = "u64 \<rightharpoonup> 'r \<times> u64"

definition apart :: "u64 \<Rightarrow> u64 \<Rightarrow> u64 \<Rightarrow> u64 \<Rightarrow> bool" where
  "apart a sz a' sz' \<longleftrightarrow> unat a + unat sz \<le> unat a' \<or> unat a' + unat sz' \<le> unat a"

inductive alloc_step :: "('r \<Rightarrow> 's \<Rightarrow> u64 \<Rightarrow> ('s \<times> u64) option) \<Rightarrow> ('r \<Rightarrow> 's \<Rightarrow> u64 \<Rightarrow> 's option) \<Rightarrow> ('r \<Rightarrow> u64 \<Rightarrow> bool) \<Rightarrow>
    's \<times> 'r allocations \<Rightarrow> 's \<times> 'r allocations \<Rightarrow> bool" for alloc free ok where
  step_alloc: "ok r sz \<Longrightarrow> alloc r s sz = Some (s', a) \<Longrightarrow>
    alloc_step alloc free ok (s, live) (s', if a = 0 then live else live(a \<mapsto> (r, sz)))"
| step_free: "live a = Some (r, sz) \<Longrightarrow> free r s a = Some s' \<Longrightarrow> alloc_step alloc free ok (s, live) (s', live(a := None))"

inductive_cases alloc_stepE: "alloc_step alloc free ok s s'"

locale allocator =
  fixes alloc :: "'r \<Rightarrow> 's \<Rightarrow> u64 \<Rightarrow> ('s \<times> u64) option" and free :: "'r \<Rightarrow> 's \<Rightarrow> u64 \<Rightarrow> 's option"
    and ok :: "'r \<Rightarrow> u64 \<Rightarrow> bool" and inv :: "'s \<Rightarrow> 'r allocations \<Rightarrow> bool"
  assumes serve: "inv s live \<Longrightarrow> ok r sz \<Longrightarrow> \<exists>s' a. alloc r s sz = Some (s', a) \<and>
      (a = 0 \<and> inv s' live \<or> a \<noteq> 0 \<and> a \<notin> dom live \<and> inv s' (live(a \<mapsto> (r, sz))))"
    and release: "inv s live \<Longrightarrow> live a = Some (r, sz) \<Longrightarrow> \<exists>s'. free r s a = Some s' \<and> inv s' (live(a := None))"
    and separate: "inv s live \<Longrightarrow> live a = Some (r, sz) \<Longrightarrow> live a' = Some (r', sz') \<Longrightarrow> a \<noteq> a' \<Longrightarrow> apart a sz a' sz'"
begin

lemma step_inv: "alloc_step alloc free ok s s' \<Longrightarrow> inv (fst s) (snd s) \<Longrightarrow> inv (fst s') (snd s')"
proof (induction rule: alloc_step.induct)
  case (step_alloc r sz s s' a live)
  then show ?case using serve[of s live r sz] by (auto split: if_splits)
next
  case (step_free live a r sz s s')
  then show ?case using release[of s live a r sz] by (auto simp: fun_upd_def)
qed

lemma reach_inv: "(alloc_step alloc free ok)\<^sup>*\<^sup>* s s' \<Longrightarrow> inv (fst s) (snd s) \<Longrightarrow> inv (fst s') (snd s')"
  by (induction rule: rtranclp_induct) (blast intro: step_inv)+

lemma reach_separate:
  assumes "inv s Map.empty" and "(alloc_step alloc free ok)\<^sup>*\<^sup>* (s, Map.empty) (s', live)"
    and "live a = Some (r, sz)" and "live a' = Some (r', sz')" and "a \<noteq> a'"
  shows "apart a sz a' sz'"
  using reach_inv[OF assms(2)] assms(1) separate[of s' live a r sz a' r' sz'] assms(3-) by simp

lemma reach_serve:
  assumes "inv s Map.empty" and "(alloc_step alloc free ok)\<^sup>*\<^sup>* (s, Map.empty) (s', live)" and "ok r sz"
  shows "\<exists>s'' a. alloc r s' sz = Some (s'', a) \<and> (a = 0 \<or> a \<notin> dom live)"
  using reach_inv[OF assms(2)] assms(1) serve[OF _ assms(3), of s' live] by auto

lemma reach_release:
  assumes "inv s Map.empty" and "(alloc_step alloc free ok)\<^sup>*\<^sup>* (s, Map.empty) (s', live)" and "live a = Some (r, sz)"
  shows "\<exists>s''. free r s' a = Some s''"
  using reach_inv[OF assms(2)] assms(1) release[of s' live a r sz] assms(3) by auto

end

end
