(* ===== verification/Buddy_Heap.thy ===== *)
theory Buddy_Heap
  imports Buddy Allocator
begin

text \<open>
  The page allocator as its clients see it: the heap invariant relates the pools to the map from the
  addresses of live allocations to their sizes, and is kept by allocation and deallocation and
  established by \<^verbatim>\<open>init_pool\<close>. The properties of the allocator are at the end.
\<close>

section \<open>The heap invariant\<close>

text \<open>Where the pages of a pool are: waste is at the end, and everything else is memory of the pool.\<close>

definition pool_layout :: "memory_pool \<Rightarrow> bool" where
  "pool_layout pool \<longleftrightarrow>
     (\<forall>i j. i \<le> j \<and> j < 2 ^ max_order pool \<and> bb_is_waste (blk pool i) \<longrightarrow> bb_is_waste (blk pool j)) \<and>
     (\<forall>i < 2 ^ max_order pool. \<not> bb_is_waste (blk pool i) \<longrightarrow> i < unat (pool_pages pool)) \<and>
     pages_start pool \<noteq> 0 \<and> ALIGN_DOWN (pages_start pool) PAGE_SIZE = pages_start pool \<and>
     unat (pages_start pool) + unat (pool_pages pool) * 4096 < 2 ^ 64 \<and>
     unat (pages_end pool) = unat (pages_start pool) + unat (pool_pages pool) * 4096"

lemma pool_layoutD:
  assumes "pool_layout pool"
  shows "\<And>i j. i \<le> j \<Longrightarrow> j < 2 ^ max_order pool \<Longrightarrow> bb_is_waste (blk pool i) \<Longrightarrow> bb_is_waste (blk pool j)"
    and "\<And>i. i < 2 ^ max_order pool \<Longrightarrow> \<not> bb_is_waste (blk pool i) \<Longrightarrow> i < unat (pool_pages pool)"
    and "pages_start pool \<noteq> 0" and "ALIGN_DOWN (pages_start pool) PAGE_SIZE = pages_start pool"
    and "unat (pages_start pool) + unat (pool_pages pool) * 4096 < 2 ^ 64"
    and "unat (pages_end pool) = unat (pages_start pool) + unat (pool_pages pool) * 4096"
proof -
  note l = assms[unfolded pool_layout_def]
  show "\<And>i j. i \<le> j \<Longrightarrow> j < 2 ^ max_order pool \<Longrightarrow> bb_is_waste (blk pool i) \<Longrightarrow> bb_is_waste (blk pool j)"
    using conjunct1[OF l] by blast
  show "\<And>i. i < 2 ^ max_order pool \<Longrightarrow> \<not> bb_is_waste (blk pool i) \<Longrightarrow> i < unat (pool_pages pool)"
    using conjunct1[OF conjunct2[OF l]] by blast
  show "pages_start pool \<noteq> 0" "ALIGN_DOWN (pages_start pool) PAGE_SIZE = pages_start pool"
    "unat (pages_start pool) + unat (pool_pages pool) * 4096 < 2 ^ 64"
    "unat (pages_end pool) = unat (pages_start pool) + unat (pool_pages pool) * 4096"
    using conjunct2[OF conjunct2[OF l]] by blast+
qed

lemma pool_layout_same:
  assumes "pool_layout p" and "pages_start q = pages_start p" and "pages_end q = pages_end p" and "pool_pages q = pool_pages p"
    and "max_order q = max_order p" and "\<And>i. bb_is_waste (blk q i) = bb_is_waste (blk p i)"
  shows "pool_layout q"
  using assms(1) unfolding pool_layout_def assms(2-6) .

lemma unat_block_address:
  assumes "pool_layout pool" and "b < unat (pool_pages pool)"
  shows "unat (block_to_address pool b) = unat (pages_start pool) + b * 4096"
proof -
  note l = pool_layoutD(5)[OF assms(1)]
  have "b * 4096 < unat (pool_pages pool) * 4096" using assms(2) by simp
  then have lt: "unat (pages_start pool) + b * 4096 < 2 ^ LENGTH(64)" using l by simp
  have "of_nat b * PAGE_SIZE = (of_nat (b * 4096) :: u64)" by (simp add: PAGE_SIZE_def)
  moreover have "unat (of_nat (b * 4096) :: u64) = b * 4096" using lt by (intro unat_of_nat_small) linarith
  ultimately show ?thesis unfolding block_to_address_def using unat_add_small[of "pages_start pool" "of_nat b * PAGE_SIZE"] lt by simp
qed

text \<open>
  \<open>live\<close> maps the address of every allocation to its size. The blocks a pool has handed out are the
  ones at such addresses.
\<close>

definition held :: "memory_pool \<Rightarrow> (u64 \<rightharpoonup> u64) \<Rightarrow> nat set" where
  "held pool live = {b. b < unat (pool_pages pool) \<and> block_to_address pool b \<in> dom live}"

definition pools_apart :: "memory_pool list \<Rightarrow> bool" where
  "pools_apart pools \<longleftrightarrow> (\<forall>p < length pools. \<forall>q < length pools. p \<noteq> q \<longrightarrow>
     unat (pages_end (pools ! p)) \<le> unat (pages_start (pools ! q)) \<or> unat (pages_end (pools ! q)) \<le> unat (pages_start (pools ! p)))"

definition counted :: "memory_pool \<Rightarrow> nat set \<Rightarrow> bool" where
  "counted pool A \<longleftrightarrow> free_pages pool + of_nat (\<Sum>b \<in> A. 2 ^ bb_order (blk pool b)) = pool_pages pool"

definition alloc_at :: "memory_pool \<Rightarrow> (u64 \<rightharpoonup> u64) \<Rightarrow> u64 \<Rightarrow> u64 \<Rightarrow> bool" where
  "alloc_at pool live a sz \<longleftrightarrow> (\<exists>b \<in> held pool live. a = block_to_address pool b \<and>
     b * 4096 + unat sz \<le> unat (pool_pages pool) * 4096 \<and> unat sz \<le> 2 ^ bb_order (blk pool b) * 4096)"

definition heap_inv :: "memory_pool list \<Rightarrow> (u64 \<rightharpoonup> u64) \<Rightarrow> bool" where
  "heap_inv pools live \<longleftrightarrow>
     (\<forall>p < length pools. pool_layout (pools ! p) \<and> (\<exists>L. pool_inv (pools ! p) (held (pools ! p) live) L) \<and>
        counted (pools ! p) (held (pools ! p) live)) \<and>
     pools_apart pools \<and> (\<forall>a sz. live a = Some sz \<longrightarrow> (\<exists>p < length pools. alloc_at (pools ! p) live a sz))"

lemma held_finite: "finite (held pool live)"
  by (rule finite_subset[of _ "{..<unat (pool_pages pool)}"]) (auto simp: held_def)

lemma block_address_inj:
  assumes "pool_layout pool" and "b < unat (pool_pages pool)" and "c < unat (pool_pages pool)"
    and "block_to_address pool b = block_to_address pool c"
  shows "b = c"
proof -
  have "unat (pages_start pool) + b * 4096 = unat (pages_start pool) + c * 4096"
    unfolding unat_block_address[OF assms(1,2), symmetric] unat_block_address[OF assms(1,3), symmetric] assms(4) ..
  then show ?thesis by simp
qed

lemma block_address_range:
  assumes "pool_layout pool" and "b < unat (pool_pages pool)"
  shows "pages_start pool \<le> block_to_address pool b" and "block_to_address pool b < pages_end pool"
proof -
  have "b * 4096 < unat (pool_pages pool) * 4096" using assms(2) by simp
  then show "pages_start pool \<le> block_to_address pool b" "block_to_address pool b < pages_end pool"
    using unat_block_address[OF assms] pool_layoutD(6)[OF assms(1)] by (simp_all add: word_le_nat_alt word_less_nat_alt)
qed

lemma block_address_pools:
  assumes "pools_apart pools" and "p < length pools" and "q < length pools" and "pool_layout (pools ! p)" and "pool_layout (pools ! q)"
    and "b < unat (pool_pages (pools ! p))" and "c < unat (pool_pages (pools ! q))"
    and "block_to_address (pools ! p) b = block_to_address (pools ! q) c"
  shows "p = q"
proof (rule ccontr)
  assume "p \<noteq> q"
  then have "unat (pages_end (pools ! p)) \<le> unat (pages_start (pools ! q)) \<or> unat (pages_end (pools ! q)) \<le> unat (pages_start (pools ! p))"
    using assms(1-3) unfolding pools_apart_def by blast
  then show False
    using block_address_range[OF assms(4,6)] block_address_range[OF assms(5,7)] assms(8) by (auto simp: word_le_nat_alt word_less_nat_alt)
qed

text \<open>Taking a block out of a pool: the pool part of an allocation.\<close>

definition finish_alloc :: "memory_pool \<Rightarrow> nat \<Rightarrow> block_type \<Rightarrow> memory_pool" where
  "finish_alloc pool b ty =
     (let pool = pool\<lparr>max_order_free := shrink_max_order (pool_links pool) (max_order_free pool)\<rparr>;
          pool = pool\<lparr>free_pages := free_pages pool - of_nat (2 ^ bb_order (blk pool b))\<rparr>
      in upd_block b (\<lambda>x. x\<lparr>bb_type := ty\<rparr>) pool)"

lemma shrink_max_order_inv:
  assumes inv: "pool_inv pool A L"
  shows "m \<le> max_order pool \<Longrightarrow> (\<And>k. m < k \<Longrightarrow> k \<le> max_order pool \<Longrightarrow> L (Free_List k) = []) \<Longrightarrow>
    shrink_max_order (pool_links pool) m \<le> max_order pool \<and>
    (\<forall>k. shrink_max_order (pool_links pool) m < k \<and> k \<le> max_order pool \<longrightarrow> L (Free_List k) = [])"
proof (induction m)
  case 0
  then show ?case by (subst (1 2) shrink_max_order.simps) auto
next
  case (Suc m)
  have "Free_List (Suc m) \<in> pool_heads pool" using Suc.prems(1) by (simp add: pool_heads_def)
  then have e: "list_empty (Free_List (Suc m)) (pool_links pool) \<longleftrightarrow> L (Free_List (Suc m)) = []"
    by (rule rings_empty_iff[OF pool_invD(3)[OF inv]])
  show ?case
  proof (cases "list_empty (Free_List (Suc m)) (pool_links pool)")
    case True
    then have "shrink_max_order (pool_links pool) (Suc m) = shrink_max_order (pool_links pool) m" by (subst shrink_max_order.simps) simp
    moreover have "L (Free_List k) = []" if "m < k" "k \<le> max_order pool" for k
      using that True e Suc.prems(2)[of k] by (cases "k = Suc m") auto
    ultimately show ?thesis using Suc.IH Suc.prems(1) by simp
  next
    case False
    then have "shrink_max_order (pool_links pool) (Suc m) = Suc m" by (subst shrink_max_order.simps) simp
    then show ?thesis using Suc.prems by simp
  qed
qed

lemma finish_alloc_fields [simp]:
  "pages_start (finish_alloc pool b ty) = pages_start pool" "pages_end (finish_alloc pool b ty) = pages_end pool"
  "pool_pages (finish_alloc pool b ty) = pool_pages pool" "max_order (finish_alloc pool b ty) = max_order pool"
  "max_order_waste (finish_alloc pool b ty) = max_order_waste pool" "nblocks (finish_alloc pool b ty) = nblocks pool"
  "pool_links (finish_alloc pool b ty) = pool_links pool"
  "bb_order (blk (finish_alloc pool b ty) i) = bb_order (blk pool i)" "bb_is_waste (blk (finish_alloc pool b ty) i) = bb_is_waste (blk pool i)"
  "bb_in_list (blk (finish_alloc pool b ty) i) = bb_in_list (blk pool i)"
  "free_pages (finish_alloc pool b ty) = free_pages pool - of_nat (2 ^ bb_order (blk pool b))"
  "max_order_free (finish_alloc pool b ty) = shrink_max_order (pool_links pool) (max_order_free pool)"
  by (simp_all add: finish_alloc_def Let_def)

lemma finish_alloc_inv:
  assumes inv: "pool_inv pool A L"
  shows "pool_inv (finish_alloc pool b ty) A L"
proof -
  have "shrink_max_order (pool_links pool) (max_order_free pool) \<le> max_order pool \<and>
      (\<forall>k. shrink_max_order (pool_links pool) (max_order_free pool) < k \<and> k \<le> max_order pool \<longrightarrow> L (Free_List k) = [])"
    by (rule shrink_max_order_inv[OF inv pool_invD(9)[OF inv]]) (rule pool_invD(10)[OF inv])
  then show ?thesis by (intro inv_same[OF inv]) simp_all
qed

lemma take_block_inv:
  assumes inv: "pool_inv (buddy_list_remove b pool) (insert b A) L" and order: "order \<le> bb_order (blk pool b)" "bb_order (blk pool b) \<le> max_order_free pool"
    and b: "b \<notin> A" "finite A" and cnt: "counted pool A"
  shows "\<exists>pool' L'. split_loop (buddy_list_remove b pool) b order = Some pool' \<and> pool_inv (finish_alloc pool' b ty) (insert b A) L' \<and>
    counted (finish_alloc pool' b ty) (insert b A) \<and> pool_frame pool pool' \<and> bb_order (blk pool' b) = order \<and>
    (\<forall>a \<in> A. bb_order (blk pool' a) = bb_order (blk pool a))"
proof -
  let ?p = "buddy_list_remove b pool"
  have o: "bb_order (blk ?p x) = bb_order (blk pool x)" for x by simp
  obtain q L' where q: "split_loop ?p b order = Some q" "pool_inv q (insert b A) L'" "pool_frame ?p q" "bb_order (blk q b) = order"
    "\<forall>a \<in> insert b A - {b}. bb_order (blk q a) = bb_order (blk ?p a)"
    using split_loop_inv[OF inv, of b order] order unfolding o by auto
  have frame: "pool_frame pool q" by (rule pool_frame_trans[OF pool_frame_remove q(3)])
  have same: "bb_order (blk q a) = bb_order (blk pool a)" if "a \<in> A" for a using q(5) that b(1) unfolding o by blast
  have "(\<Sum>a \<in> insert b A. 2 ^ bb_order (blk q a)) = (2::u64) ^ order + (\<Sum>a \<in> A. 2 ^ bb_order (blk pool a))"
    using b same q(4) by simp
  then have "counted (finish_alloc q b ty) (insert b A)"
    using cnt frame q(4) unfolding counted_def by (simp add: pool_frame_def)
  then show ?thesis using q(1,4) finish_alloc_inv[OF q(2)] frame same by blast
qed

text \<open>Two pools that describe the same memory.\<close>

definition same_place :: "memory_pool \<Rightarrow> memory_pool \<Rightarrow> bool" where
  "same_place p q \<longleftrightarrow> pages_start q = pages_start p \<and> pages_end q = pages_end p \<and> pool_pages q = pool_pages p \<and>
     max_order q = max_order p \<and> (\<forall>i. bb_is_waste (blk q i) = bb_is_waste (blk p i))"

lemma same_place_frame: "pool_frame p q \<Longrightarrow> same_place p q"
  by (simp add: pool_frame_def same_place_def)

lemma same_place_layout: "same_place p q \<Longrightarrow> pool_layout p \<Longrightarrow> pool_layout q"
  by (rule pool_layout_same) (simp_all add: same_place_def)

lemma same_place_address: "same_place p q \<Longrightarrow> block_to_address q b = block_to_address p b"
  by (simp add: same_place_def block_to_address_def)

lemma same_place_held: "same_place p q \<Longrightarrow> held q live = held p live"
  by (simp add: held_def same_place_address) (simp add: same_place_def)

text \<open>One pool and the allocation at one address change.\<close>

lemma heap_inv_update:
  assumes inv: "heap_inv pools live" and p: "p < length pools" and same: "same_place (pools ! p) P"
    and b: "b < unat (pool_pages (pools ! p))" and live: "\<And>x. x \<noteq> block_to_address (pools ! p) b \<Longrightarrow> live' x = live x"
    and P: "pool_inv P (held P live') L" "counted P (held P live')"
    and order: "\<And>c. c \<in> held (pools ! p) live - {b} \<Longrightarrow> bb_order (blk P c) = bb_order (blk (pools ! p) c)"
    and new: "\<And>sz. live' (block_to_address (pools ! p) b) = Some sz \<Longrightarrow> alloc_at P live' (block_to_address (pools ! p) b) sz"
  shows "heap_inv (pools[p := P]) live'"
  unfolding heap_inv_def
proof (intro conjI allI impI)
  let ?a = "block_to_address (pools ! p) b"
  have lay: "pool_layout (pools ! q)" if "q < length pools" for q using inv that by (simp add: heap_inv_def)
  have apart: "pools_apart pools" using inv by (simp add: heap_inv_def)
  show "pools_apart (pools[p := P])" using apart p same by (auto simp: pools_apart_def nth_list_update same_place_def)
  have away: "block_to_address (pools ! q) c \<noteq> ?a" if "q < length pools" "q \<noteq> p" "c < unat (pool_pages (pools ! q))" for q c
    using block_address_pools[OF apart that(1) p lay[OF that(1)] lay[OF p] that(3) b] that(2) by blast
  have held_other: "held (pools ! q) live' = held (pools ! q) live" if "q < length pools" "q \<noteq> p" for q
    using away[OF that] live by (auto simp: held_def dom_def)
  fix q assume q: "q < length (pools[p := P])"
  show "pool_layout (pools[p := P] ! q)"
    using q lay same_place_layout[OF same lay[OF p]] by (cases "q = p") simp_all
  show "\<exists>L. pool_inv (pools[p := P] ! q) (held (pools[p := P] ! q) live') L"
    using q P(1) held_other[of q] inv by (cases "q = p") (auto simp: heap_inv_def)
  show "counted (pools[p := P] ! q) (held (pools[p := P] ! q) live')"
    using q P(2) held_other[of q] inv by (cases "q = p") (auto simp: heap_inv_def)
next
  let ?a = "block_to_address (pools ! p) b"
  have lay: "pool_layout (pools ! q)" if "q < length pools" for q using inv that by (simp add: heap_inv_def)
  fix a sz assume a: "live' a = Some sz"
  show "\<exists>q < length (pools[p := P]). alloc_at (pools[p := P] ! q) live' a sz"
  proof (cases "a = ?a")
    case True
    then show ?thesis using new a p by (intro exI[of _ p]) simp
  next
    case False
    then have "live a = Some sz" using live a by metis
    then obtain q where q: "q < length pools" "alloc_at (pools ! q) live a sz" using inv unfolding heap_inv_def by blast
    then obtain c where c: "c \<in> held (pools ! q) live" "a = block_to_address (pools ! q) c"
      "c * 4096 + unat sz \<le> unat (pool_pages (pools ! q)) * 4096" "unat sz \<le> 2 ^ bb_order (blk (pools ! q) c) * 4096"
      by (auto simp: alloc_at_def)
    then have c': "c \<in> held (pools ! q) live'" using a by (auto simp: held_def)
    show ?thesis
    proof (cases "q = p")
      case True
      then have "c \<in> held (pools ! p) live - {b}" using c(1,2) False by auto
      then have "alloc_at P live' a sz"
        using c c' True order same same_place_held[OF same] same_place_address[OF same]
        by (auto simp: alloc_at_def same_place_def intro!: bexI[of _ c])
      then show ?thesis using p by (intro exI[of _ p]) simp
    next
      case other: False
      then show ?thesis using q(1) c c' by (intro exI[of _ q]) (auto simp: alloc_at_def)
    qed
  qed
qed

section \<open>Allocation\<close>

lemma find_pool_Some: "find_pool pools order n i = Some p \<Longrightarrow> i \<le> p \<and> p < i + length pools"
  by (induction pools arbitrary: i) (fastforce split: if_splits)+

lemma alloc_search_inv:
  assumes inv: "heap_inv pools live" and pages: "0 < unat pages" "unat pages \<le> 2 ^ order"
  shows "\<forall>i \<in> set is. i < length pools \<Longrightarrow> alloc_search pools sz order pages is = Some None \<or>
    (\<exists>p b L. alloc_search pools sz order pages is = Some (Some (p, b, buddy_list_remove b (pools ! p))) \<and> p < length pools \<and>
      pool_inv (buddy_list_remove b (pools ! p)) (insert b (held (pools ! p) live)) L \<and> b \<notin> held (pools ! p) live \<and>
      suits (pools ! p) pages b \<and> order \<le> bb_order (blk (pools ! p) b) \<and> bb_order (blk (pools ! p) b) \<le> max_order_free (pools ! p) \<and>
      b + unat pages \<le> 2 ^ max_order (pools ! p))"
proof (induction "is")
  case (Cons i "is")
  have "\<forall>i \<in> set is. i < length pools" using Cons.prems by simp
  note IH = Cons.IH[OF this]
  show ?case
  proof (cases "find_pool (drop i pools) order pages i")
    case None
    then show ?thesis by simp
  next
    case (Some p)
    have p: "p < length pools" using find_pool_Some[OF Some] Cons.prems by simp
    then obtain L where L: "pool_inv (pools ! p) (held (pools ! p) live) L" using inv by (auto simp: heap_inv_def)
    show ?thesis
    proof (cases "order = max_order (pools ! p) \<and> sz > ucast ((2 ^ order - max_order_waste (pools ! p)) :: u32)")
      case True
      have "alloc_search pools sz order pages (i # is) = alloc_search pools sz order pages is"
        by (simp only: alloc_search.simps Some option.case Let_def if_P[OF True])
      then show ?thesis using IH by simp
    next
      case False
      from pool_find_block_inv[OF L pages] show ?thesis
      proof (elim disjE exE conjE)
        assume "pool_find_block (pools ! p) order pages = Some (None, pools ! p)"
        then have "alloc_search pools sz order pages (i # is) = alloc_search pools sz order pages is"
          by (simp only: alloc_search.simps Some option.case Let_def if_not_P[OF False] prod.case)
        then show ?thesis using IH by simp
      next
        fix b L' assume b: "pool_find_block (pools ! p) order pages = Some (Some b, buddy_list_remove b (pools ! p))"
          "pool_inv (buddy_list_remove b (pools ! p)) (insert b (held (pools ! p) live)) L'" "b \<notin> held (pools ! p) live"
          "suits (pools ! p) pages b" "order \<le> bb_order (blk (pools ! p) b)" "bb_order (blk (pools ! p) b) \<le> max_order_free (pools ! p)"
          "b + unat pages \<le> 2 ^ max_order (pools ! p)"
        then have "alloc_search pools sz order pages (i # is) = Some (Some (p, b, buddy_list_remove b (pools ! p)))"
          by (simp only: alloc_search.simps Some option.case Let_def if_not_P[OF False] prod.case)
        then show ?thesis using b p by blast
      qed
    qed
  qed
qed simp

lemma request_pages:
  assumes "(sz::u64) \<noteq> 0" and "unat sz + 4096 \<le> 2 ^ 64"
  defines "pages \<equiv> (sz + (PAGE_SIZE - 1)) div PAGE_SIZE"
  shows "0 < unat pages" and "unat sz \<le> unat pages * 4096" and "unat pages \<le> 2 ^ get_order pages" and "get_order pages \<le> 63"
proof -
  have pos: "0 < unat sz" using assms(1) by (simp add: unat_gt_0)
  have "unat (sz + 4095) = unat sz + 4095" using assms(2) by (subst unat_add_small) simp_all
  then have u: "unat pages = (unat sz + 4095) div 4096" by (simp add: pages_def PAGE_SIZE_def unat_div)
  show "0 < unat pages" "unat sz \<le> unat pages * 4096" unfolding u using pos by linarith+
  moreover have "unat pages \<le> 2 ^ 63" unfolding u using assms(2) by simp
  ultimately show "unat pages \<le> 2 ^ get_order pages" "get_order pages \<le> 63" using get_order_bounds by blast+
qed

lemma allocate_found_orders:
  assumes inv: "heap_inv pools live" and sz: "sz \<noteq> 0" "unat sz + 4096 \<le> 2 ^ 64"
  defines "n \<equiv> (sz + (PAGE_SIZE - 1)) div PAGE_SIZE"
  assumes s: "alloc_search pools sz (get_order n) n [0..<length pools] = Some (Some (p, b, buddy_list_remove b (pools ! p)))" "p < length pools"
      "pool_inv (buddy_list_remove b (pools ! p)) (insert b (held (pools ! p) live)) L" "b \<notin> held (pools ! p) live" "suits (pools ! p) n b"
      "get_order n \<le> bb_order (blk (pools ! p) b)" "bb_order (blk (pools ! p) b) \<le> max_order_free (pools ! p)"
      "b + unat n \<le> 2 ^ max_order (pools ! p)"
  shows "\<exists>pools' a. buddy_allocate pools sz ty fl = Some (pools', a) \<and> a \<noteq> 0 \<and> a \<notin> dom live \<and> heap_inv pools' (live(a \<mapsto> sz)) \<and>
    (\<exists>Q. pools' = pools[p := Q] \<and> same_place (pools ! p) Q \<and> held Q (live(a \<mapsto> sz)) = insert b (held (pools ! p) live) \<and>
      bb_order (blk Q b) = get_order n \<and> (\<forall>c \<in> held (pools ! p) live. bb_order (blk Q c) = bb_order (blk (pools ! p) c)))"
proof -
  let ?o = "get_order n" let ?P = "pools ! p" let ?A = "held ?P live" let ?a = "block_to_address ?P b"
  note n = request_pages[OF sz, folded n_def]
  have lay: "pool_layout ?P" and cnt: "counted ?P ?A" using inv s(2) by (auto simp: heap_inv_def)
  obtain q L' where q: "split_loop (buddy_list_remove b ?P) b ?o = Some q" "pool_inv (finish_alloc q b ty) (insert b ?A) L'"
    "counted (finish_alloc q b ty) (insert b ?A)" "pool_frame ?P q" "bb_order (blk q b) = ?o"
    "\<forall>a \<in> ?A. bb_order (blk q a) = bb_order (blk ?P a)"
    using take_block_inv[OF s(3,6,7,4) held_finite cnt] by blast
  let ?Q = "finish_alloc q b ty"
  have place: "same_place ?P ?Q" using same_place_frame[OF q(4)] by (simp add: same_place_def)
  have res: "buddy_allocate pools sz ty fl = Some (pools[p := ?Q], ?a)"
    using sz(1) s(1) q(1) same_place_address[OF place] by (simp add: buddy_allocate_def Let_def finish_alloc_def n_def)
  have last: "b + unat n - 1 < unat (pool_pages ?P)"
    using pool_layoutD(2)[OF lay, of "b + unat n - 1"] s(5,8) n(1) by (simp add: suits_def)
  then have bp: "b < unat (pool_pages ?P)" using n(1) by linarith
  have na: "?a \<notin> dom live" using s(4) bp by (simp add: held_def)
  have nz: "?a \<noteq> 0"
  proof
    assume "?a = 0"
    then have "unat (pages_start ?P) + b * 4096 = 0" using unat_block_address[OF lay bp] by simp
    then show False using pool_layoutD(3)[OF lay] by (simp add: unat_eq_zero)
  qed
  have "held ?P (live(?a \<mapsto> sz)) = insert b ?A" using block_address_inj[OF lay _ bp] bp by (auto simp: held_def)
  then have held': "held ?Q (live(?a \<mapsto> sz)) = insert b ?A" unfolding same_place_held[OF place] .
  have fits: "alloc_at ?Q (live(?a \<mapsto> sz)) ?a sz"
  proof -
    have "(b + unat n) * 4096 \<le> unat (pool_pages ?P) * 4096" using last n(1) by (intro mult_le_mono1) linarith
    then have "b * 4096 + unat sz \<le> unat (pool_pages ?P) * 4096" using n(2) by (simp add: add_mult_distrib)
    moreover have "unat n * 4096 \<le> 2 ^ ?o * 4096" using n(3) by (rule mult_le_mono1)
    then have "unat sz \<le> 2 ^ ?o * 4096" using n(2) by linarith
    ultimately show ?thesis unfolding alloc_at_def held'
      using q(5) place same_place_address[OF place] by (intro bexI[of _ b]) (simp_all add: same_place_def)
  qed
  have "heap_inv (pools[p := ?Q]) (live(?a \<mapsto> sz))"
    by (rule heap_inv_update[OF inv s(2) place bp]) (use q(2,3,6) held' fits in auto)
  moreover have "bb_order (blk ?Q b) = ?o" "\<forall>c \<in> ?A. bb_order (blk ?Q c) = bb_order (blk ?P c)" using q(5,6) by simp_all
  ultimately show ?thesis using res na nz place held' by blast
qed

lemma allocate_found:
  assumes inv: "heap_inv pools live" and sz: "sz \<noteq> 0" "unat sz + 4096 \<le> 2 ^ 64"
  defines "n \<equiv> (sz + (PAGE_SIZE - 1)) div PAGE_SIZE"
  assumes s: "alloc_search pools sz (get_order n) n [0..<length pools] = Some (Some (p, b, buddy_list_remove b (pools ! p)))" "p < length pools"
      "pool_inv (buddy_list_remove b (pools ! p)) (insert b (held (pools ! p) live)) L" "b \<notin> held (pools ! p) live" "suits (pools ! p) n b"
      "get_order n \<le> bb_order (blk (pools ! p) b)" "bb_order (blk (pools ! p) b) \<le> max_order_free (pools ! p)"
      "b + unat n \<le> 2 ^ max_order (pools ! p)"
  shows "\<exists>pools' a. buddy_allocate pools sz ty fl = Some (pools', a) \<and> a \<noteq> 0 \<and> a \<notin> dom live \<and> heap_inv pools' (live(a \<mapsto> sz))"
  using allocate_found_orders[OF inv sz s[unfolded n_def], of ty fl] by blast

lemma allocate_heap:
  assumes inv: "heap_inv pools live" and sz: "sz \<noteq> 0" "unat sz + 4096 \<le> 2 ^ 64"
  shows "\<exists>pools' a. buddy_allocate pools sz ty fl = Some (pools', a) \<and>
    (a = 0 \<and> pools' = pools \<or> a \<noteq> 0 \<and> a \<notin> dom live \<and> heap_inv pools' (live(a \<mapsto> sz)))"
proof -
  let ?n = "(sz + (PAGE_SIZE - 1)) div PAGE_SIZE" let ?o = "get_order ?n"
  note n = request_pages[OF sz]
  have "\<forall>i \<in> set [0..<length pools]. i < length pools" by simp
  from alloc_search_inv[OF inv n(1,3) this, of sz] show ?thesis
  proof (elim disjE exE conjE)
    assume "alloc_search pools sz ?o ?n [0..<length pools] = Some None"
    then have "buddy_allocate pools sz ty fl = Some (pools, 0)" using sz(1) by (simp add: buddy_allocate_def Let_def)
    then show ?thesis by blast
  next
    fix p b L
    assume "alloc_search pools sz ?o ?n [0..<length pools] = Some (Some (p, b, buddy_list_remove b (pools ! p)))" "p < length pools"
      "pool_inv (buddy_list_remove b (pools ! p)) (insert b (held (pools ! p) live)) L" "b \<notin> held (pools ! p) live" "suits (pools ! p) ?n b"
      "?o \<le> bb_order (blk (pools ! p) b)" "bb_order (blk (pools ! p) b) \<le> max_order_free (pools ! p)" "b + unat ?n \<le> 2 ^ max_order (pools ! p)"
    from allocate_found[OF inv sz this, of ty fl] show ?thesis by blast
  qed
qed

section \<open>Deallocation\<close>

lemma page_aligned_iff: "ALIGN_DOWN x PAGE_SIZE = x \<longleftrightarrow> unat x mod 4096 = 0"
proof -
  have m: "PAGE_SIZE - 1 = mask 12" by (simp add: PAGE_SIZE_def mask_eq_decr_exp)
  have "x AND NOT (mask 12) = x \<longleftrightarrow> take_bit 12 x = 0"
  proof
    assume *: "x AND NOT (mask 12) = x"
    show "take_bit 12 x = 0"
    proof (rule bit_word_eqI)
      fix n show "bit (take_bit 12 x) n = bit (0::u64) n"
        using arg_cong[OF *, of "\<lambda>y. bit y n"] by (auto simp: bit_take_bit_iff bit_and_iff bit_not_iff bit_mask_iff)
    qed
  next
    assume "take_bit 12 x = 0"
    then have "\<not> bit x n" if "n < 12" for n using that by (metis bit_take_bit_iff bit_0_eq bot_apply bot_bool_def)
    then show "x AND NOT (mask 12) = x"
      by (intro bit_word_eqI) (auto simp: bit_and_iff bit_not_iff bit_mask_iff)
  qed
  moreover have "unat (take_bit 12 x) = unat x mod 4096"
    by (simp only: unsigned_take_bit_eq) (simp add: take_bit_eq_mod)
  ultimately show ?thesis unfolding ALIGN_DOWN_def m by (metis unat_eq_zero)
qed

lemma ptr_to_pool_first:
  "p < length pools \<Longrightarrow> pages_start (pools ! p) \<le> ptr \<Longrightarrow> ptr < pages_end (pools ! p) \<Longrightarrow>
    (\<And>q. q < p \<Longrightarrow> \<not> (pages_start (pools ! q) \<le> ptr \<and> ptr < pages_end (pools ! q))) \<Longrightarrow> ptr_to_pool pools ptr i = Some (i + p)"
proof (induction pools arbitrary: p i)
  case (Cons pool pools)
  show ?case
  proof (cases p)
    case 0
    then show ?thesis using Cons.prems by simp
  next
    case (Suc p')
    have "\<not> (pages_start pool \<le> ptr \<and> ptr < pages_end pool)" using Cons.prems(4)[of 0] Suc by simp
    moreover have "ptr_to_pool pools ptr (i + 1) = Some (i + 1 + p')"
    proof (rule Cons.IH)
      show "\<not> (pages_start (pools ! q) \<le> ptr \<and> ptr < pages_end (pools ! q))" if "q < p'" for q
        using Cons.prems(4)[of "Suc q"] that Suc by simp
    qed (use Cons.prems(1-3) Suc in simp_all)
    ultimately show ?thesis using Suc by auto
  qed
qed simp

lemma get_block_held:
  assumes inv: "heap_inv pools live" and p: "p < length pools" and b: "b \<in> held (pools ! p) live"
  shows "buddy_get_block pools (block_to_address (pools ! p) b) = Some (Some (p, b))"
proof -
  let ?P = "pools ! p" let ?a = "block_to_address ?P b"
  have lay: "pool_layout (pools ! q)" if "q < length pools" for q using inv that by (simp add: heap_inv_def)
  have apart: "pools_apart pools" using inv by (simp add: heap_inv_def)
  have bp: "b < unat (pool_pages ?P)" using b by (simp add: held_def)
  note a = unat_block_address[OF lay[OF p] bp] and r = block_address_range[OF lay[OF p] bp]
  have out: "\<not> (pages_start (pools ! q) \<le> ?a \<and> ?a < pages_end (pools ! q))" if "q < p" for q
  proof -
    have "unat (pages_end (pools ! q)) \<le> unat (pages_start ?P) \<or> unat (pages_end ?P) \<le> unat (pages_start (pools ! q))"
      by (rule apart[unfolded pools_apart_def, rule_format]) (use p that in simp_all)
    then show ?thesis using r unfolding word_le_nat_alt word_less_nat_alt by linarith
  qed
  have "ptr_to_pool pools ?a 0 = Some p" using ptr_to_pool_first[OF p r out, of 0] by simp
  moreover have "ALIGN_DOWN ?a PAGE_SIZE = ?a"
    using pool_layoutD(4)[OF lay[OF p]] unfolding page_aligned_iff a by simp
  moreover have "?a \<noteq> 0"
  proof
    assume "?a = 0"
    then have "unat (pages_start ?P) + b * 4096 = 0" using a by simp
    then show False using pool_layoutD(3)[OF lay[OF p]] by (simp add: unat_eq_zero)
  qed
  moreover have "address_to_block ?P ?a = b"
    using a r(1) by (simp add: address_to_block_def PAGE_SIZE_def unat_div unat_sub_small)
  moreover have "b < nblocks ?P"
  proof -
    obtain L where L: "pool_inv ?P (held ?P live) L" using inv p by (auto simp: heap_inv_def)
    show ?thesis using pool_invD(1,6)[OF L] b by fastforce
  qed
  ultimately show ?thesis by (simp add: buddy_get_block_def Let_def)
qed

lemma deallocate_heap:
  assumes inv: "heap_inv pools live" and a: "a \<in> dom live"
  shows "\<exists>pools'. buddy_deallocate pools a = Some pools' \<and> heap_inv pools' (live(a := None))"
proof -
  obtain sz where "live a = Some sz" using a by blast
  then obtain p where p: "p < length pools" "alloc_at (pools ! p) live a sz" using inv unfolding heap_inv_def by blast
  let ?P = "pools ! p" let ?A = "held ?P live"
  from p(2) obtain b where b: "b \<in> ?A" "a = block_to_address ?P b" by (auto simp: alloc_at_def)
  have lay: "pool_layout ?P" and cnt: "counted ?P ?A" using inv p(1) by (auto simp: heap_inv_def)
  obtain L where L: "pool_inv ?P ?A L" using inv p(1) by (auto simp: heap_inv_def)
  have bp: "b < unat (pool_pages ?P)" using b(1) by (simp add: held_def)
  let ?Q = "upd_block b (\<lambda>x. x\<lparr>bb_type := BLOCK_TYPE_FREE\<rparr>) (?P\<lparr>free_pages := free_pages ?P + of_nat (2 ^ bb_order (blk ?P b))\<rparr>)"
  have "pool_inv ?Q ?A L" using pool_invD(9,10)[OF L] by (intro inv_same[OF L]) simp_all
  then obtain R L' where R: "free_block ?Q b = Some R" "pool_inv R (?A - {b}) L'" "pool_frame ?Q R"
    "\<forall>c \<in> ?A - {b}. bb_order (blk R c) = bb_order (blk ?Q c)"
    using free_block_inv[of ?Q ?A L b] b(1) by blast
  have place: "same_place ?P R" using R(3) by (simp add: same_place_def pool_frame_def)
  have order: "bb_order (blk R c) = bb_order (blk ?P c)" if "c \<in> ?A - {b}" for c using R(4) that by simp
  have "held ?P (live(a := None)) = ?A - {b}" using block_address_inj[OF lay _ bp] b(2) by (auto simp: held_def)
  then have held': "held R (live(a := None)) = ?A - {b}" unfolding same_place_held[OF place] .
  have cR: "counted R (?A - {b})"
  proof -
    have "(\<Sum>c \<in> ?A. (2::u64) ^ bb_order (blk ?P c)) = 2 ^ bb_order (blk ?P b) + (\<Sum>c \<in> ?A - {b}. 2 ^ bb_order (blk ?P c))"
      using b(1) held_finite by (rule sum.remove[rotated])
    moreover have "(\<Sum>c \<in> ?A - {b}. (2::u64) ^ bb_order (blk R c)) = (\<Sum>c \<in> ?A - {b}. 2 ^ bb_order (blk ?P c))"
      using order by (intro sum.cong) simp_all
    ultimately show ?thesis using cnt R(3) unfolding counted_def by (simp add: pool_frame_def algebra_simps)
  qed
  have "heap_inv (pools[p := R]) (live(a := None))"
    by (rule heap_inv_update[OF inv p(1) place bp]) (use R(2) cR held' order b(2) in auto)
  moreover have "buddy_deallocate pools a = Some (pools[p := R])"
    using get_block_held[OF inv p(1) b(1)] R(1) b(2) by (simp add: buddy_deallocate_def Let_def)
  ultimately show ?thesis by blast
qed

section \<open>What the heap invariant gives a client\<close>

lemma alloc_inside:
  assumes inv: "heap_inv pools live" and a: "live a = Some sz"
  obtains p b where "p < length pools" "b \<in> held (pools ! p) live" "a = block_to_address (pools ! p) b"
    "unat a = unat (pages_start (pools ! p)) + b * 4096" "unat a + unat sz \<le> unat (pages_end (pools ! p))"
    "unat sz \<le> 2 ^ bb_order (blk (pools ! p) b) * 4096"
proof -
  obtain p where p: "p < length pools" "alloc_at (pools ! p) live a sz" using inv a unfolding heap_inv_def by blast
  then obtain b where b: "b \<in> held (pools ! p) live" "a = block_to_address (pools ! p) b"
    "b * 4096 + unat sz \<le> unat (pool_pages (pools ! p)) * 4096" "unat sz \<le> 2 ^ bb_order (blk (pools ! p) b) * 4096"
    by (auto simp: alloc_at_def)
  have lay: "pool_layout (pools ! p)" using inv p(1) by (simp add: heap_inv_def)
  have u: "unat a = unat (pages_start (pools ! p)) + b * 4096"
    using unat_block_address[OF lay] b(1,2) by (simp add: held_def)
  moreover have "unat a + unat sz \<le> unat (pages_end (pools ! p))" using u b(3) pool_layoutD(6)[OF lay] by linarith
  ultimately show thesis using that p(1) b by blast
qed

lemma alloc_disjoint:
  assumes inv: "heap_inv pools live" and a: "live a = Some sz" and a': "live a' = Some sz'" and ne: "a \<noteq> a'"
  shows "unat a + unat sz \<le> unat a' \<or> unat a' + unat sz' \<le> unat a"
proof -
  obtain p b where p: "p < length pools" "b \<in> held (pools ! p) live" "a = block_to_address (pools ! p) b"
    "unat a = unat (pages_start (pools ! p)) + b * 4096" "unat a + unat sz \<le> unat (pages_end (pools ! p))"
    "unat sz \<le> 2 ^ bb_order (blk (pools ! p) b) * 4096" by (rule alloc_inside[OF inv a])
  obtain q c where q: "q < length pools" "c \<in> held (pools ! q) live" "a' = block_to_address (pools ! q) c"
    "unat a' = unat (pages_start (pools ! q)) + c * 4096" "unat a' + unat sz' \<le> unat (pages_end (pools ! q))"
    "unat sz' \<le> 2 ^ bb_order (blk (pools ! q) c) * 4096" by (rule alloc_inside[OF inv a'])
  show ?thesis
  proof (cases "p = q")
    case True
    obtain L where L: "pool_inv (pools ! p) (held (pools ! p) live) L" using inv p(1) by (auto simp: heap_inv_def)
    note T = pool_invD(8)[OF L]
    have apart: "x * 4096 + 2 ^ bb_order (blk (pools ! p) x) * 4096 \<le> y * 4096"
      if "x \<in> held (pools ! p) live" "y \<in> held (pools ! p) live" "x < y" for x y
      using mult_le_mono1[OF tiling_disjointE[OF T UnI1[OF that(1)] UnI1[OF that(2)] that(3)], of 4096]
      by (simp only: add_mult_distrib)
    have c: "c \<in> held (pools ! p) live" "unat a' = unat (pages_start (pools ! p)) + c * 4096"
      "unat sz' \<le> 2 ^ bb_order (blk (pools ! p) c) * 4096" using q(2,4,6) True by simp_all
    have "b \<noteq> c" using ne p(3) q(3) True by auto
    then consider "b < c" | "c < b" by linarith
    then show ?thesis
    proof cases
      case 1
      then show ?thesis using apart[OF p(2) c(1)] p(4,6) c(2) by linarith
    next
      case 2
      then show ?thesis using apart[OF c(1) p(2)] p(4) c(2,3) by linarith
    qed
  next
    case False
    have "pools_apart pools" using inv by (simp add: heap_inv_def)
    then have "unat (pages_end (pools ! p)) \<le> unat (pages_start (pools ! q)) \<or> unat (pages_end (pools ! q)) \<le> unat (pages_start (pools ! p))"
      unfolding pools_apart_def using p(1) q(1) False by blast
    then show ?thesis using p(4,5) q(4,5) by linarith
  qed
qed

section \<open>Initialisation\<close>

lemma mark_waste_nth:
  assumes "unat t \<le> length bs"
  shows "length (mark_waste f t bs) = length bs \<and>
    (\<forall>i < length bs. mark_waste f t bs ! i = (if unat f \<le> i \<and> i < unat t then (bs ! i)\<lparr>bb_is_waste := True\<rparr> else bs ! i))"
proof -
  have "length (fold (\<lambda>i bs. bs[i := (bs ! i)\<lparr>bb_is_waste := True\<rparr>]) [m..<n] bs) = length bs \<and>
    (\<forall>i < length bs. fold (\<lambda>i bs. bs[i := (bs ! i)\<lparr>bb_is_waste := True\<rparr>]) [m..<n] bs ! i =
      (if m \<le> i \<and> i < n then (bs ! i)\<lparr>bb_is_waste := True\<rparr> else bs ! i))" if "n \<le> length bs" for m n
    using that
  proof (induction n)
    case (Suc n)
    then show ?case by (cases "m \<le> n") (auto simp: nth_list_update less_Suc_eq)
  qed simp
  then show ?thesis using assms by (simp add: mark_waste_def)
qed

lemma list_init_idem: "ring_prev r h = h \<Longrightarrow> ring_next r h = h \<Longrightarrow> list_init h r = r"
  by (cases r) (simp add: list_init_def fun_upd_idem)

lemma list_inits_id: "fold (\<lambda>i. list_init (Free_List i)) is \<lparr>ring_prev = id, ring_next = id\<rparr> = \<lparr>ring_prev = id, ring_next = id\<rparr>"
  by (induction "is") (simp_all add: list_init_idem)

text \<open>A pool with a single free block of the highest order.\<close>

lemma single_block_inv:
  assumes M: "2 ^ max_order pool < nblocks pool" "unat (pool_pages pool + ucast (max_order_waste pool)) = 2 ^ max_order pool"
    and links: "\<And>n. ring_prev (pool_links pool) n = n \<and> ring_next (pool_links pool) n = n"
    and blocks: "\<And>i. i < nblocks pool \<Longrightarrow> \<not> bb_in_list (blk pool i)"
    and first: "bb_order (blk pool 0) = max_order pool" "\<not> bb_is_waste (blk pool 0)"
    and q: "q = (buddy_list_push_back (Free_List (max_order pool)) 0 pool)\<lparr>max_order_free := max_order pool\<rparr>"
  shows "\<exists>L. pool_inv q {} L"
proof -
  have pos: "0 < nblocks pool" using M(1) by (cases "nblocks pool") auto
  have r: "rings (pool_heads pool) (\<lambda>_. []) (pool_links pool)" using links by (intro rings_init) blast
  have A: "pool_inv (pool\<lparr>max_order_free := max_order pool\<rparr>) {0} (\<lambda>_. [])" (is "pool_inv ?p _ _")
  proof -
    have fs: "free_set ?p = {}" using blocks by (auto simp: free_set_def)
    have "tiling (max_order pool) {0} (\<lambda>i. bb_order (blk ?p i))" using first by (simp add: tiling_def atLeast0LessThan)
    then show ?thesis unfolding pool_inv_def
      using M r blocks pos fs by (simp add: pool_heads_def)
  qed
  have "home ?p 0 = Free_List (max_order pool)" using first by (simp add: home_def)
  moreover have "q = buddy_list_push_back (Free_List (max_order pool)) 0 ?p"
    unfolding q by (simp add: buddy_list_push_back_def upd_block_def Let_def)
  ultimately show ?thesis using inv_push(2)[OF A, of 0] first by auto
qed

lemma unat_and_not_mask: "unat (z AND NOT (mask n) :: 'a::len word) = unat z div 2 ^ n * 2 ^ n"
proof -
  have "z AND NOT (mask n) = push_bit n (drop_bit n z)"
    by (rule bit_word_eqI) (auto simp: bit_and_iff bit_not_iff bit_mask_iff bit_push_bit_iff bit_drop_bit_eq)
  moreover have "unat (drop_bit n z) * 2 ^ n < 2 ^ LENGTH('a)"
    unfolding unat_drop_bit_div by (rule order.strict_trans1[OF div_times_less_eq_dividend unat_less])
  ultimately show ?thesis by (simp only: unat_push_bit_small unat_drop_bit_div)
qed

lemma unat_ALIGN_DOWN: "unat (ALIGN_DOWN x PAGE_SIZE) = unat x div 4096 * 4096"
proof -
  have "PAGE_SIZE - 1 = mask 12" by (simp add: PAGE_SIZE_def mask_eq_decr_exp)
  then show ?thesis using unat_and_not_mask[of x 12] by (simp add: ALIGN_DOWN_def)
qed

lemma unat_ALIGN_UP_page: "unat x + 4095 < 2 ^ 64 \<Longrightarrow> unat (ALIGN_UP x PAGE_SIZE) = (unat x + 4095) div 4096 * 4096"
proof -
  assume lt: "unat x + 4095 < 2 ^ 64"
  have m: "PAGE_SIZE - 1 = mask 12" "unat (mask 12 :: u64) = 4095" by (simp_all add: PAGE_SIZE_def mask_eq_decr_exp)
  have "unat (x + mask 12) = unat x + 4095" using unat_add_small[of x "mask 12"] lt m(2) by simp
  then show ?thesis using unat_and_not_mask[of "x + mask 12" 12] by (simp add: ALIGN_UP_def m(1))
qed

lemma unat_ALIGN_UP_8: "unat x + 7 < 2 ^ 64 \<Longrightarrow> unat (ALIGN_UP x 8) = (unat x + 7) div 8 * 8"
proof -
  assume lt: "unat x + 7 < 2 ^ 64"
  have m: "8 - 1 = (mask 3 :: u64)" "unat (mask 3 :: u64) = 7" by (simp_all add: mask_eq_decr_exp)
  have "unat (x + mask 3) = unat x + 7" using unat_add_small[of x "mask 3"] lt m(2) by simp
  then show ?thesis using unat_and_not_mask[of "x + mask 3" 3] unfolding ALIGN_UP_def m(1) by simp
qed

lemma get_order_of_power: "k \<le> 62 \<Longrightarrow> get_order (of_nat (2 ^ k)) = k"
proof -
  assume k: "k \<le> 62"
  have "(2::nat) ^ k \<le> 2 ^ 62" using k by (intro power_increasing) simp_all
  then have "(2::nat) ^ k < 2 ^ LENGTH(64)" by simp
  then have u: "unat (of_nat (2 ^ k) :: u64) = 2 ^ k" by (rule unat_of_nat_small)
  have "(2::nat) ^ k \<le> 2 ^ 63" using k by (intro power_increasing) simp_all
  then have "2 ^ k \<le> (2::nat) ^ get_order (of_nat (2 ^ k))" "(2::nat) ^ get_order (of_nat (2 ^ k)) < 2 ^ Suc k"
    using get_order_bounds(1,2)[of "of_nat (2 ^ k)"] unfolding u by simp_all
  then have "k \<le> get_order (of_nat (2 ^ k))" "get_order (of_nat (2 ^ k)) < Suc k"
    by (simp_all only: power_increasing_iff power_strict_increasing_iff one_less_numeral_iff semiring_norm)
  then show ?thesis by simp
qed

text \<open>The pages that the metadata of a pool of \<open>2 ^ k\<close> pages takes.\<close>

definition meta_pages :: "nat \<Rightarrow> nat" where
  "meta_pages k = (576 * (k + 1) + 24 * 2 ^ k + 4095) div 4096"

text \<open>A region of \<open>2 ^ k\<close> pages: the quantities \<^verbatim>\<open>init_pool\<close> computes.\<close>

lemma init_pool_numbers:
  assumes s: "s mod 4096 = 0" and lt: "s + 4096 * 2 ^ k < 2 ^ 64" and k: "k \<le> 30"
  defines "lo \<equiv> of_nat s :: u64" and "hi \<equiv> of_nat (s + 4096 * 2 ^ k) :: u64" and "m \<equiv> meta_pages k"
  assumes m: "m \<le> 2 ^ k"
  shows "(hi - lo) div PAGE_SIZE = of_nat (2 ^ k)" (is ?total)
    and "ALIGN_UP (lo + 24 * (24 * (of_nat k + 1))) 8 = of_nat (s + 576 * (k + 1))" (is ?blocks)
    and "ALIGN_UP (of_nat (s + 576 * (k + 1)) + 24 * of_nat (2 ^ k)) PAGE_SIZE = (of_nat (s + 4096 * m) :: u64)" (is ?start)
    and "ALIGN_DOWN hi PAGE_SIZE = hi"
    and "(hi - of_nat (s + 4096 * m)) div PAGE_SIZE = of_nat (2 ^ k - m)" (is ?pages)
proof -
  have small: "unat (of_nat x :: u64) = x" if "x < 2 ^ 64" for x using unat_of_nat_small[of x, where 'a = 64] that by simp
  have meta: "576 * (k + 1) + 24 * 2 ^ k \<le> 4096 * m" "4096 * m < 576 * (k + 1) + 24 * 2 ^ k + 4096" unfolding m_def meta_pages_def by linarith+
  have m4: "4096 * m \<le> 4096 * 2 ^ k" using m by simp
  have s4: "(s + 4096 * x) div 4096 * 4096 = s + 4096 * x" for x using s by (metis add.commute dvd_div_mult_self dvd_add dvd_triv_left mod_eq_0_iff_dvd)
  have "hi - lo = of_nat (4096 * 2 ^ k)" by (simp add: hi_def lo_def)
  then have "unat ((hi - lo) div PAGE_SIZE) = 2 ^ k" using small[of "4096 * 2 ^ k"] lt by (simp only: unat_div PAGE_SIZE_def) simp
  then show ?total by (metis of_nat_unat_id)
  have "lo + 24 * (24 * (of_nat k + 1)) = of_nat (s + 576 * (k + 1))" by (simp add: lo_def algebra_simps)
  moreover have "unat (ALIGN_UP (of_nat (s + 576 * (k + 1)) :: u64) 8) = s + 576 * (k + 1)"
  proof -
    obtain q where q: "s = 4096 * q" using s by (auto simp: mod_eq_0_iff_dvd)
    have "unat (of_nat (s + 576 * (k + 1)) :: u64) = s + 576 * (k + 1)" using meta m4 lt by (intro small) linarith
    moreover have "s + 576 * (k + 1) + 7 < 2 ^ 64" using meta m4 lt one_le_power[of "2::nat" k] by linarith
    moreover have "(8 * x + 7) div 8 * 8 = 8 * x" for x :: nat by simp
    from this[of "512 * q + 72 * (k + 1)"] have "(s + 576 * (k + 1) + 7) div 8 * 8 = s + 576 * (k + 1)" unfolding q by (simp add: algebra_simps)
    ultimately show ?thesis using unat_ALIGN_UP_8[of "of_nat (s + 576 * (k + 1))"] by (simp only:)
  qed
  ultimately show ?blocks by (metis of_nat_unat_id)
  have "of_nat (s + 576 * (k + 1)) + 24 * of_nat (2 ^ k) = (of_nat (s + (576 * (k + 1) + 24 * 2 ^ k)) :: u64)" by (simp add: algebra_simps)
  moreover have "unat (ALIGN_UP (of_nat (s + (576 * (k + 1) + 24 * 2 ^ k)) :: u64) PAGE_SIZE) = s + 4096 * m"
  proof -
    have u: "unat (of_nat (s + (576 * (k + 1) + 24 * 2 ^ k)) :: u64) = s + (576 * (k + 1) + 24 * 2 ^ k)" using meta m4 lt by (intro small) linarith
    obtain q where q: "s = 4096 * q" using s by (auto simp: mod_eq_0_iff_dvd)
    have "s + (576 * (k + 1) + 24 * 2 ^ k) + 4095 < 2 ^ 64"
    proof -
      have "4096 * (q + 2 ^ k) < 4096 * 2 ^ 52" using lt q by (simp add: algebra_simps)
      then have "q + 2 ^ k < 2 ^ 52" by (simp only: mult_less_cancel1)
      then have "4096 * (q + 2 ^ k + 1) \<le> 4096 * 2 ^ 52" by simp
      then show ?thesis using meta(1) m4 q by (simp add: algebra_simps)
    qed
    moreover have "(s + (576 * (k + 1) + 24 * 2 ^ k) + 4095) div 4096 * 4096 = s + 4096 * m"
    proof -
      have "(4096 * q + x) div 4096 * 4096 = 4096 * q + 4096 * (x div 4096)" for x :: nat by simp
      from this[of "576 * (k + 1) + 24 * 2 ^ k + 4095"] show ?thesis unfolding q m_def meta_pages_def by (simp only: add.assoc)
    qed
    ultimately show ?thesis using unat_ALIGN_UP_page[of "of_nat (s + (576 * (k + 1) + 24 * 2 ^ k))"] unfolding u by (simp only:)
  qed
  ultimately show ?start by (metis of_nat_unat_id)
  have "unat (ALIGN_DOWN hi PAGE_SIZE) = unat hi" unfolding unat_ALIGN_DOWN hi_def small[OF lt] by (rule s4)
  then show "ALIGN_DOWN hi PAGE_SIZE = hi" by (simp add: word_unat_eq_iff)
  have "hi - of_nat (s + 4096 * m) = of_nat (4096 * (2 ^ k - m))" using m by (simp add: hi_def of_nat_diff algebra_simps)
  then have "unat ((hi - of_nat (s + 4096 * m)) div PAGE_SIZE) = 2 ^ k - m"
    using small[of "4096 * (2 ^ k - m)"] lt by (simp only: unat_div PAGE_SIZE_def) simp
  then show ?pages by (metis of_nat_unat_id)
qed

text \<open>The pool that \<^verbatim>\<open>init_pool\<close> builds from \<open>2 ^ k\<close> pages at \<open>s\<close>.\<close>

definition fresh_blocks :: "nat \<Rightarrow> buddy_block list" where
  "fresh_blocks k = mark_waste (of_nat (2 ^ k - 2 * meta_pages k)) (of_nat (2 ^ k))
     (replicate ((4096 * meta_pages k - 576 * (k + 1)) div 24) zero_block)"

definition fresh_pool :: "nat \<Rightarrow> nat \<Rightarrow> u32 \<Rightarrow> memory_pool" where
  "fresh_pool s k fl =
     \<lparr>pool_flags = fl, pool_start = of_nat s, pool_end = of_nat (s + 4096 * 2 ^ k), pages_start = of_nat (s + 4096 * meta_pages k),
      pages_end = of_nat (s + 4096 * 2 ^ k), pool_pages = of_nat (2 ^ k - meta_pages k), free_pages = of_nat (2 ^ k - meta_pages k),
      max_order = k, max_order_free = 0, max_order_waste = of_nat (meta_pages k),
      pool_blocks = (fresh_blocks k)[0 := (fresh_blocks k ! 0)\<lparr>bb_order := k\<rparr>], pool_links = \<lparr>ring_prev = id, ring_next = id\<rparr>\<rparr>"

definition ready_pool :: "nat \<Rightarrow> nat \<Rightarrow> u32 \<Rightarrow> memory_pool" where
  "ready_pool s k fl = (buddy_list_push_back (Free_List k) 0 (fresh_pool s k fl))\<lparr>max_order_free := k\<rparr>"

locale region =
  fixes s k :: nat
  assumes base: "0 < s" "s mod 4096 = 0" and fits: "s + 4096 * 2 ^ k < 2 ^ 64" and order: "k \<le> 30"
    and half: "2 * meta_pages k < 2 ^ k" and slack: "2 ^ k < (4096 * meta_pages k - 576 * (k + 1)) div 24"
begin

lemma small: "x < 2 ^ 64 \<Longrightarrow> unat (of_nat x :: u64) = x"
  using unat_of_nat_small[of x, where 'a = 64] by simp

lemma sizes: "(2::nat) ^ k \<le> 2 ^ 30" "meta_pages k < 2 ^ 30" "meta_pages k \<le> 2 ^ k"
proof -
  show "(2::nat) ^ k \<le> 2 ^ 30" using order by (intro power_increasing) simp_all
  then show "meta_pages k < 2 ^ 30" "meta_pages k \<le> 2 ^ k" using half by linarith+
qed

lemma waste_word:
  "ucast ((2::u64) ^ k - of_nat (2 ^ k - meta_pages k)) = (of_nat (meta_pages k) :: u32)"
  "(ucast (of_nat (meta_pages k) :: u32) :: u64) = of_nat (meta_pages k)"
proof -
  have u: "unat (of_nat (meta_pages k) :: u32) = meta_pages k" using sizes(2) by (intro unat_of_nat_small) simp
  have "(2::u64) ^ k - of_nat (2 ^ k - meta_pages k) = of_nat (meta_pages k)" using sizes(3) by (simp add: of_nat_diff)
  then have "unat (ucast ((2::u64) ^ k - of_nat (2 ^ k - meta_pages k)) :: u32) = take_bit LENGTH(32) (meta_pages k)"
    using small[of "meta_pages k"] sizes(2) by (simp add: unsigned_ucast_eq)
  also have "\<dots> = meta_pages k" using sizes(2) by (intro take_bit_nat_eq_self) simp
  finally show "ucast ((2::u64) ^ k - of_nat (2 ^ k - meta_pages k)) = (of_nat (meta_pages k) :: u32)" using u by (simp add: word_unat_eq_iff)
  show "(ucast (of_nat (meta_pages k) :: u32) :: u64) = of_nat (meta_pages k)"
    using unat_ucast_widen[of "of_nat (meta_pages k) :: u32", where 'b = 64] u small[of "meta_pages k"] sizes(2) by (simp add: word_unat_eq_iff)
qed

lemma init_pool_eq: "init_pool [] (of_nat s) (of_nat (s + 4096 * 2 ^ k)) fl = [ready_pool s k fl]"
proof -
  note n = init_pool_numbers[OF base(2) fits order sizes(3)]
  have k62: "k \<le> 62" using order by simp
  have w: "of_nat (2 ^ k - meta_pages k) - of_nat (meta_pages k) = (of_nat (2 ^ k - 2 * meta_pages k) :: u64)" using half by (simp add: of_nat_diff)
  have N: "unat ((of_nat (s + 4096 * meta_pages k) - of_nat (s + 576 * (k + 1)) :: u64) div 24) = (4096 * meta_pages k - 576 * (k + 1)) div 24"
  proof -
    have "576 * (k + 1) \<le> 4096 * meta_pages k" unfolding meta_pages_def by linarith
    then have "of_nat (s + 4096 * meta_pages k) - of_nat (s + 576 * (k + 1)) = (of_nat (4096 * meta_pages k - 576 * (k + 1)) :: u64)" by (simp add: of_nat_diff)
    moreover have "4096 * meta_pages k - 576 * (k + 1) < 2 ^ 64" using sizes(2) by simp
    ultimately show ?thesis using small by (simp only: unat_div) simp
  qed
  have l: "list_init (Block 0) (list_init Waste_List (fold (\<lambda>i. list_init (Free_List i)) [0..<k + 1] \<lparr>ring_prev = id, ring_next = id\<rparr>)) =
      \<lparr>ring_prev = id, ring_next = id\<rparr>" unfolding list_inits_id by (simp add: list_init_idem)
  show ?thesis
    unfolding init_pool_def Let_def n(1) get_order_of_power[OF k62] n(2) n(3) n(4) n(5) waste_word w N l ready_pool_def fresh_pool_def fresh_blocks_def
    by (simp add: MAX_MEMORY_POOLS_def)
qed

lemma fresh_blocks_nth:
  "length (fresh_blocks k) = (4096 * meta_pages k - 576 * (k + 1)) div 24"
  "i < length (fresh_blocks k) \<Longrightarrow> fresh_blocks k ! i = zero_block\<lparr>bb_is_waste := (2 ^ k - 2 * meta_pages k \<le> i \<and> i < 2 ^ k)\<rparr>"
proof -
  have u: "unat (of_nat (2 ^ k - 2 * meta_pages k) :: u64) = 2 ^ k - 2 * meta_pages k" "unat (of_nat (2 ^ k) :: u64) = 2 ^ k"
    using sizes(1) by (intro small; simp)+
  let ?r = "replicate ((4096 * meta_pages k - 576 * (k + 1)) div 24) zero_block"
  have m: "unat (of_nat (2 ^ k) :: u64) \<le> length ?r" using u(2) slack by simp
  note w = mark_waste_nth[OF m, of "of_nat (2 ^ k - 2 * meta_pages k)", folded fresh_blocks_def, unfolded u]
  show l: "length (fresh_blocks k) = (4096 * meta_pages k - 576 * (k + 1)) div 24" using w by simp
  show "i < length (fresh_blocks k) \<Longrightarrow> fresh_blocks k ! i = zero_block\<lparr>bb_is_waste := (2 ^ k - 2 * meta_pages k \<le> i \<and> i < 2 ^ k)\<rparr>"
    using conjunct2[OF w] l by (auto simp: zero_block_def)
qed

lemma ready_fields:
  "max_order (ready_pool s k fl) = k" "pages_start (ready_pool s k fl) = of_nat (s + 4096 * meta_pages k)"
  "pages_end (ready_pool s k fl) = of_nat (s + 4096 * 2 ^ k)" "pool_pages (ready_pool s k fl) = of_nat (2 ^ k - meta_pages k)"
  "free_pages (ready_pool s k fl) = of_nat (2 ^ k - meta_pages k)" "nblocks (ready_pool s k fl) = length (fresh_blocks k)"
  by (simp_all add: ready_pool_def fresh_pool_def buddy_list_push_back_def Let_def upd_block_def)

lemma ready_blocks:
  assumes "i < 2 ^ k"
  shows "bb_is_waste (blk (ready_pool s k fl) i) = (2 ^ k - 2 * meta_pages k \<le> i)" and "bb_in_list (blk (ready_pool s k fl) i) = (i = 0)"
    and "bb_order (blk (ready_pool s k fl) 0) = k"
proof -
  have "2 ^ k < length (fresh_blocks k)" using slack fresh_blocks_nth(1) by simp
  then have i: "i < length (fresh_blocks k)" "0 < length (fresh_blocks k)" using assms by linarith+
  show "bb_is_waste (blk (ready_pool s k fl) i) = (2 ^ k - 2 * meta_pages k \<le> i)" "bb_in_list (blk (ready_pool s k fl) i) = (i = 0)"
    "bb_order (blk (ready_pool s k fl) 0) = k"
    using i assms half fresh_blocks_nth(2)[OF i(1)] fresh_blocks_nth(2)[OF i(2)]
    by (cases "i = 0"; simp add: ready_pool_def fresh_pool_def buddy_list_push_back_def Let_def upd_block_def zero_block_def)+
qed

lemma ready_pool_inv: "\<exists>L. pool_inv (ready_pool s k fl) {} L"
proof (rule single_block_inv[of "fresh_pool s k fl"])
  let ?p = "fresh_pool s k fl"
  have len: "nblocks ?p = length (fresh_blocks k)" "2 ^ k < length (fresh_blocks k)" using slack fresh_blocks_nth(1) by (simp_all add: fresh_pool_def)
  then have z: "0 < length (fresh_blocks k)" by linarith
  show "2 ^ max_order ?p < nblocks ?p" using len by (simp add: fresh_pool_def)
  show "unat (pool_pages ?p + ucast (max_order_waste ?p)) = 2 ^ max_order ?p"
    using small[of "2 ^ k"] sizes(1,3) waste_word(2) by (simp add: fresh_pool_def flip: of_nat_add)
  show "\<not> bb_in_list (blk ?p i)" if "i < nblocks ?p" for i
    using that len z fresh_blocks_nth(2) by (cases "i = 0") (simp_all add: fresh_pool_def zero_block_def)
  show "bb_order (blk ?p 0) = max_order ?p" "\<not> bb_is_waste (blk ?p 0)"
    using z half fresh_blocks_nth(2)[OF z] by (simp_all add: fresh_pool_def)
qed (simp_all add: ready_pool_def fresh_pool_def)

lemma ready_pool_layout: "pool_layout (ready_pool s k fl)"
proof -
  let ?m = "meta_pages k"
  have "s + 4096 * ?m < 2 ^ 64" using sizes(3) fits by (metis add_left_mono le_less_trans mult_le_mono2)
  then have u: "unat (of_nat (s + 4096 * ?m) :: u64) = s + 4096 * ?m" "unat (of_nat (2 ^ k - ?m) :: u64) = 2 ^ k - ?m"
    "unat (of_nat (s + 4096 * 2 ^ k) :: u64) = s + 4096 * 2 ^ k" using fits sizes(1) by (intro small; simp)+
  have e: "s + 4096 * 2 ^ k = s + 4096 * ?m + (2 ^ k - ?m) * 4096" using sizes(3) by (simp add: diff_mult_distrib)
  show ?thesis unfolding pool_layout_def ready_fields page_aligned_iff u
  proof (intro conjI allI impI)
    show "of_nat (s + 4096 * ?m) \<noteq> (0::u64)" using u(1) base(1) by (metis add_is_0 less_irrefl unat_0)
    show "(s + 4096 * ?m) mod 4096 = 0" using base(2) by simp
    show "s + 4096 * ?m + (2 ^ k - ?m) * 4096 < 2 ^ 64" using fits e by simp
    show "bb_is_waste (blk (ready_pool s k fl) j)" if "i \<le> j \<and> j < 2 ^ k \<and> bb_is_waste (blk (ready_pool s k fl) i)" for i j
      using that ready_blocks(1)[of i] ready_blocks(1)[of j] by simp
    show "i < 2 ^ k - ?m" if "i < 2 ^ k" "\<not> bb_is_waste (blk (ready_pool s k fl) i)" for i using that ready_blocks(1)[of i] by simp
  qed (rule e)
qed

lemma ready_heap: "heap_inv [ready_pool s k fl] Map.empty"
proof -
  have "held (ready_pool s k fl) Map.empty = {}" by (simp add: held_def)
  moreover have "counted (ready_pool s k fl) {}" by (simp add: counted_def ready_fields)
  ultimately show ?thesis using ready_pool_inv ready_pool_layout unfolding heap_inv_def pools_apart_def by simp
qed

end

text \<open>Eight pages and four thousand pages at the usual start of memory.\<close>

interpretation r3: region "0x80000000" "3"
  by unfold_locales (simp_all add: meta_pages_def)

interpretation r12: region "0x80000000" "12"
  by unfold_locales (simp_all add: meta_pages_def)

section \<open>Block types\<close>

text \<open>
  The type of a block is written by allocation and deallocation only: every other operation keeps
  the types and the place of the pages. The type is what \<^verbatim>\<open>free\<close> dispatches on.
\<close>

definition block_types :: "memory_pool \<Rightarrow> nat \<times> u64 \<times> u64 \<times> block_type list" where
  "block_types pool = (max_order pool, pages_start pool, pages_end pool, map bb_type (pool_blocks pool))"

lemma types_update [simp]:
  "block_types (pool\<lparr>free_pages := n\<rparr>) = block_types pool" "block_types (pool\<lparr>max_order_free := m\<rparr>) = block_types pool"
  "block_types (pool\<lparr>pool_links := l\<rparr>) = block_types pool"
  by (simp_all add: block_types_def)

lemma types_upd_block: "(\<And>x. bb_type (f x) = bb_type x) \<Longrightarrow> block_types (upd_block i f pool) = block_types pool"
  by (cases "i < nblocks pool") (auto simp: block_types_def upd_block_def list_update_beyond intro!: nth_equalityI simp: nth_list_update)

lemma types_lists [simp]:
  "block_types (buddy_list_push_back h i pool) = block_types pool" "block_types (buddy_list_remove i pool) = block_types pool"
  by (simp_all add: buddy_list_push_back_def buddy_list_remove_def Let_def types_upd_block)

lemma types_push_free: "buddy_push_free i pool = Some q \<Longrightarrow> block_types q = block_types pool"
  by (auto simp: buddy_push_free_def split: if_splits)

lemma types_split: "split_block pool i = Some q \<Longrightarrow> block_types q = block_types pool"
  by (auto simp: split_block_def Let_def types_upd_block dest!: types_push_free split: if_splits)

lemma types_split_loop: "split_loop pool i k = Some q \<Longrightarrow> block_types q = block_types pool \<and> i < nblocks pool"
proof (induction pool i k rule: split_loop.induct)
  case (1 pool i k)
  show ?case
  proof (cases "i < nblocks pool \<and> k < bb_order (blk pool i)")
    case True
    then obtain r where r: "split_block pool i = Some r" "split_loop r i k = Some q"
      using "1.prems" by (auto simp: split_loop.simps[of pool] split: option.splits)
    then show ?thesis using "1.IH"[OF True r(1) r(2)] types_split[OF r(1)] True by simp
  next
    case False
    then show ?thesis using "1.prems" by (auto simp: split_loop.simps[of pool] split: if_splits)
  qed
qed

lemma types_merge: "try_merge_buddy pool i = Some (m, q) \<Longrightarrow> block_types q = block_types pool"
  by (auto simp: try_merge_buddy_def Let_def types_upd_block split: if_splits)

lemma types_merge_loop: "merge_loop pool i = Some (j, q) \<Longrightarrow> block_types q = block_types pool"
proof (induction pool i rule: merge_loop.induct)
  case (1 pool i)
  show ?case
  proof (cases "try_merge_buddy pool i")
    case (Some r)
    obtain m p where r: "try_merge_buddy pool i = Some (m, p)" using Some by (cases r) simp
    show ?thesis using "1.prems" "1.IH"[of "(m, p)" m p] r types_merge[OF r]
      by (cases m) (simp_all add: merge_loop.simps[of pool])
  qed (use "1.prems" in \<open>simp add: merge_loop.simps[of pool]\<close>)
qed

lemma types_free_block: "free_block pool i = Some q \<Longrightarrow> block_types q = block_types pool"
  by (auto simp: free_block_def Let_def dest!: types_push_free types_merge_loop split: option.splits if_splits)

lemma allocate_types:
  assumes inv: "heap_inv pools live" and sz: "sz \<noteq> 0" "unat sz + 4096 \<le> 2 ^ 64"
    and res: "buddy_allocate pools sz ty fl = Some (pools', a)" "a \<noteq> 0"
  obtains p b q where "p < length pools" "pools' = pools[p := q]" "a = block_to_address (pools ! p) b" "b < unat (pool_pages (pools ! p))"
    "b < nblocks (pools ! p)" "block_types q = (max_order (pools ! p), pages_start (pools ! p), pages_end (pools ! p), (map bb_type (pool_blocks (pools ! p)))[b := ty])"
proof -
  let ?n = "(sz + (PAGE_SIZE - 1)) div PAGE_SIZE" let ?o = "get_order ?n"
  note n = request_pages[OF sz]
  have "\<forall>i \<in> set [0..<length pools]. i < length pools" by simp
  from alloc_search_inv[OF inv n(1,3) this, of sz] obtain p b where
    s: "alloc_search pools sz ?o ?n [0..<length pools] = Some (Some (p, b, buddy_list_remove b (pools ! p)))" "p < length pools"
      "suits (pools ! p) ?n b" "b + unat ?n \<le> 2 ^ max_order (pools ! p)"
    using res by (auto simp: buddy_allocate_def Let_def split: if_splits)
  then obtain q where q: "split_loop (buddy_list_remove b (pools ! p)) b ?o = Some q" "pools' = pools[p := finish_alloc q b ty]"
    "a = block_to_address (finish_alloc q b ty) b"
    using res by (auto simp: buddy_allocate_def Let_def finish_alloc_def split: if_splits option.splits)
  have t: "block_types q = block_types (pools ! p)" "b < nblocks (pools ! p)"
    using types_split_loop[OF q(1)] remove_fields by simp_all
  have lay: "pool_layout (pools ! p)" using inv s(2) by (simp add: heap_inv_def)
  have "b + unat ?n - 1 < unat (pool_pages (pools ! p))"
    using pool_layoutD(2)[OF lay, of "b + unat ?n - 1"] s(3,4) n(1) by (simp add: suits_def)
  then have "b < unat (pool_pages (pools ! p))" using n(1) by linarith
  moreover have "block_types (finish_alloc q b ty) = (max_order (pools ! p), pages_start (pools ! p), pages_end (pools ! p), (map bb_type (pool_blocks (pools ! p)))[b := ty])"
    using t(1) by (simp add: finish_alloc_def Let_def block_types_def upd_block_def map_update)
  moreover from this have "a = block_to_address (pools ! p) b" using q(3) by (simp add: block_types_def block_to_address_def)
  ultimately show thesis using that[OF s(2) q(2)] t(2) by blast
qed

lemma deallocate_types:
  assumes inv: "heap_inv pools live" and a: "a \<in> dom live" and res: "buddy_deallocate pools a = Some pools'"
  obtains p b q where "p < length pools" "pools' = pools[p := q]" "a = block_to_address (pools ! p) b"
    "block_types q = (max_order (pools ! p), pages_start (pools ! p), pages_end (pools ! p), (map bb_type (pool_blocks (pools ! p)))[b := BLOCK_TYPE_FREE])"
proof -
  obtain sz where "live a = Some sz" using a by blast
  then obtain p b where p: "p < length pools" "b \<in> held (pools ! p) live" "a = block_to_address (pools ! p) b" by (rule alloc_inside[OF inv])
  then obtain q where "free_block (upd_block b (\<lambda>x. x\<lparr>bb_type := BLOCK_TYPE_FREE\<rparr>)
      ((pools ! p)\<lparr>free_pages := free_pages (pools ! p) + of_nat (2 ^ bb_order (blk (pools ! p) b))\<rparr>)) b = Some q" "pools' = pools[p := q]"
    using res get_block_held[OF inv p(1,2)] by (auto simp: buddy_deallocate_def Let_def split: option.splits)
  then show thesis using that[OF p(1) _ p(3)] types_free_block by (auto simp: block_types_def upd_block_def map_update)
qed

text \<open>The heap with the type of every allocation.\<close>

definition page_heap :: "memory_pool list \<Rightarrow> (block_type \<times> u32) allocations \<Rightarrow> bool" where
  "page_heap pools live \<longleftrightarrow> heap_inv pools (\<lambda>a. map_option snd (live a)) \<and>
     (\<forall>a ty fl sz. live a = Some ((ty, fl), sz) \<longrightarrow> buddy_get_type pools a = Some ty)"

lemma type_held:
  assumes "heap_inv pools live" and "p < length pools" and "b \<in> held (pools ! p) live"
  shows "buddy_get_type pools (block_to_address (pools ! p) b) = Some (bb_type (blk (pools ! p) b)) \<and> b < nblocks (pools ! p)"
  using get_block_held[OF assms] by (auto simp: buddy_get_type_def buddy_get_block_def Let_def split: if_splits option.splits)

text \<open>Writing the type of one block leaves the types of the allocations at other addresses.\<close>

lemma type_other:
  assumes inv: "heap_inv pools live" and inv': "heap_inv (pools[p := q]) live'" and p: "p < length pools"
    and c: "c \<in> dom live" "c \<in> dom live'" "c \<noteq> block_to_address (pools ! p) b"
    and q: "block_types q = (max_order (pools ! p), pages_start (pools ! p), pages_end (pools ! p), (map bb_type (pool_blocks (pools ! p)))[b := ty])"
  shows "buddy_get_type (pools[p := q]) c = buddy_get_type pools c"
proof -
  let ?pools = "pools[p := q]"
  have start: "block_to_address (?pools ! j) i = block_to_address (pools ! j) i" for i j
    using q p by (cases "j = p") (simp_all add: block_to_address_def block_types_def)
  have types: "bb_type (blk (?pools ! j) i) = bb_type (blk (pools ! j) i)" if "j \<noteq> p \<or> i \<noteq> b" "i < nblocks (pools ! j)" for i j
  proof (cases "j = p")
    case True
    have m: "map bb_type (pool_blocks q) = (map bb_type (pool_blocks (pools ! p)))[b := ty]" using q by (simp add: block_types_def)
    have "nblocks q = nblocks (pools ! p)" using arg_cong[OF m, of length] by simp
    then show ?thesis using arg_cong[OF m, of "\<lambda>xs. xs ! i"] that True p by simp
  qed simp
  obtain sz where "live c = Some sz" using c(1) by blast
  then obtain j i where j: "j < length pools" "i \<in> held (pools ! j) live" "c = block_to_address (pools ! j) i" by (rule alloc_inside[OF inv])
  obtain sz' where "live' c = Some sz'" using c(2) by blast
  then obtain j' i' where j': "j' < length ?pools" "i' \<in> held (?pools ! j') live'" "c = block_to_address (?pools ! j') i'" by (rule alloc_inside[OF inv'])
  have old: "buddy_get_type pools c = Some (bb_type (blk (pools ! j) i))" "i < nblocks (pools ! j)"
    using type_held[OF inv j(1,2)] j(3) by simp_all
  have new: "buddy_get_type ?pools c = Some (bb_type (blk (?pools ! j') i'))" using type_held[OF inv' j'(1,2)] j'(3) by simp
  have lay: "\<forall>k < length pools. pool_layout (pools ! k)" "pools_apart pools" using inv by (simp_all add: heap_inv_def)
  have "unat (pool_pages (?pools ! j')) = unat (pool_pages (pools ! j'))"
  proof -
    have l': "pool_layout (?pools ! j')" using inv' j'(1) by (simp add: heap_inv_def)
    have "pages_start (?pools ! j') = pages_start (pools ! j')" "pages_end (?pools ! j') = pages_end (pools ! j')"
      using q p by (cases "j' = p"; simp add: block_types_def)+
    then show ?thesis using pool_layoutD(6)[OF l'] pool_layoutD(6)[OF lay(1)[rule_format, of j']] j'(1) by simp
  qed
  then have i': "i' < unat (pool_pages (pools ! j'))" "i < unat (pool_pages (pools ! j))" using j'(2) j(2) by (simp_all add: held_def)
  have "j' = j" using block_address_pools[OF lay(2) _ j(1) _ _ i'] lay(1) j(1,3) j'(1,3) start by simp
  moreover have "i' = i" using block_address_inj[of "pools ! j" i' i] i' lay(1) j(1,3) j'(3) start calculation by simp
  ultimately show ?thesis using old new types[of j i] j(3) c(3) by fastforce
qed

lemma page_heap_serve:
  assumes "page_heap pools live" and "sz \<noteq> 0" "unat sz + 4096 \<le> 2 ^ 64"
  shows "\<exists>pools' a. buddy_allocate pools sz ty fl = Some (pools', a) \<and>
    (a = 0 \<and> page_heap pools' live \<or> a \<noteq> 0 \<and> a \<notin> dom live \<and> page_heap pools' (live(a \<mapsto> ((ty, fl), sz))))"
proof -
  let ?m = "\<lambda>a. map_option snd (live a)"
  have inv: "heap_inv pools ?m" using assms(1) by (simp add: page_heap_def)
  obtain pools' a where a: "buddy_allocate pools sz ty fl = Some (pools', a)"
    "a = 0 \<and> pools' = pools \<or> a \<noteq> 0 \<and> a \<notin> dom ?m \<and> heap_inv pools' (?m(a \<mapsto> sz))"
    using allocate_heap[OF inv assms(2,3), of ty fl] by blast
  show ?thesis
  proof (cases "a = 0")
    case True
    then show ?thesis using a assms(1) by blast
  next
    case False
    have inv': "heap_inv pools' (?m(a \<mapsto> sz))" and n: "a \<notin> dom live" using a(2) False by (auto simp: dom_def)
    have m: "(\<lambda>x. map_option snd ((live(a \<mapsto> ((ty, fl), sz))) x)) = ?m(a \<mapsto> sz)" by auto
    obtain p b q where q: "p < length pools" "pools' = pools[p := q]" "a = block_to_address (pools ! p) b" "b < unat (pool_pages (pools ! p))"
      "b < nblocks (pools ! p)" "block_types q = (max_order (pools ! p), pages_start (pools ! p), pages_end (pools ! p), (map bb_type (pool_blocks (pools ! p)))[b := ty])"
      by (rule allocate_types[OF inv assms(2,3) a(1) False])
    have pq: "pools' ! p = q" using q(1,2) by simp
    have types: "map bb_type (pool_blocks q) = (map bb_type (pool_blocks (pools ! p)))[b := ty]" using q(6) by (simp add: block_types_def)
    have here: "buddy_get_type pools' a = Some ty"
    proof -
      have lay: "pool_layout q" "pool_layout (pools ! p)" using inv inv' q(1) pq by (auto simp: heap_inv_def q(2))
      have eq: "pages_start q = pages_start (pools ! p)" "pages_end q = pages_end (pools ! p)" using q(6) by (simp_all add: block_types_def)
      then have "unat (pool_pages q) = unat (pool_pages (pools ! p))" using pool_layoutD(6)[OF lay(1)] pool_layoutD(6)[OF lay(2)] by simp
      then have "b \<in> held q (?m(a \<mapsto> sz))" "block_to_address q b = a" using q(3,4) eq by (simp_all add: held_def block_to_address_def)
      then have t: "buddy_get_type pools' a = Some (bb_type (blk q b))" "b < nblocks q" using type_held[OF inv', of p b] q(1,2) pq by simp_all
      have "map bb_type (pool_blocks q) ! b = ty" unfolding types using q(5) by simp
      then show ?thesis using t by simp
    qed
    have "buddy_get_type pools' c = Some ty'" if c: "live c = Some ((ty', fl'), sz')" for c ty' fl' sz'
    proof -
      have "c \<noteq> a" using c n by auto
      then have "buddy_get_type pools' c = buddy_get_type pools c"
        unfolding q(2) using c q(3) by (intro type_other[OF inv inv'[unfolded q(2)] q(1) _ _ _ q(6)]) auto
      then show ?thesis using assms(1) c by (simp add: page_heap_def)
    qed
    then have "page_heap pools' (live(a \<mapsto> ((ty, fl), sz)))" using inv' here unfolding page_heap_def m by auto
    then show ?thesis using a(1) False n by blast
  qed
qed

lemma page_heap_release:
  assumes "page_heap pools live" and "a \<in> dom live"
  shows "\<exists>pools'. buddy_deallocate pools a = Some pools' \<and> page_heap pools' (live(a := None))"
proof -
  let ?m = "\<lambda>a. map_option snd (live a)"
  have inv: "heap_inv pools ?m" and a: "a \<in> dom ?m" using assms by (auto simp: page_heap_def dom_def)
  obtain pools' where r: "buddy_deallocate pools a = Some pools'" "heap_inv pools' (?m(a := None))" using deallocate_heap[OF inv a] by blast
  obtain p b q where q: "p < length pools" "pools' = pools[p := q]" "a = block_to_address (pools ! p) b"
    "block_types q = (max_order (pools ! p), pages_start (pools ! p), pages_end (pools ! p), (map bb_type (pool_blocks (pools ! p)))[b := BLOCK_TYPE_FREE])"
    by (rule deallocate_types[OF inv a r(1)])
  have m: "(\<lambda>x. map_option snd ((live(a := None)) x)) = ?m(a := None)" by auto
  have "buddy_get_type pools' c = Some ty" if c: "live c = Some ((ty, fl), sz)" "c \<noteq> a" for c ty fl sz
  proof -
    have "buddy_get_type pools' c = buddy_get_type pools c"
      unfolding q(2) using c q(3) by (intro type_other[OF inv r(2)[unfolded q(2)] q(1) _ _ _ q(4)]) auto
    then show ?thesis using assms(1) c by (simp add: page_heap_def)
  qed
  then show ?thesis using r unfolding page_heap_def m by (auto split: if_splits)
qed

lemma page_heap_separate:
  "page_heap pools live \<Longrightarrow> live a = Some (r, sz) \<Longrightarrow> live a' = Some (r', sz') \<Longrightarrow> a \<noteq> a' \<Longrightarrow> apart a sz a' sz'"
  using alloc_disjoint[of pools "\<lambda>a. map_option snd (live a)" a sz a' sz'] by (simp add: page_heap_def apart_def)

definition page_request_ok :: "block_type \<times> u32 \<Rightarrow> u64 \<Rightarrow> bool" where
  "page_request_ok r sz \<longleftrightarrow> sz \<noteq> 0 \<and> unat sz + 4096 \<le> 2 ^ 64"

interpretation pages: allocator "\<lambda>(ty, fl) pools sz. buddy_allocate pools sz ty fl" "\<lambda>_. buddy_deallocate" page_request_ok page_heap
proof
  fix pools :: "memory_pool list" and live :: "(block_type \<times> u32) allocations" and r sz
  assume "page_heap pools live" "page_request_ok r sz"
  then show "\<exists>s' a. (case r of (ty, fl) \<Rightarrow> \<lambda>pools sz. buddy_allocate pools sz ty fl) pools sz = Some (s', a) \<and>
      (a = 0 \<and> page_heap s' live \<or> a \<noteq> 0 \<and> a \<notin> dom live \<and> page_heap s' (live(a \<mapsto> (r, sz))))"
    using page_heap_serve[of pools live sz "fst r" "snd r"] by (cases r) (simp add: page_request_ok_def)
next
  fix pools :: "memory_pool list" and live :: "(block_type \<times> u32) allocations" and a r sz
  assume "page_heap pools live" "live a = Some (r, sz)"
  then show "\<exists>s'. buddy_deallocate pools a = Some s' \<and> page_heap s' (live(a := None))" using page_heap_release by blast
qed (rule page_heap_separate)

section \<open>Properties\<close>

lemma example_init: "init_pool [] 0x80000000 0x80008000 0 = [ready_pool 0x80000000 3 0]"
  using r3.init_pool_eq[of 0] by simp

lemma example_heap: "heap_inv (init_pool [] 0x80000000 0x80008000 0) Map.empty"
  unfolding example_init by (rule r3.ready_heap)

abbreviation page_step :: "memory_pool list \<times> (block_type \<times> u32) allocations \<Rightarrow> memory_pool list \<times> (block_type \<times> u32) allocations \<Rightarrow> bool" where
  "page_step \<equiv> alloc_step (\<lambda>(ty, fl) pools sz. buddy_allocate pools sz ty fl) (\<lambda>_. buddy_deallocate) page_request_ok"

lemma heap_inv_page_heap: "heap_inv pools Map.empty \<Longrightarrow> page_heap pools Map.empty"
  by (simp add: page_heap_def)

lemma page_heap_inv: "page_heap pools live \<Longrightarrow> heap_inv pools (\<lambda>a. map_option snd (live a))"
  by (simp add: page_heap_def)





text \<open>
  C16: \<^verbatim>\<open>init_pool\<close> on an aligned region of \<open>2 ^ k\<close> pages establishes the invariant of the heap, provided the
  metadata takes less than half of the pages and does not end within 24 bytes of a page boundary.
\<close>

theorem init_pool_establishes:
  assumes "0 < s" and "s mod 4096 = 0" and "s + 4096 * 2 ^ k < 2 ^ 64" and "k \<le> 30"
    and "2 * meta_pages k < 2 ^ k" and "2 ^ k < (4096 * meta_pages k - 576 * (k + 1)) div 24"
  shows "heap_inv (init_pool [] (of_nat s) (of_nat (s + 4096 * 2 ^ k)) fl) Map.empty"
proof -
  have r: "region s k" using assms by (rule region.intro)
  show ?thesis unfolding region.init_pool_eq[OF r] by (rule region.ready_heap[OF r])
qed

theorem init_pool_establishes_witness: "heap_inv (init_pool [] (of_nat 0x80000000) (of_nat (0x80000000 + 4096 * 2 ^ 12)) 0) Map.empty"
  by (rule init_pool_establishes) (simp_all add: meta_pages_def)

lemma find_pool_first:
  "max_order_free pool \<ge> order \<Longrightarrow> free_pages pool \<ge> n \<Longrightarrow> pool \<in> set pools \<Longrightarrow> find_pool pools order n i \<noteq> None"
  by (induction pools arbitrary: i) auto

text \<open>The search of the pools from the \<open>i\<close>-th on does not give up before a pool that has a block.\<close>

lemma alloc_search_finds:
  assumes "p < length pools" and "order < max_order (pools ! p)" and "order \<le> max_order_free (pools ! p)" and "n \<le> free_pages (pools ! p)"
    and "pool_find_block (pools ! p) order n = Some (Some b, pool')"
  shows "i \<le> p \<Longrightarrow> alloc_search pools sz order n [i..<length pools] \<noteq> Some None"
proof (induction "p - i" arbitrary: i)
  case 0
  then have i: "i = p" by simp
  have "[p..<length pools] = p # [Suc p..<length pools]" using assms(1) by (rule upt_conv_Cons)
  moreover have "find_pool (drop p pools) order n p = Some p" using assms(1,3,4) by (simp add: Cons_nth_drop_Suc[symmetric])
  ultimately show ?case unfolding i using assms(2,5) by simp
next
  case (Suc d)
  then have i: "i < p" by simp
  then have u: "[i..<length pools] = i # [Suc i..<length pools]" using assms(1) by (intro upt_conv_Cons) simp
  have "pools ! p = drop i pools ! (p - i)" "p - i < length (drop i pools)" using i assms(1) by simp_all
  then have "pools ! p \<in> set (drop i pools)" by (metis nth_mem)
  then obtain q where q: "find_pool (drop i pools) order n i = Some q" using find_pool_first[OF assms(3,4)] by blast
  have "alloc_search pools sz order n [Suc i..<length pools] \<noteq> Some None" using Suc i by simp
  then show ?case unfolding u by (auto simp: q Let_def split: option.splits)
qed

lemma allocate_suits:
  assumes inv: "heap_inv pools live" and "sz \<noteq> 0" and "unat sz + 4096 \<le> 2 ^ 64" and "pages = (sz + (PAGE_SIZE - 1)) div PAGE_SIZE"
    and p: "p < length pools" and "get_order pages < max_order (pools ! p)" and "pages \<le> free_pages (pools ! p)"
    and "b \<in> free_set (pools ! p)" and "\<not> bb_is_waste (blk (pools ! p) b)" and "get_order pages \<le> bb_order (blk (pools ! p) b)"
    and "suits (pools ! p) pages b"
  shows "\<exists>pools' a. buddy_allocate pools sz ty fl = Some (pools', a) \<and> a \<noteq> 0"
proof -
  let ?o = "get_order pages" and ?p = "pools ! p"
  note n = request_pages[OF assms(2,3), folded assms(4)]
  obtain L where L: "pool_inv ?p (held ?p live) L" using inv p by (auto simp: heap_inv_def)
  have "Block b \<in> set (L (Free_List (bb_order (blk ?p b))))" using free_set_listed[OF L assms(8)] assms(9) by auto
  moreover have "bb_order (blk ?p b) \<le> max_order ?p" using tilingD(4)[OF pool_invD(8)[OF L]] assms(8) by blast
  ultimately have "bb_order (blk ?p b) \<le> max_order_free ?p" using pool_invD(10)[OF L, of "bb_order (blk ?p b)"] by force
  then have mf: "?o \<le> max_order_free ?p" using assms(10) by simp
  obtain b' where "pool_find_block ?p ?o pages = Some (Some b', buddy_list_remove b' ?p)"
    using pool_find_block_inv[OF L n(1,3)] assms(8-11) by blast
  from alloc_search_finds[OF p assms(6) mf assms(7) this, of 0 sz]
  have s: "alloc_search pools sz ?o pages [0..<length pools] \<noteq> Some None" by simp
  have "\<forall>i \<in> set [0..<length pools]. i < length pools" by simp
  from alloc_search_inv[OF inv n(1,3) this, of sz] s show ?thesis
    using allocate_found[OF assms(1-3), folded assms(4), of _ _ _ ty fl] by blast
qed

text \<open>While only single pages are in use, and fewer than \<open>w\<close> of the first \<open>w\<close>, one more page is served.\<close>

lemma page_served:
  assumes inv: "heap_inv [pool] live" and ord: "\<forall>b \<in> held pool live. bb_order (blk pool b) = 0"
    and w: "w \<le> 2 ^ max_order pool" "\<forall>i < w. \<not> bb_is_waste (blk pool i)" "card (held pool live) < w" "0 < max_order pool"
  shows "\<exists>pool' a. buddy_allocate [pool] PAGE_SIZE ty fl = Some ([pool'], a) \<and> a \<noteq> 0 \<and> a \<notin> dom live \<and> heap_inv [pool'] (live(a \<mapsto> PAGE_SIZE)) \<and>
    same_place pool pool' \<and> (\<forall>b \<in> held pool' (live(a \<mapsto> PAGE_SIZE)). bb_order (blk pool' b) = 0) \<and>
    card (held pool' (live(a \<mapsto> PAGE_SIZE))) = Suc (card (held pool live))"
proof -
  let ?A = "held pool live"
  have one: "(PAGE_SIZE + (PAGE_SIZE - 1)) div PAGE_SIZE = 1" "PAGE_SIZE \<noteq> 0" "unat PAGE_SIZE + 4096 \<le> 2 ^ 64" by (simp_all add: PAGE_SIZE_def)
  have o: "get_order 1 = 0" using get_order_of_power[of 0] by simp
  obtain L where L: "pool_inv pool ?A L" and lay: "pool_layout pool" and cnt: "counted pool ?A" using inv by (auto simp: heap_inv_def)
  obtain x where x: "x < w" "x \<notin> ?A"
  proof -
    have "\<not> {..<w} \<subseteq> ?A" using w(3) card_mono[OF held_finite[of pool live], of "{..<w}"] by auto
    then show ?thesis using that by blast
  qed
  have "x \<in> (\<Union>i \<in> ?A \<union> free_set pool. {i..<i + 2 ^ bb_order (blk pool i)})"
    using pool_invD(8)[OF L] x(1) w(1) unfolding tiling_def by auto
  then obtain i where i: "i \<in> ?A \<union> free_set pool" "i \<le> x" "x < i + 2 ^ bb_order (blk pool i)" by auto
  have "i \<notin> ?A" using ord i(2,3) x(2) by (metis One_nat_def Suc_eq_plus1 le_antisym less_Suc_eq_le power_0)
  then have f: "i \<in> free_set pool" using i(1) by blast
  have nw: "\<not> bb_is_waste (blk pool i)" using w(2) i(2) x(1) by simp
  have "unat (pool_pages pool) \<ge> w"
  proof -
    obtain v where v: "w = Suc v" using w(3) by (cases w) auto
    then show ?thesis using pool_layoutD(2)[OF lay, of v] w(1,2) by simp
  qed
  moreover have "free_pages pool + of_nat (card ?A) = pool_pages pool" using cnt ord by (simp add: counted_def)
  ultimately have "free_pages pool \<noteq> 0" using w(3) unat_of_nat_small[of "card ?A", where 'a = 64] unat_less[of "pool_pages pool"]
    by (metis add_0 leD le_less_trans less_trans linorder_not_less)
  then have fr: "1 \<le> free_pages pool" by (simp add: word_le_nat_alt Suc_le_eq unat_gt_0)
  obtain b where pf: "pool_find_block pool 0 1 = Some (Some b, buddy_list_remove b pool)"
    using pool_find_block_inv[OF L, of 1 0] f nw by (auto simp: suits_def)
  have "Block i \<in> set (L (Free_List (bb_order (blk pool i))))" using free_set_listed[OF L f] nw by auto
  moreover have "bb_order (blk pool i) \<le> max_order pool" using tilingD(4)[OF pool_invD(8)[OF L]] f by blast
  ultimately have "bb_order (blk pool i) \<le> max_order_free pool" using pool_invD(10)[OF L, of "bb_order (blk pool i)"] by force
  then have fp: "find_pool [pool] 0 1 0 = Some 0" using fr by simp
  have s: "alloc_search [pool] PAGE_SIZE 0 1 [0..<length [pool]] = Some (Some (0, b, buddy_list_remove b pool))" using fp pf w(4) by simp
  have "\<forall>i \<in> set [0..<length [pool]]. i < length [pool]" by simp
  from alloc_search_inv[OF inv _ _ this, of 1 0 PAGE_SIZE] s
  obtain L' where "alloc_search [pool] PAGE_SIZE (get_order 1) 1 [0..<length [pool]] = Some (Some (0, b, buddy_list_remove b ([pool] ! 0)))" "0 < length [pool]"
      "pool_inv (buddy_list_remove b ([pool] ! 0)) (insert b (held ([pool] ! 0) live)) L'" "b \<notin> held ([pool] ! 0) live" "suits ([pool] ! 0) 1 b"
      "get_order 1 \<le> bb_order (blk ([pool] ! 0) b)" "bb_order (blk ([pool] ! 0) b) \<le> max_order_free ([pool] ! 0)" "b + unat (1 :: u64) \<le> 2 ^ max_order ([pool] ! 0)"
    unfolding o by auto
  from allocate_found_orders[OF inv one(2,3), unfolded one(1), OF this, of ty fl] this(4) show ?thesis
    using ord held_finite[of pool live] unfolding o by fastforce
qed

lemma example_page:
  assumes "sz = PAGE_SIZE \<or> sz = 5000"
  shows "\<exists>pools' a. buddy_allocate (init_pool [] 0x80000000 0x80008000 0) sz ty fl = Some (pools', a) \<and> a \<noteq> 0"
proof -
  let ?p = "ready_pool 0x80000000 3 0" let ?n = "(sz + (PAGE_SIZE - 1)) div PAGE_SIZE"
  have m: "meta_pages 3 = 1" by (simp add: meta_pages_def)
  have o: "get_order 1 = 0" "get_order 2 = 1" using get_order_of_power[of 0] get_order_of_power[of 1] by simp_all
  have n: "?n = 1 \<or> ?n = 2" using assms by (auto simp: PAGE_SIZE_def)
  have z: "0 < (2::nat) ^ 3" "1 < (2::nat) ^ 3" by simp_all
  have "nblocks ?p = 74" unfolding r3.ready_fields r3.fresh_blocks_nth m by simp
  then have "0 \<in> free_set ?p" using r3.ready_blocks(2)[OF z(1)] by (simp add: free_set_def)
  moreover have "suits ?p ?n 0" using r3.ready_blocks(1)[OF z(1)] r3.ready_blocks(1)[OF z(2)] m n by (auto simp: suits_def)
  ultimately show ?thesis unfolding example_init
    using r3.ready_blocks[OF z(1)] m o n r3.ready_fields assms
    by (intro allocate_suits[OF r3.ready_heap _ _ refl, where b = 0 and p = 0]) (auto simp: PAGE_SIZE_def)
qed

text \<open>
  C17: in a heap of any number of pools, a request is served if one of the pools can serve it: the request is below
  that pool's highest order, the pool's counter of free pages covers it, and one of its free blocks of at least the
  request's order holds it without touching waste pages. The condition on the counter is the code's own
  (\<^verbatim>\<open>find_pool\<close>) and it is not implied by the rest: the counter goes down by the whole block while it started
  without the waste, so a pool with waste may hold a fitting block and refuse the request.
\<close>

theorem buddy_allocate_complete:
  assumes "heap_inv pools live" and "sz \<noteq> 0" and "unat sz + 4096 \<le> 2 ^ 64" and "pages = (sz + (PAGE_SIZE - 1)) div PAGE_SIZE"
    and "p < length pools" and "get_order pages < max_order (pools ! p)" and "pages \<le> free_pages (pools ! p)"
    and "b \<in> free_set (pools ! p)" and "\<not> bb_is_waste (blk (pools ! p) b)" and "get_order pages \<le> bb_order (blk (pools ! p) b)"
    and "suits (pools ! p) pages b"
  shows "\<exists>pools' a. buddy_allocate pools sz ty fl = Some (pools', a) \<and> a \<noteq> 0"
  by (rule allocate_suits[OF assms])

theorem buddy_allocate_complete_witness:
  "\<exists>pools' a. buddy_allocate [ready_pool 0x80000000 3 0] 8192 BLOCK_TYPE_PAGE 0 = Some (pools', a) \<and> a \<noteq> 0"
proof -
  let ?p = "ready_pool 0x80000000 3 0"
  have m: "meta_pages 3 = 1" by (simp add: meta_pages_def)
  have o: "get_order 2 = 1" using get_order_of_power[of 1] by simp
  have z: "0 < (2::nat) ^ 3" "1 < (2::nat) ^ 3" by simp_all
  have "nblocks ?p = 74" unfolding r3.ready_fields r3.fresh_blocks_nth m by simp
  then have "0 \<in> free_set ?p" using r3.ready_blocks(2)[OF z(1)] by (simp add: free_set_def)
  moreover have "suits ?p 2 0" using r3.ready_blocks(1)[OF z(2)] m by (simp add: suits_def)
  ultimately show ?thesis
    using r3.ready_blocks[OF z(1)] m o r3.ready_fields
    by (intro buddy_allocate_complete[OF r3.ready_heap, where pages = 2 and b = 0 and p = 0]) (simp_all add: PAGE_SIZE_def)
qed

text \<open>
  C28: a request rounds up to the smallest power of two of pages that holds it; \<^verbatim>\<open>get_order\<close> is exact
  for every count up to \<open>2 ^ 63\<close>.
\<close>

theorem get_order_least:
  assumes "x \<noteq> 0" and "unat x \<le> 2 ^ 63"
  shows "unat x \<le> 2 ^ get_order x \<and> 2 ^ get_order x < 2 * unat x \<and> get_order x \<le> 63"
  using get_order_bounds[of x] assms by (simp add: unat_gt_0)

theorem get_order_least_witness: "unat (1000::u64) \<le> 2 ^ get_order 1000 \<and> (2::nat) ^ get_order 1000 < 2 * unat (1000::u64)"
  using get_order_least[of 1000] by simp

lemma order_size_exact: "order < 19 \<Longrightarrow> \<exists>n. order_size order = Some n \<and> unat n = 2 ^ order * 4096"
proof -
  assume o: "order < 19"
  then have "(2::nat) ^ order \<le> 2 ^ 18" by (intro power_increasing) simp_all
  then have "unat (of_nat (2 ^ order * 4096) :: u64) = 2 ^ order * 4096" by (intro unat_of_nat_small) simp
  then show ?thesis using o by (simp add: order_size_def)
qed

text \<open>The pool of a region of five pages.\<close>

lemma five_pages_order: "get_order 5 = 3"
proof -
  have b: "5 \<le> (2::nat) ^ get_order 5" "(2::nat) ^ get_order 5 < 10" using get_order_bounds[of 5] by simp_all
  have "\<not> get_order 5 \<le> 2"
  proof
    assume "get_order 5 \<le> 2"
    then have "(2::nat) ^ get_order 5 \<le> 2 ^ 2" by (intro power_increasing) simp_all
    then show False using b(1) by simp
  qed
  moreover have "\<not> 4 \<le> get_order 5"
  proof
    assume "4 \<le> get_order 5"
    then have "(2::nat) ^ 4 \<le> 2 ^ get_order 5" by (intro power_increasing) simp_all
    then show False using b(2) by simp
  qed
  ultimately show ?thesis by linarith
qed

lemma five_pages_words:
  "(0x80005000 - 0x80000000) div PAGE_SIZE = 5" "ALIGN_UP (0x80000000 + 24 * (24 * (of_nat 3 + 1))) 8 = 0x80000900"
  "ALIGN_UP (0x80000900 + 24 * 5) PAGE_SIZE = 0x80001000" "ALIGN_DOWN 0x80005000 PAGE_SIZE = 0x80005000"
  "(0x80005000 - 0x80001000) div PAGE_SIZE = 4" "(ucast ((2::u64) ^ 3 - 4) :: u32) = 4" "unat ((0x80001000 - 0x80000900 :: u64) div 24) = 74"
  "(4::u64) - ucast (4::u32) = 0"
  by (simp_all add: PAGE_SIZE_def ALIGN_UP_def ALIGN_DOWN_def)

definition five_pool :: memory_pool where
  "five_pool =
     (let blocks = mark_waste 0 5 (replicate 74 zero_block)
      in (buddy_list_push_back (Free_List 3) 0
           \<lparr>pool_flags = 0, pool_start = 0x80000000, pool_end = 0x80005000, pages_start = 0x80001000, pages_end = 0x80005000,
            pool_pages = 4, free_pages = 4, max_order = 3, max_order_free = 0, max_order_waste = 4,
            pool_blocks = blocks[0 := (blocks ! 0)\<lparr>bb_order := 3\<rparr>], pool_links = \<lparr>ring_prev = id, ring_next = id\<rparr>\<rparr>)\<lparr>max_order_free := 3\<rparr>)"

lemma five_pages: "init_pool [] 0x80000000 0x80005000 0 = [five_pool]"
proof -
  have l: "list_init (Block 0) (list_init Waste_List (fold (\<lambda>i. list_init (Free_List i)) [0..<3 + 1] \<lparr>ring_prev = id, ring_next = id\<rparr>)) =
      \<lparr>ring_prev = id, ring_next = id\<rparr>" unfolding list_inits_id by (simp add: list_init_idem)
  show ?thesis
    unfolding init_pool_def Let_def five_pages_words(1) five_pages_order five_pages_words(2-) l five_pool_def
    by (simp add: MAX_MEMORY_POOLS_def)
qed

lemma five_pool_fields:
  "free_pages five_pool = 4" "max_order five_pool = 3" "max_order_free five_pool = 3" "max_order_waste five_pool = 4" "nblocks five_pool = 74"
  "ring_prev (pool_links five_pool) = id(Block 0 := Free_List 3, Free_List 3 := Block 0)"
  using mark_waste_nth[of 5 "replicate 74 zero_block" 0]
  by (simp_all add: five_pool_def Let_def buddy_list_push_back_def upd_block_def list_push_back_def fun_eq_iff)

lemma five_pool_waste: "i < 5 \<Longrightarrow> bb_is_waste (blk five_pool i)"
  using mark_waste_nth[of 5 "replicate 74 zero_block" 0]
  by (cases "i = 0") (simp_all add: five_pool_def Let_def buddy_list_push_back_def upd_block_def)

lemma five_pool_search:
  assumes "x \<noteq> 0" and "unat x \<le> 4"
  shows "pool_find_block five_pool k x = Some (None, five_pool)"
proof -
  have "find_in_list five_pool (Free_List a) (Free_List a) x = Some None" for a
  proof (cases "a = 3")
    case False
    then show ?thesis by (simp add: find_in_list.simps[of _ _ "Free_List a"] five_pool_fields)
  next
    case True
    have "unat (x - 1) < 5" using assms by (simp add: unat_minus_one)
    then have "bb_is_waste (blk five_pool (unat (x - 1)))" "unat (x - 1) < 74" using five_pool_waste by simp_all
    then show ?thesis
      using True by (simp add: find_in_list.simps[of _ _ "Free_List 3"] find_in_list.simps[of _ _ "Block 0"] five_pool_fields)
  qed
  then have "find_in_orders five_pool x as = Some None" for as by (induction as) simp_all
  then show ?thesis by (simp add: pool_find_block_def)
qed

text \<open>
  C31: the descriptors marked as waste start too early. In the pool of the five pages from \<open>0x80000000\<close> on, of
  which four are usable, half of the next power of two, every descriptor is marked: \<^verbatim>\<open>buddy_allocate\<close> refuses every
  request, of any size, although the four pages are free.
\<close>

theorem init_pool_all_waste:
  assumes "sz \<noteq> 0" and "unat sz + 4096 \<le> 2 ^ 64"
  shows "free_pages (hd (init_pool [] 0x80000000 0x80005000 0)) = 4 \<and>
    buddy_allocate (init_pool [] 0x80000000 0x80005000 0) sz ty fl = Some (init_pool [] 0x80000000 0x80005000 0, 0)"
proof -
  let ?n = "(sz + (PAGE_SIZE - 1)) div PAGE_SIZE"
  note n = request_pages[OF assms]
  have none: "pool_find_block five_pool (get_order ?n) ?n = Some (None, five_pool)" if "\<not> 4 < ?n"
  proof (rule five_pool_search)
    show "?n \<noteq> 0" using n(1) by (metis less_irrefl unat_0)
    show "unat ?n \<le> 4" using that by (simp add: word_less_nat_alt)
  qed
  have "alloc_search [five_pool] sz (get_order ?n) ?n [0..<length [five_pool]] = Some None"
    using none by (simp add: Let_def five_pool_fields not_less)
  then show ?thesis using assms(1) unfolding five_pages by (simp add: buddy_allocate_def Let_def five_pool_fields)
qed

theorem init_pool_all_waste_witness:
  "buddy_allocate (init_pool [] 0x80000000 0x80005000 0) 4096 BLOCK_TYPE_PAGE 0 = Some (init_pool [] 0x80000000 0x80005000 0, 0)"
  using init_pool_all_waste[of 4096 BLOCK_TYPE_PAGE 0] by simp

end
