(* ===== verification/Slab.thy ===== *)
theory Slab
  imports Buddy_Heap
begin

text \<open>
  The slab allocator, \<^verbatim>\<open>kernel/src/malloc/slab-alloc.c\<close>: objects of 32 to 256 bytes in pages of the page
  allocator. A page starts with a header that holds a bitmap of its free slots; the pages of a size
  are kept in five lists by how full they are. The header of a page is an entry of the map
  \<open>sl_headers\<close> from page addresses; a page that was given back has none. Reading a header that is not
  there, a bitmap word or a list past the end has no result.
\<close>

unbundle bit_operations_syntax

section \<open>Definitions\<close>

datatype slab_node = Slab_List nat nat | Slab_Page u64

record slab_header =
  sh_size :: nat
  sh_use_count :: u8
  sh_slab_use :: nat
  sh_bitmap :: "u32 list"

record slab_heap =
  sl_pools :: "memory_pool list"
  sl_headers :: "u64 \<rightharpoonup> slab_header"
  sl_links :: "slab_node ring"

definition DATA_OFFSET :: u64 where
  "DATA_OFFSET = 64"

definition slab_bytes :: "nat list" where
  "slab_bytes = [32, 64, 128, 256]"

definition slab_tresholds :: "nat list list" where
  "slab_tresholds = [[0, 32, 64, 126], [0, 16, 32, 63], [0, 8, 16, 31], [0, 4, 8, 15]]"

definition slab_empty :: "u32 list list" where
  "slab_empty = [[0xFFFFFFFF, 0xFFFFFFFF, 0xFFFFFFFF, 0x3FFFFFFF], [0xFFFFFFFF, 0x7FFFFFFF, 0, 0], [0x7FFFFFFF, 0, 0, 0], [0x00007FFF, 0, 0, 0]]"

definition bitmap_clear_bit :: "u32 \<Rightarrow> u32 \<Rightarrow> u32" where
  "bitmap_clear_bit w bit_index = w AND NOT (push_bit (unat bit_index) 1)"

definition bitmap_set_bit :: "u32 \<Rightarrow> u32 \<Rightarrow> u32" where
  "bitmap_set_bit w bit_index = w OR push_bit (unat bit_index) 1"

text \<open>The enumerators \<^verbatim>\<open>SLAB_USE_EMPTY\<close> to \<^verbatim>\<open>SLAB_USE_FULL\<close> are the numbers 0 to 4, the sizes 0 to 3.\<close>

definition init_slab :: "nat \<Rightarrow> slab_header" where
  "init_slab ss = \<lparr>sh_size = ss, sh_use_count = 1, sh_slab_use = 1, sh_bitmap = slab_empty ! ss\<rparr>"

text \<open>The search of \<^verbatim>\<open>get_slab\<close> over the lists of a size: \<open>Some None\<close> when all are empty.\<close>

fun get_slab_loop :: "slab_heap \<Rightarrow> nat \<Rightarrow> nat list \<Rightarrow> (slab_heap \<times> u64) option option" where
  "get_slab_loop st ss [] = Some None"
| "get_slab_loop st ss (i # is) =
     (if \<not> list_empty (Slab_List ss i) (sl_links st) then
        case ring_prev (sl_links st) (Slab_List ss i) of
          Slab_List _ _ \<Rightarrow> None
        | Slab_Page slab \<Rightarrow>
            (case sl_headers st slab of
               None \<Rightarrow> None
             | Some h \<Rightarrow>
                 let h = h\<lparr>sh_use_count := sh_use_count h + 1\<rparr>
                 in if unat (sh_use_count h) \<ge> slab_tresholds ! ss ! i
                    then Some (Some (st\<lparr>sl_links := list_push_back (Slab_List ss (i + 1)) (Slab_Page slab) (list_remove (Slab_Page slab) (sl_links st)),
                                        sl_headers := (sl_headers st)(slab \<mapsto> h\<lparr>sh_slab_use := sh_slab_use h + 1\<rparr>)\<rparr>, slab))
                    else Some (Some (st\<lparr>sl_headers := (sl_headers st)(slab \<mapsto> h)\<rparr>, slab)))
      else get_slab_loop st ss is)"

text \<open>The result is the heap and the page, 0 for \<^verbatim>\<open>NULL\<close>.\<close>

definition get_slab :: "slab_heap \<Rightarrow> nat \<Rightarrow> (slab_heap \<times> u64) option" where
  "get_slab st ss =
     (case get_slab_loop st ss [3, 2, 1, 0] of
        None \<Rightarrow> None
      | Some (Some r) \<Rightarrow> Some r
      | Some None \<Rightarrow>
          (case buddy_allocate (sl_pools st) PAGE_SIZE BLOCK_TYPE_SLAB 0 of
             None \<Rightarrow> None
           | Some (pools, allocation) \<Rightarrow>
               if allocation = 0 then Some (st\<lparr>sl_pools := pools\<rparr>, 0)
               else Some (st\<lparr>sl_pools := pools, sl_headers := (sl_headers st)(allocation \<mapsto> init_slab ss),
                             sl_links := list_push_back (Slab_List ss 1) (Slab_Page allocation) (sl_links st)\<rparr>, allocation)))"

definition init_kernel_slabs :: "slab_heap \<Rightarrow> slab_heap" where
  "init_kernel_slabs st = st\<lparr>sl_links := fold (\<lambda>i. fold (\<lambda>k. list_init (Slab_List i k)) [0..<5]) [0..<4] (sl_links st)\<rparr>"

text \<open>The search of \<^verbatim>\<open>slab_allocate\<close> for a free slot: the word of the bitmap and the bit in it.\<close>

fun find_slot :: "u32 list \<Rightarrow> nat \<Rightarrow> (nat \<times> u32) option" where
  "find_slot [] i = None"
| "find_slot (w # ws) i = (if w = 0 then find_slot ws (i + 1) else Some (i, find_first_trailing_set_bit32 (ucast w)))"

definition slab_type_of :: "u64 \<Rightarrow> nat" where
  "slab_type_of sz = (if sz > 128 then 3 else if sz > 64 then 2 else if sz > 32 then 1 else 0)"

definition slab_allocate :: "slab_heap \<Rightarrow> u64 \<Rightarrow> (slab_heap \<times> u64) option" where
  "slab_allocate st sz =
     (if sz > 256 then Some (st, 0)
      else
        let slab_type = slab_type_of sz
        in case get_slab st slab_type of
             None \<Rightarrow> None
           | Some (st, page) \<Rightarrow>
               if page = 0 then Some (st, 0)
               else case sl_headers st page of
                      None \<Rightarrow> None
                    | Some h \<Rightarrow>
                        (case find_slot (sh_bitmap h) 0 of
                           None \<Rightarrow> Some (st, 0)
                         | Some (i, bit_index) \<Rightarrow>
                             let w = bitmap_clear_bit (sh_bitmap h ! i) bit_index;
                                 index = of_nat i * 32 + ucast bit_index;
                                 st = st\<lparr>sl_headers := (sl_headers st)(page \<mapsto> h\<lparr>sh_bitmap := (sh_bitmap h)[i := w]\<rparr>)\<rparr>
                             in Some (st, page + DATA_OFFSET + index * of_nat (slab_bytes ! slab_type))))"

definition slab_deallocate :: "slab_heap \<Rightarrow> u64 \<Rightarrow> slab_heap option" where
  "slab_deallocate st ptr =
     (if ptr = 0 then Some st
      else
        let header = ALIGN_DOWN ptr PAGE_SIZE
        in case sl_headers st header of
             None \<Rightarrow> None
           | Some h \<Rightarrow>
               let offset = ptr - header - DATA_OFFSET;
                   total_bit_index = (ucast (offset div of_nat (slab_bytes ! sh_size h)) :: u32);
                   word_index = unat (total_bit_index div 32);
                   bit_index = total_bit_index mod 32
               in if word_index \<ge> length (sh_bitmap h) then None
                  else
                    let new_bitmap = bitmap_set_bit (sh_bitmap h ! word_index) bit_index
                    in if sh_bitmap h ! word_index = new_bitmap then Some st
                       else
                         let h = h\<lparr>sh_bitmap := (sh_bitmap h)[word_index := new_bitmap], sh_use_count := sh_use_count h - 1\<rparr>
                         in if sh_slab_use h = 0 then None
                            else if unat (sh_use_count h) \<le> slab_tresholds ! sh_size h ! (sh_slab_use h - 1) then
                              let h = h\<lparr>sh_slab_use := sh_slab_use h - 1\<rparr>;
                                  links = list_remove (Slab_Page header) (sl_links st);
                                  list = Slab_List (sh_size h) (sh_slab_use h)
                              in if sh_slab_use h > 0 \<or> list_empty list links
                                 then Some (st\<lparr>sl_headers := (sl_headers st)(header \<mapsto> h), sl_links := list_push_back list (Slab_Page header) links\<rparr>)
                                 else case buddy_deallocate (sl_pools st) header of
                                        None \<Rightarrow> None
                                      | Some pools \<Rightarrow> Some (st\<lparr>sl_pools := pools, sl_headers := (sl_headers st)(header := None), sl_links := links\<rparr>)
                            else Some (st\<lparr>sl_headers := (sl_headers st)(header \<mapsto> h)\<rparr>))"

definition slab_get_size :: "slab_heap \<Rightarrow> u64 \<Rightarrow> u64 option" where
  "slab_get_size st ptr =
     (if ptr = 0 then Some 0
      else map_option (\<lambda>h. of_nat (slab_bytes ! sh_size h)) (sl_headers st (ALIGN_DOWN ptr PAGE_SIZE)))"

section \<open>Slots\<close>

text \<open>The number of objects in a page of each size, which the last threshold repeats.\<close>

definition capacity :: "nat \<Rightarrow> nat" where
  "capacity ss = slab_tresholds ! ss ! 3"

definition slot_free :: "slab_header \<Rightarrow> nat \<Rightarrow> bool" where
  "slot_free h k \<longleftrightarrow> bit (sh_bitmap h ! (k div 32)) (k mod 32)"

definition used_slots :: "slab_header \<Rightarrow> nat set" where
  "used_slots h = {k. k < capacity (sh_size h) \<and> \<not> slot_free h k}"

text \<open>How many objects a page of list \<open>i\<close> holds.\<close>

definition use_range :: "nat \<Rightarrow> nat \<Rightarrow> nat \<Rightarrow> bool" where
  "use_range ss i n \<longleftrightarrow>
     (if i = 0 then n = 0
      else if i = 4 then n = capacity ss
      else 0 < n \<and> slab_tresholds ! ss ! (i - 1) \<le> n \<and> n \<le> slab_tresholds ! ss ! i \<and> n < capacity ss)"

lemma less_4_cases: "s < 4 \<Longrightarrow> (s = 0 \<Longrightarrow> P) \<Longrightarrow> (s = 1 \<Longrightarrow> P) \<Longrightarrow> (s = 2 \<Longrightarrow> P) \<Longrightarrow> (s = 3 \<Longrightarrow> P) \<Longrightarrow> P" for s :: nat
  by linarith

lemma tresholds_eval [simp]:
  "slab_tresholds ! 0 = [0, 32, 64, 126]" "slab_tresholds ! Suc 0 = [0, 16, 32, 63]"
  "slab_tresholds ! 2 = [0, 8, 16, 31]" "slab_tresholds ! 3 = [0, 4, 8, 15]"
  by (simp_all add: slab_tresholds_def)

lemma capacity_eval [simp]: "capacity 0 = 126" "capacity (Suc 0) = 63" "capacity 2 = 31" "capacity 3 = 15"
  by (simp_all add: capacity_def)

lemma bytes_eval [simp]: "slab_bytes ! 0 = 32" "slab_bytes ! Suc 0 = 64" "slab_bytes ! 2 = 128" "slab_bytes ! 3 = 256"
  by (simp_all add: slab_bytes_def)

lemma capacity_bounds: "ss < 4 \<Longrightarrow> 0 < capacity ss \<and> capacity ss < 127 \<and> 64 + capacity ss * slab_bytes ! ss \<le> 4096 \<and> 0 < slab_bytes ! ss \<and> slab_bytes ! ss \<le> 256"
  by (erule less_4_cases) simp_all

lemma use_range_le: "ss < 4 \<Longrightarrow> use_range ss i n \<Longrightarrow> n \<le> capacity ss"
  by (auto simp: use_range_def split: if_splits)

lemma use_range_more:
  assumes "ss < 4" and "i < 4" and "use_range ss i n"
  shows "(if slab_tresholds ! ss ! i \<le> n + 1 then use_range ss (i + 1) (n + 1) else use_range ss i (n + 1)) \<and> n < capacity ss"
  by (insert assms(3); rule less_4_cases[OF assms(1)]; rule less_4_cases[OF assms(2)]; simp add: use_range_def)

lemma use_range_less:
  assumes "ss < 4" and "i < 5" and "use_range ss i (Suc n)"
  shows "0 < i" and "if n \<le> slab_tresholds ! ss ! (i - 1) then use_range ss (i - 1) n else use_range ss i n"
proof -
  show i: "0 < i" using assms(3) by (cases "i = 0") (simp_all add: use_range_def)
  obtain j where j: "i = Suc j" "j < 4" using i assms(2) by (cases i) simp_all
  show "if n \<le> slab_tresholds ! ss ! (i - 1) then use_range ss (i - 1) n else use_range ss i n"
    unfolding j(1) by (insert assms(3)[unfolded j(1)]; rule less_4_cases[OF assms(1)]; rule less_4_cases[OF j(2)]; simp add: use_range_def)
qed

lemma used_finite: "finite (used_slots h)" and card_used_le: "card (used_slots h) \<le> capacity (sh_size h)"
proof -
  have "used_slots h \<subseteq> {..<capacity (sh_size h)}" by (auto simp: used_slots_def)
  then show "finite (used_slots h)" "card (used_slots h) \<le> capacity (sh_size h)"
    using card_mono[of "{..<capacity (sh_size h)}" "used_slots h"] finite_subset by auto
qed

lemma free_slot_exists:
  assumes "card (used_slots h) < capacity (sh_size h)"
  obtains k where "k < capacity (sh_size h)" "slot_free h k"
proof -
  have "\<not> {..<capacity (sh_size h)} \<subseteq> used_slots h"
    using card_mono[OF used_finite, of "{..<capacity (sh_size h)}" h] assms by auto
  then show thesis using that by (auto simp: used_slots_def)
qed

text \<open>An empty page has exactly the slots of its size free.\<close>

lemma slab_empty_mask: "ss < 4 \<Longrightarrow> w < 4 \<Longrightarrow> slab_empty ! ss ! w = mask (min 32 (capacity ss - 32 * w)) \<and> length (slab_empty ! ss) = 4"
  by (erule less_4_cases; erule less_4_cases) (simp_all add: slab_empty_def mask_eq_exp_minus_1)

lemma slot_free_init:
  assumes "ss < 4" and "k < 128"
  shows "slot_free (init_slab ss) k \<longleftrightarrow> k < capacity ss"
proof -
  have w: "k div 32 < 4" "k mod 32 < 32" "32 * (k div 32) + k mod 32 = k" using assms(2) by (simp_all add: less_mult_imp_div_less)
  have "k mod 32 < min 32 (capacity ss - 32 * (k div 32)) \<longleftrightarrow> k < capacity ss" using w(2,3) by linarith
  then show ?thesis
    unfolding slot_free_def init_slab_def slab_header.simps conjunct1[OF slab_empty_mask[OF assms(1) w(1)]] using w(2) by (simp add: bit_mask_iff)
qed

lemma used_init: "ss < 4 \<Longrightarrow> used_slots (init_slab ss) = {}"
  using capacity_bounds[of ss] slot_free_init[of ss] by (auto simp: used_slots_def init_slab_def[of ss, THEN arg_cong[of _ _ sh_size]])

section \<open>The bitmap\<close>

lemma find_first32: "(w::u32) \<noteq> 0 \<Longrightarrow> bit w (unat (find_first_trailing_set_bit32 (ucast w))) \<and> unat (find_first_trailing_set_bit32 (ucast w)) < 32"
proof -
  assume "w \<noteq> 0"
  then obtain k where k: "lowest_bit w k" using lowest_bit_exists by blast
  have "k < 32" using lowest_bit_less[OF k] by simp
  moreover have "ucast (ucast w :: u64) = w" by (rule bit_word_eqI) (simp add: bit_simps)
  ultimately have "unat (find_first_trailing_set_bit32 (ucast w)) = k"
    by (simp add: find_first_trailing_set_bit32_def ffs32_lowest[OF k] unsigned_of_nat take_bit_nat_eq_self)
  then show ?thesis using k \<open>k < 32\<close> by (simp add: lowest_bit_def)
qed

lemma find_slot_Some: "find_slot ws i = Some (j, b) \<Longrightarrow> \<exists>m < length ws. j = i + m \<and> bit (ws ! m) (unat b) \<and> unat b < 32"
proof (induction ws i rule: find_slot.induct)
  case (2 w ws i)
  show ?case
  proof (cases "w = 0")
    case True
    then obtain m where "m < length ws" "j = i + 1 + m" "bit (ws ! m) (unat b)" "unat b < 32" using 2 by auto
    then show ?thesis by (intro exI[of _ "Suc m"]) simp
  next
    case False
    then show ?thesis using 2 find_first32[OF False] by auto
  qed
qed simp

lemma find_slot_None: "find_slot ws i = None \<Longrightarrow> m < length ws \<Longrightarrow> ws ! m = 0"
proof (induction ws i arbitrary: m rule: find_slot.induct)
  case (2 w ws i)
  then show ?case by (cases m) (auto split: if_splits)
qed simp

lemma slot_free_update:
  assumes "length (sh_bitmap h) = 4" and "i < 4" and "unat b < 32" and "k < 128"
  shows "slot_free (h\<lparr>sh_bitmap := (sh_bitmap h)[i := bitmap_clear_bit (sh_bitmap h ! i) b]\<rparr>) k \<longleftrightarrow> slot_free h k \<and> k \<noteq> 32 * i + unat b"
    and "slot_free (h\<lparr>sh_bitmap := (sh_bitmap h)[i := bitmap_set_bit (sh_bitmap h ! i) b]\<rparr>) k \<longleftrightarrow> slot_free h k \<or> k = 32 * i + unat b"
proof -
  have k: "k div 32 < 4" "k mod 32 < 32" "k = 32 * (k div 32) + k mod 32" using assms(4) by (simp_all add: less_mult_imp_div_less)
  have eq: "k = 32 * i + unat b \<longleftrightarrow> k div 32 = i \<and> k mod 32 = unat b" using k(3) assms(3) by (metis div_mult_self4 div_less mod_mult_self4 mod_less add_0 mult.commute numeral_neq_zero add.commute)
  show "slot_free (h\<lparr>sh_bitmap := (sh_bitmap h)[i := bitmap_clear_bit (sh_bitmap h ! i) b]\<rparr>) k \<longleftrightarrow> slot_free h k \<and> k \<noteq> 32 * i + unat b"
    "slot_free (h\<lparr>sh_bitmap := (sh_bitmap h)[i := bitmap_set_bit (sh_bitmap h ! i) b]\<rparr>) k \<longleftrightarrow> slot_free h k \<or> k = 32 * i + unat b"
    unfolding eq using k(1,2) assms(1-3)
    by (auto simp: slot_free_def bitmap_clear_bit_def bitmap_set_bit_def nth_list_update bit_simps)
qed

section \<open>The invariant\<close>

text \<open>
  \<open>d\<close> is 1 for the page whose counter \<^verbatim>\<open>get_slab\<close> has raised for a slot that is still free, else 0.
\<close>

definition header_ok :: "nat \<Rightarrow> slab_header \<Rightarrow> bool" where
  "header_ok d h \<longleftrightarrow> sh_size h < 4 \<and> sh_slab_use h < 5 \<and> length (sh_bitmap h) = 4 \<and> (\<forall>k < 128. slot_free h k \<longrightarrow> k < capacity (sh_size h)) \<and>
     unat (sh_use_count h) = card (used_slots h) + d \<and> use_range (sh_size h) (sh_slab_use h) (unat (sh_use_count h))"

definition slab_heads :: "slab_node set" where
  "slab_heads = {Slab_List s i | s i. s < 4 \<and> i < 5}"

definition slab_lists :: "(slab_node \<Rightarrow> slab_node list) \<Rightarrow> slab_node ring \<Rightarrow> (u64 \<rightharpoonup> slab_header) \<Rightarrow> bool" where
  "slab_lists L r hs \<longleftrightarrow> rings slab_heads L r \<and>
     (\<forall>s < 4. \<forall>i < 5. \<forall>e. e \<in> set (L (Slab_List s i)) \<longleftrightarrow>
        (\<exists>p h. e = Slab_Page p \<and> hs p = Some h \<and> sh_size h = s \<and> sh_slab_use h = i))"

definition slab_inv :: "slab_heap \<Rightarrow> (block_type \<times> u32) allocations \<Rightarrow> u64 option \<Rightarrow> bool" where
  "slab_inv st pg res \<longleftrightarrow> page_heap (sl_pools st) pg \<and> (\<exists>L. slab_lists L (sl_links st) (sl_headers st)) \<and>
     (\<forall>p h. sl_headers st p = Some h \<longrightarrow> header_ok (if res = Some p then 1 else 0) h \<and> pg p = Some ((BLOCK_TYPE_SLAB, 0), PAGE_SIZE))"

lemma slab_heads_iff [simp]: "Slab_List s i \<in> slab_heads \<longleftrightarrow> s < 4 \<and> i < 5" "Slab_Page p \<notin> slab_heads"
  by (auto simp: slab_heads_def)

lemma slab_headsE:
  assumes "x \<in> slab_heads"
  obtains s i where "x = Slab_List s i" "s < 4" "i < 5"
  using assms by (auto simp: slab_heads_def)

lemma listed:
  assumes "slab_lists L r hs" and "s < 4" and "i < 5"
  shows "e \<in> set (L (Slab_List s i)) \<longleftrightarrow> (\<exists>p h. e = Slab_Page p \<and> hs p = Some h \<and> sh_size h = s \<and> sh_slab_use h = i)"
  using assms unfolding slab_lists_def by blast

lemma lists_same:
  assumes "slab_lists L r hs" and "hs p = Some h" and "sh_size h' = sh_size h" and "sh_slab_use h' = sh_slab_use h"
  shows "slab_lists L r (hs(p \<mapsto> h'))"
proof -
  have "(\<exists>q g. e = Slab_Page q \<and> (hs(p \<mapsto> h')) q = Some g \<and> sh_size g = s \<and> sh_slab_use g = i) \<longleftrightarrow>
      (\<exists>q g. e = Slab_Page q \<and> hs q = Some g \<and> sh_size g = s \<and> sh_slab_use g = i)" for e s i
    using assms(2-4) by (metis fun_upd_apply option.inject)
  then show ?thesis using assms(1) unfolding slab_lists_def by simp
qed

lemma lists_add:
  assumes l: "slab_lists L r hs" and p: "hs p = None" and h: "sh_size h < 4" "sh_slab_use h < 5"
  defines "k \<equiv> Slab_List (sh_size h) (sh_slab_use h)"
  shows "slab_lists (L(k := L k @ [Slab_Page p])) (list_push_back k (Slab_Page p) r) (hs(p \<mapsto> h))"
  unfolding slab_lists_def
proof (intro conjI allI impI)
  show "rings slab_heads (L(k := L k @ [Slab_Page p])) (list_push_back k (Slab_Page p) r)"
  proof (rule rings_push_back)
    show "rings slab_heads L r" using l by (simp add: slab_lists_def)
    fix x assume "x \<in> slab_heads"
    then show "Slab_Page p \<notin> set (L x)" by (rule slab_headsE) (use listed[OF l] p in auto)
  qed (use h in \<open>simp_all add: k_def\<close>)
  fix s i :: nat and e assume "s < 4" "i < 5"
  note m = listed[OF l this]
  show "e \<in> set ((L(k := L k @ [Slab_Page p])) (Slab_List s i)) \<longleftrightarrow> (\<exists>q g. e = Slab_Page q \<and> (hs(p \<mapsto> h)) q = Some g \<and> sh_size g = s \<and> sh_slab_use g = i)"
    using m[of e] p by (cases e) (auto simp: k_def)
qed

lemma lists_drop:
  assumes l: "slab_lists L r hs" and p: "hs p = Some h" and h: "sh_size h < 4" "sh_slab_use h < 5"
  defines "k \<equiv> Slab_List (sh_size h) (sh_slab_use h)"
  shows "slab_lists (L(k := remove1 (Slab_Page p) (L k))) (list_remove (Slab_Page p) r) (hs(p := None))"
  unfolding slab_lists_def
proof (intro conjI allI impI)
  have rg: "rings slab_heads L r" and k: "k \<in> slab_heads" using l h by (simp_all add: slab_lists_def k_def)
  have "Slab_Page p \<in> set (L k)" unfolding k_def using listed[OF l h] p by blast
  then show "rings slab_heads (L(k := remove1 (Slab_Page p) (L k))) (list_remove (Slab_Page p) r)" using rings_remove[OF rg k] by blast
  have d: "distinct (L k)" using rings_distinct[OF rg k] by simp
  fix s i :: nat and e assume "s < 4" "i < 5"
  note m = listed[OF l this]
  show "e \<in> set ((L(k := remove1 (Slab_Page p) (L k))) (Slab_List s i)) \<longleftrightarrow> (\<exists>q g. e = Slab_Page q \<and> (hs(p := None)) q = Some g \<and> sh_size g = s \<and> sh_slab_use g = i)"
    using m[of e] p d by (cases e) (auto simp: k_def)
qed

lemma lists_move:
  assumes "slab_lists L r hs" and "hs p = Some h" and "sh_size h < 4" "sh_slab_use h < 5" and "sh_size h' < 4" "sh_slab_use h' < 5"
  shows "\<exists>L'. slab_lists L' (list_push_back (Slab_List (sh_size h') (sh_slab_use h')) (Slab_Page p) (list_remove (Slab_Page p) r)) (hs(p \<mapsto> h'))"
  using lists_add[OF lists_drop[OF assms(1-4)] _ assms(5,6), of p] by auto

text \<open>The last page of a list.\<close>

lemma last_page:
  assumes l: "slab_lists L r hs" and "s < 4" and "i < 5"
  shows "list_empty (Slab_List s i) r \<or> (\<exists>p h. ring_prev r (Slab_List s i) = Slab_Page p \<and> hs p = Some h \<and> sh_size h = s \<and> sh_slab_use h = i)"
proof (cases "L (Slab_List s i)" rule: rev_cases)
  case Nil
  have "rings slab_heads L r" using l by (simp add: slab_lists_def)
  then show ?thesis using rings_empty_iff[of slab_heads L r "Slab_List s i"] Nil assms(2,3) by simp
next
  case (snoc xs e)
  have "ring_at r (Slab_List s i) (xs @ e # [])" using l ringsD[of slab_heads L r "Slab_List s i"] snoc assms(2,3) by (simp add: slab_lists_def)
  then have "ring_prev r (Slab_List s i) = e" using ring_walk[of r "Slab_List s i" xs e "[]"] by simp
  moreover have "e \<in> set (L (Slab_List s i))" using snoc by simp
  ultimately show ?thesis using listed[OF assms] by auto
qed

section \<open>Allocation\<close>

lemma use_count_Suc: "header_ok 0 h \<Longrightarrow> unat (sh_use_count h + 1) = card (used_slots h) + 1"
  using card_used_le[of h] capacity_bounds[of "sh_size h"] by (auto simp: header_ok_def unat_add_small)

lemma used_slots_cong: "sh_bitmap h' = sh_bitmap h \<Longrightarrow> sh_size h' = sh_size h \<Longrightarrow> used_slots h' = used_slots h" and
  slot_free_cong: "sh_bitmap h' = sh_bitmap h \<Longrightarrow> slot_free h' k = slot_free h k"
  by (simp_all add: used_slots_def slot_free_def)

text \<open>Reserving a slot in the last page of a list that is not full.\<close>

lemma reserve_inv:
  assumes inv: "slab_inv st pg None" and p: "sl_headers st p = Some h" and i: "sh_slab_use h < 4"
  defines "h1 \<equiv> h\<lparr>sh_use_count := sh_use_count h + 1\<rparr>"
  defines "h2 \<equiv> h1\<lparr>sh_slab_use := sh_slab_use h1 + 1\<rparr>"
  shows "if slab_tresholds ! sh_size h ! sh_slab_use h \<le> unat (sh_use_count h1)
    then slab_inv (st\<lparr>sl_links := list_push_back (Slab_List (sh_size h) (sh_slab_use h + 1)) (Slab_Page p) (list_remove (Slab_Page p) (sl_links st)),
      sl_headers := (sl_headers st)(p \<mapsto> h2)\<rparr>) pg (Some p)
    else slab_inv (st\<lparr>sl_headers := (sl_headers st)(p \<mapsto> h1)\<rparr>) pg (Some p)"
proof -
  have ok: "header_ok 0 h" using inv p by (auto simp: slab_inv_def)
  obtain L where L: "slab_lists L (sl_links st) (sl_headers st)" using inv by (auto simp: slab_inv_def)
  note u = use_count_Suc[OF ok]
  have h: "sh_size h < 4" "sh_slab_use h < 5" using ok by (simp_all add: header_ok_def)
  have us: "used_slots h1 = used_slots h" "used_slots h2 = used_slots h" "\<And>k. slot_free h1 k = slot_free h k" "\<And>k. slot_free h2 k = slot_free h k"
    by (rule used_slots_cong slot_free_cong; simp add: h1_def h2_def)+
  have r: "use_range (sh_size h) (sh_slab_use h) (card (used_slots h))" using ok by (auto simp: header_ok_def)
  show ?thesis
  proof (cases "slab_tresholds ! sh_size h ! sh_slab_use h \<le> unat (sh_use_count h1)")
    case True
    then have "use_range (sh_size h) (sh_slab_use h + 1) (card (used_slots h) + 1)" using use_range_more[OF h(1) i r] u by (simp add: h1_def)
    then have "header_ok 1 h2" using ok u i us by (simp add: header_ok_def h2_def h1_def)
    moreover have "\<exists>L'. slab_lists L' (list_push_back (Slab_List (sh_size h) (sh_slab_use h + 1)) (Slab_Page p) (list_remove (Slab_Page p) (sl_links st))) ((sl_headers st)(p \<mapsto> h2))"
      using lists_move[OF L p h, of h2] h i by (simp add: h2_def h1_def)
    ultimately show ?thesis using True inv p by (auto simp: slab_inv_def)
  next
    case False
    then have "use_range (sh_size h) (sh_slab_use h) (card (used_slots h) + 1)" using use_range_more[OF h(1) i r] u by (simp add: h1_def)
    then have "header_ok 1 h1" using ok u us by (simp add: header_ok_def h1_def)
    moreover have "slab_lists L (sl_links st) ((sl_headers st)(p \<mapsto> h1))" using lists_same[OF L p] by (simp add: h1_def)
    ultimately show ?thesis using False inv p by (auto simp: slab_inv_def)
  qed
qed

text \<open>Where a page of the heap lies.\<close>

lemma page_heap_place:
  assumes "page_heap pools pg" and "pg a = Some (r, sz)"
  shows "a \<noteq> 0" and "unat a mod 4096 = 0" and "unat a + unat sz < 2 ^ 64"
proof -
  have inv: "heap_inv pools (\<lambda>a. map_option snd (pg a))" using assms(1) by (rule page_heap_inv)
  have "map_option snd (pg a) = Some sz" using assms(2) by simp
  then obtain p b where p: "p < length pools" "unat a = unat (pages_start (pools ! p)) + b * 4096" "unat a + unat sz \<le> unat (pages_end (pools ! p))"
    by (rule alloc_inside[OF inv])
  have lay: "pool_layout (pools ! p)" using inv p(1) by (simp add: heap_inv_def)
  have "unat (pages_start (pools ! p)) mod 4096 = 0" using pool_layoutD(4)[OF lay] unfolding page_aligned_iff .
  then show "unat a mod 4096 = 0" unfolding p(2) by simp
  have "unat (pages_start (pools ! p)) \<noteq> 0" using pool_layoutD(3)[OF lay] by (simp add: unat_eq_zero)
  then show "a \<noteq> 0" using p(2) by auto
  show "unat a + unat sz < 2 ^ 64" using p(3) pool_layoutD(5,6)[OF lay] by linarith
qed

text \<open>The objects in use: page, size and slot.\<close>

definition slab_objects :: "slab_heap \<Rightarrow> (u64 \<times> nat \<times> nat) set" where
  "slab_objects st = {(p, s, k). \<exists>h. sl_headers st p = Some h \<and> sh_size h = s \<and> k \<in> used_slots h}"

lemma objects_same:
  assumes "sl_headers st p = Some h" and "used_slots h' = used_slots h" and "sh_size h' = sh_size h"
    and "sl_headers st' = (sl_headers st)(p \<mapsto> h')"
  shows "slab_objects st' = slab_objects st"
  using assms unfolding slab_objects_def by (auto split: if_splits)

lemma get_slab_loop_inv:
  assumes inv: "slab_inv st pg None" and ss: "ss < 4"
  shows "\<forall>i \<in> set is. i < 4 \<Longrightarrow> get_slab_loop st ss is = Some None \<or>
    (\<exists>st' p h. get_slab_loop st ss is = Some (Some (st', p)) \<and> slab_inv st' pg (Some p) \<and> sl_headers st' p = Some h \<and> sh_size h = ss \<and>
      slab_objects st' = slab_objects st)"
proof (induction "is")
  case (Cons i "is")
  obtain L where L: "slab_lists L (sl_links st) (sl_headers st)" using inv by (auto simp: slab_inv_def)
  have i: "i < 4" "i < 5" using Cons.prems by auto
  from last_page[OF L ss i(2)] show ?case
  proof
    assume "list_empty (Slab_List ss i) (sl_links st)"
    then show ?thesis using Cons by simp
  next
    assume "\<exists>p h. ring_prev (sl_links st) (Slab_List ss i) = Slab_Page p \<and> sl_headers st p = Some h \<and> sh_size h = ss \<and> sh_slab_use h = i"
    then obtain p h where p: "ring_prev (sl_links st) (Slab_List ss i) = Slab_Page p" "sl_headers st p = Some h" "sh_size h = ss" "sh_slab_use h = i" by blast
    have e: "\<not> list_empty (Slab_List ss i) (sl_links st)" using p(1) by (simp add: list_empty_def)
    let ?h1 = "h\<lparr>sh_use_count := sh_use_count h + 1\<rparr>" let ?h2 = "?h1\<lparr>sh_slab_use := sh_slab_use ?h1 + 1\<rparr>"
    have us: "used_slots ?h1 = used_slots h" "used_slots ?h2 = used_slots h" by (rule used_slots_cong; simp)+
    have rv: "sh_slab_use h < 4" using i p(4) by simp
    note r = reserve_inv[OF inv p(2) rv, unfolded p(3,4)]
    show ?thesis
    proof (cases "slab_tresholds ! ss ! i \<le> unat (sh_use_count ?h1)")
      case True
      let ?st = "st\<lparr>sl_links := list_push_back (Slab_List ss (i + 1)) (Slab_Page p) (list_remove (Slab_Page p) (sl_links st)), sl_headers := (sl_headers st)(p \<mapsto> ?h2)\<rparr>"
      have "get_slab_loop st ss (i # is) = Some (Some (?st, p))" using e p True by (simp add: Let_def)
      moreover have "slab_inv ?st pg (Some p)" using r True p(4) by simp
      moreover have "slab_objects ?st = slab_objects st" by (rule objects_same[OF p(2) us(2)]) simp_all
      ultimately show ?thesis using p(3) by auto
    next
      case False
      let ?st = "st\<lparr>sl_headers := (sl_headers st)(p \<mapsto> ?h1)\<rparr>"
      have "get_slab_loop st ss (i # is) = Some (Some (?st, p))" using e p False by (simp add: Let_def)
      moreover have "slab_inv ?st pg (Some p)" using r False by simp
      moreover have "slab_objects ?st = slab_objects st" by (rule objects_same[OF p(2) us(1)]) simp_all
      ultimately show ?thesis using p(3) by auto
    qed
  qed
qed simp

lemma init_slab_ok: "ss < 4 \<Longrightarrow> header_ok 1 (init_slab ss)"
  using slot_free_init[of ss] used_init[of ss] slab_empty_mask[of ss 0] capacity_bounds[of ss]
  by (auto simp: header_ok_def init_slab_def use_range_def elim!: less_4_cases)

text \<open>Allocations of other kinds than slab pages are the same.\<close>

definition same_pages :: "(block_type \<times> u32) allocations \<Rightarrow> (block_type \<times> u32) allocations \<Rightarrow> bool" where
  "same_pages pg pg' \<longleftrightarrow> (\<forall>a ty fl sz. ty \<noteq> BLOCK_TYPE_SLAB \<longrightarrow> (pg' a = Some ((ty, fl), sz) \<longleftrightarrow> pg a = Some ((ty, fl), sz)))"

lemma same_pages_refl [simp]: "same_pages pg pg"
  by (simp add: same_pages_def)

lemma get_slab_inv:
  assumes inv: "slab_inv st pg None" and ss: "ss < 4"
  shows "\<exists>st' p pg'. get_slab st ss = Some (st', p) \<and> slab_objects st' = slab_objects st \<and> same_pages pg pg' \<and>
    (p = 0 \<and> slab_inv st' pg' None \<and> (\<exists>pools. buddy_allocate (sl_pools st) PAGE_SIZE BLOCK_TYPE_SLAB 0 = Some (pools, 0)) \<or>
     p \<noteq> 0 \<and> slab_inv st' pg' (Some p) \<and> (\<exists>h. sl_headers st' p = Some h \<and> sh_size h = ss))"
proof -
  have "\<forall>i \<in> set [3, 2, 1, 0]. i < (4::nat)" by simp
  from get_slab_loop_inv[OF inv ss this] show ?thesis
  proof (elim disjE exE conjE)
    fix st' p h assume s: "get_slab_loop st ss [3, 2, 1, 0] = Some (Some (st', p))" "slab_inv st' pg (Some p)" "sl_headers st' p = Some h" "sh_size h = ss"
      "slab_objects st' = slab_objects st"
    have "p \<noteq> 0" using s(2,3) page_heap_place(1)[of "sl_pools st'" pg p] by (auto simp: slab_inv_def)
    then show ?thesis using s by (intro exI[of _ st'] exI[of _ p] exI[of _ pg]) (simp add: get_slab_def)
  next
    assume none: "get_slab_loop st ss [3, 2, 1, 0] = Some None"
    have ph: "page_heap (sl_pools st) pg" using inv by (simp add: slab_inv_def)
    obtain pools p where a: "buddy_allocate (sl_pools st) PAGE_SIZE BLOCK_TYPE_SLAB 0 = Some (pools, p)"
      "p = 0 \<and> page_heap pools pg \<or> p \<noteq> 0 \<and> p \<notin> dom pg \<and> page_heap pools (pg(p \<mapsto> ((BLOCK_TYPE_SLAB, 0), PAGE_SIZE)))"
      using page_heap_serve[OF ph, of PAGE_SIZE BLOCK_TYPE_SLAB 0] by (auto simp: PAGE_SIZE_def)
    show ?thesis
    proof (cases "p = 0")
      case True
      have "slab_objects (st\<lparr>sl_pools := pools\<rparr>) = slab_objects st" "slab_inv (st\<lparr>sl_pools := pools\<rparr>) pg None"
        using a(2) True inv by (simp_all add: slab_objects_def slab_inv_def)
      then show ?thesis using none a(1) True by (intro exI[of _ "st\<lparr>sl_pools := pools\<rparr>"] exI[of _ 0] exI[of _ pg]) (simp add: get_slab_def)
    next
      case False
      let ?pg = "pg(p \<mapsto> ((BLOCK_TYPE_SLAB, 0), PAGE_SIZE))"
      let ?st = "st\<lparr>sl_pools := pools, sl_headers := (sl_headers st)(p \<mapsto> init_slab ss),
        sl_links := list_push_back (Slab_List ss 1) (Slab_Page p) (sl_links st)\<rparr>"
      have new: "p \<notin> dom pg" "page_heap pools ?pg" using a(2) False by simp_all
      then have nh: "sl_headers st p = None" using inv by (cases "sl_headers st p") (auto simp: slab_inv_def)
      obtain L where "slab_lists L (sl_links st) (sl_headers st)" using inv by (auto simp: slab_inv_def)
      from lists_add[OF this nh, of "init_slab ss"] have "\<exists>L'. slab_lists L' (sl_links ?st) (sl_headers ?st)" using ss by (auto simp: init_slab_def)
      then have "slab_inv ?st ?pg (Some p)" using new inv init_slab_ok[OF ss] by (auto simp: slab_inv_def)
      moreover have "slab_objects ?st = slab_objects st" using nh used_init[OF ss] by (auto simp: slab_objects_def split: if_splits)
      moreover have "same_pages pg ?pg" using new(1) by (auto simp: same_pages_def)
      moreover have "get_slab st ss = Some (?st, p)" using none a(1) False by (simp add: get_slab_def)
      ultimately show ?thesis using False by (intro exI[of _ ?st] exI[of _ p] exI[of _ ?pg]) (simp add: init_slab_def)
    qed
  qed
qed

definition slot_addr :: "u64 \<Rightarrow> nat \<Rightarrow> nat \<Rightarrow> u64" where
  "slot_addr p ss k = p + DATA_OFFSET + of_nat k * of_nat (slab_bytes ! ss)"

text \<open>One page changes.\<close>

lemma slab_inv_upd:
  assumes "slab_inv st pg res" and "res = None \<or> res = Some p"
    and "page_heap (sl_pools st') pg'" and "slab_lists L (sl_links st') (sl_headers st')"
    and "\<And>q. q \<noteq> p \<Longrightarrow> sl_headers st' q = sl_headers st q \<and> pg' q = pg q"
    and "\<And>h. sl_headers st' p = Some h \<Longrightarrow> header_ok 0 h \<and> pg' p = Some ((BLOCK_TYPE_SLAB, 0), PAGE_SIZE)"
  shows "slab_inv st' pg' None"
proof -
  have "header_ok 0 h \<and> pg' q = Some ((BLOCK_TYPE_SLAB, 0), PAGE_SIZE)" if q: "sl_headers st' q = Some h" for q h
  proof (cases "q = p")
    case True
    then show ?thesis using assms(6) q by simp
  next
    case False
    then have "sl_headers st q = Some h" "pg' q = pg q" "res \<noteq> Some q" using assms(2,5) q by auto
    then show ?thesis using assms(1)[unfolded slab_inv_def] by fastforce
  qed
  then show ?thesis using assms(3,4) by (auto simp: slab_inv_def)
qed

text \<open>Clearing the bit of the reserved slot.\<close>

lemma take_slot:
  assumes inv: "slab_inv st pg (Some p)" and p: "sl_headers st p = Some h"
  obtains i b where "find_slot (sh_bitmap h) 0 = Some (i, b)" "i < 4" "unat b < 32" "32 * i + unat b < capacity (sh_size h)" "32 * i + unat b \<notin> used_slots h"
    "slab_inv (st\<lparr>sl_headers := (sl_headers st)(p \<mapsto> h\<lparr>sh_bitmap := (sh_bitmap h)[i := bitmap_clear_bit (sh_bitmap h ! i) b]\<rparr>)\<rparr>) pg None"
    "used_slots (h\<lparr>sh_bitmap := (sh_bitmap h)[i := bitmap_clear_bit (sh_bitmap h ! i) b]\<rparr>) = insert (32 * i + unat b) (used_slots h)"
proof -
  have ok: "header_ok 1 h" using inv[unfolded slab_inv_def] p by fastforce
  note h = ok[unfolded header_ok_def]
  have s: "sh_size h < 4" and len: "length (sh_bitmap h) = 4" using h by simp_all
  have "card (used_slots h) < capacity (sh_size h)" using use_range_le[OF s, of "sh_slab_use h" "unat (sh_use_count h)"] h by auto
  then obtain k where k: "k < capacity (sh_size h)" "slot_free h k" by (rule free_slot_exists)
  have "k div 32 < 4" using k(1) capacity_bounds[OF s] by (simp add: less_mult_imp_div_less)
  moreover have "sh_bitmap h ! (k div 32) \<noteq> 0" using k(2) unfolding slot_free_def by (metis bit_0_eq bot_apply bot_bool_def)
  ultimately have "find_slot (sh_bitmap h) 0 \<noteq> None" using find_slot_None[of "sh_bitmap h" 0 "k div 32"] len by metis
  then obtain i b where f: "find_slot (sh_bitmap h) 0 = Some (i, b)" by (metis option.exhaust surj_pair)
  have i: "i < 4" "bit (sh_bitmap h ! i) (unat b)" "unat b < 32" using find_slot_Some[OF f] len by auto
  let ?k = "32 * i + unat b" let ?h = "h\<lparr>sh_bitmap := (sh_bitmap h)[i := bitmap_clear_bit (sh_bitmap h ! i) b]\<rparr>"
  have k128: "?k < 128" using i by simp
  have fr: "slot_free h ?k" using i by (simp add: slot_free_def)
  then have cap: "?k < capacity (sh_size h)" using h k128 by blast
  have up: "slot_free ?h j \<longleftrightarrow> slot_free h j \<and> j \<noteq> ?k" if "j < 128" for j using slot_free_update(1)[OF len i(1,3) that] .
  have c: "capacity (sh_size h) < 128" using capacity_bounds[OF s] by simp
  have us: "used_slots ?h = insert ?k (used_slots h)" using up c cap by (auto simp: used_slots_def)
  have new: "?k \<notin> used_slots h" using fr by (simp add: used_slots_def)
  have "header_ok 0 ?h" using h us new used_finite[of h] up by (auto simp: header_ok_def)
  moreover obtain L where "slab_lists L (sl_links st) (sl_headers st)" using inv by (auto simp: slab_inv_def)
  then have "slab_lists L (sl_links st) ((sl_headers st)(p \<mapsto> ?h))" using lists_same[of L "sl_links st" "sl_headers st" p h ?h] p by simp
  ultimately have "slab_inv (st\<lparr>sl_headers := (sl_headers st)(p \<mapsto> ?h)\<rparr>) pg None"
    using inv p by (intro slab_inv_upd[OF inv, of p _ pg L]) (auto simp: slab_inv_def)
  then show thesis using that[OF f i(1,3) cap new _ us] by blast
qed

lemma slab_type_fits: "sz \<le> 256 \<Longrightarrow> slab_type_of sz < 4 \<and> unat sz \<le> slab_bytes ! slab_type_of sz"
  by (auto simp: slab_type_of_def word_less_nat_alt word_le_nat_alt)

lemma slab_allocate_inv:
  assumes inv: "slab_inv st pg None" and sz: "sz \<le> 256"
  shows "\<exists>st' a pg'. slab_allocate st sz = Some (st', a) \<and> same_pages pg pg' \<and> slab_inv st' pg' None \<and>
    (a = 0 \<and> slab_objects st' = slab_objects st \<and> (\<exists>pools. buddy_allocate (sl_pools st) PAGE_SIZE BLOCK_TYPE_SLAB 0 = Some (pools, 0)) \<or>
     (\<exists>p k. a = slot_addr p (slab_type_of sz) k \<and> (p, slab_type_of sz, k) \<notin> slab_objects st \<and>
        slab_objects st' = insert (p, slab_type_of sz, k) (slab_objects st)))"
proof -
  let ?s = "slab_type_of sz"
  have s: "?s < 4" using slab_type_fits[OF sz] by simp
  have le: "\<not> 256 < sz" using sz by simp
  obtain st1 p pg' where g: "get_slab st ?s = Some (st1, p)" "slab_objects st1 = slab_objects st" "same_pages pg pg'"
    "p = 0 \<and> slab_inv st1 pg' None \<and> (\<exists>pools. buddy_allocate (sl_pools st) PAGE_SIZE BLOCK_TYPE_SLAB 0 = Some (pools, 0)) \<or>
     p \<noteq> 0 \<and> slab_inv st1 pg' (Some p) \<and> (\<exists>h. sl_headers st1 p = Some h \<and> sh_size h = ?s)"
    using get_slab_inv[OF inv s] by blast
  show ?thesis
  proof (cases "p = 0")
    case True
    then show ?thesis using g le by (intro exI[of _ st1] exI[of _ 0] exI[of _ pg']) (auto simp: slab_allocate_def Let_def)
  next
    case False
    then obtain h where h: "slab_inv st1 pg' (Some p)" "sl_headers st1 p = Some h" "sh_size h = ?s" using g(4) by auto
    obtain i b where f: "find_slot (sh_bitmap h) 0 = Some (i, b)" "i < 4" "unat b < 32" "32 * i + unat b < capacity (sh_size h)" "32 * i + unat b \<notin> used_slots h"
      "slab_inv (st1\<lparr>sl_headers := (sl_headers st1)(p \<mapsto> h\<lparr>sh_bitmap := (sh_bitmap h)[i := bitmap_clear_bit (sh_bitmap h ! i) b]\<rparr>)\<rparr>) pg' None"
      "used_slots (h\<lparr>sh_bitmap := (sh_bitmap h)[i := bitmap_clear_bit (sh_bitmap h ! i) b]\<rparr>) = insert (32 * i + unat b) (used_slots h)"
      by (rule take_slot[OF h(1,2)])
    let ?h = "h\<lparr>sh_bitmap := (sh_bitmap h)[i := bitmap_clear_bit (sh_bitmap h ! i) b]\<rparr>" let ?k = "32 * i + unat b"
    let ?st = "st1\<lparr>sl_headers := (sl_headers st1)(p \<mapsto> ?h)\<rparr>"
    have ix: "of_nat i * 32 + ucast b = (of_nat ?k :: u64)" by (simp add: mult.commute unsigned_of_nat)
    have "slab_allocate st sz = Some (?st, slot_addr p ?s ?k)" using le g(1) False h(2) f(1)
      by (simp add: slab_allocate_def Let_def slot_addr_def ix del: of_nat_add of_nat_mult)
    moreover have "slab_objects ?st = insert (p, ?s, ?k) (slab_objects st)"
    proof -
      have "slab_objects ?st = insert (p, ?s, ?k) (slab_objects st1)"
        using f(7) h(2,3) by (auto simp: slab_objects_def split: if_splits)
      then show ?thesis using g(2) by simp
    qed
    moreover have "(p, ?s, ?k) \<notin> slab_objects st" unfolding g(2)[symmetric] using h(2) f(5) by (simp add: slab_objects_def)
    ultimately show ?thesis using f(6) g(3) by (intro exI[of _ ?st] exI[of _ "slot_addr p ?s ?k"] exI[of _ pg']) blast
  qed
qed

section \<open>Addresses of objects\<close>

lemma unat_slot_addr:
  assumes "ss < 4" and "k < capacity ss" and "unat p + 4096 < 2 ^ 64"
  shows "unat (slot_addr p ss k) = unat p + 64 + k * slab_bytes ! ss" and "64 + k * slab_bytes ! ss + slab_bytes ! ss \<le> 4096"
proof -
  have "Suc k * slab_bytes ! ss \<le> capacity ss * slab_bytes ! ss" using assms(2) by (intro mult_le_mono1) simp
  then show le: "64 + k * slab_bytes ! ss + slab_bytes ! ss \<le> 4096" using capacity_bounds[OF assms(1)] by (simp only: mult_Suc) linarith
  have e: "slot_addr p ss k = p + of_nat (64 + k * slab_bytes ! ss)" by (simp add: slot_addr_def DATA_OFFSET_def algebra_simps)
  have "64 + k * slab_bytes ! ss < 2 ^ LENGTH(64)" using le by simp
  then have u: "unat (of_nat (64 + k * slab_bytes ! ss) :: u64) = 64 + k * slab_bytes ! ss" by (rule unat_of_nat_small)
  show "unat (slot_addr p ss k) = unat p + 64 + k * slab_bytes ! ss" unfolding e using u le assms(3) by (subst unat_add_small) simp_all
qed

lemma slot_page:
  assumes "ss < 4" and "k < capacity ss" and "unat p + 4096 < 2 ^ 64" and "unat p mod 4096 = 0"
  shows "ALIGN_DOWN (slot_addr p ss k) PAGE_SIZE = p" and "slot_addr p ss k \<noteq> p" and "unat (slot_addr p ss k) mod 4096 \<noteq> 0"
proof -
  note u = unat_slot_addr[OF assms(1-3)]
  let ?o = "64 + k * slab_bytes ! ss"
  have o: "0 < ?o" "?o < 4096" using u(2) capacity_bounds[OF assms(1)] by linarith+
  obtain d where d: "unat p = 4096 * d" using assms(4) by auto
  have m: "unat (slot_addr p ss k) mod 4096 = ?o" unfolding u(1) d using o(2) by (simp add: add.assoc)
  show "unat (slot_addr p ss k) mod 4096 \<noteq> 0" using m o(1) by simp
  show "slot_addr p ss k \<noteq> p" using m assms(4) o(1) by auto
  have "unat (ALIGN_DOWN (slot_addr p ss k) PAGE_SIZE) = unat p"
    unfolding unat_ALIGN_DOWN u(1) d using o(2) by (simp add: add.assoc)
  then show "ALIGN_DOWN (slot_addr p ss k) PAGE_SIZE = p" by (rule word_unat_eq_iff[THEN iffD2])
qed

lemma slab_object:
  assumes "slab_inv st pg None" and "(p, ss, k) \<in> slab_objects st"
  obtains h where "sl_headers st p = Some h" "sh_size h = ss" "k \<in> used_slots h" "ss < 4" "k < capacity ss" "header_ok 0 h"
    "pg p = Some ((BLOCK_TYPE_SLAB, 0), PAGE_SIZE)" "unat p + 4096 < 2 ^ 64" "unat p mod 4096 = 0"
proof -
  obtain h where h: "sl_headers st p = Some h" "sh_size h = ss" "k \<in> used_slots h" using assms(2) by (auto simp: slab_objects_def)
  have ok: "header_ok 0 h" "pg p = Some ((BLOCK_TYPE_SLAB, 0), PAGE_SIZE)" "page_heap (sl_pools st) pg" using assms(1) h(1) by (auto simp: slab_inv_def)
  have "ss < 4" "k < capacity ss" using ok(1) h(2,3) by (auto simp: header_ok_def used_slots_def)
  then show thesis using that[OF h _ _ ok(1,2)] page_heap_place[OF ok(3,2)] by (simp add: PAGE_SIZE_def)
qed

section \<open>Deallocation\<close>

lemma slot_index:
  assumes "ss < 4" and "k < capacity ss" and "unat p + 4096 < 2 ^ 64" and "unat p mod 4096 = 0"
  shows "(ucast ((slot_addr p ss k - p - DATA_OFFSET) div of_nat (slab_bytes ! ss)) :: u32) = of_nat k"
proof -
  note u = unat_slot_addr[OF assms(1-3)] and c = capacity_bounds[OF assms(1)]
  have e: "slot_addr p ss k - p - DATA_OFFSET = of_nat (k * slab_bytes ! ss)" by (simp add: slot_addr_def DATA_OFFSET_def)
  have "k * slab_bytes ! ss < 2 ^ LENGTH(64)" "slab_bytes ! ss < 2 ^ LENGTH(64)" using u(2) c by simp_all
  then have "unat (of_nat (k * slab_bytes ! ss) div of_nat (slab_bytes ! ss) :: u64) = k * slab_bytes ! ss div slab_bytes ! ss"
    unfolding unat_div by (simp only: unat_of_nat_small)
  also have "\<dots> = k" using c by simp
  finally have "of_nat (k * slab_bytes ! ss) div of_nat (slab_bytes ! ss) = (of_nat k :: u64)" by (metis of_nat_unat_id)
  moreover have "(ucast (of_nat k :: u64) :: u32) = of_nat k"
    using assms(2) c by (simp add: word_unat_eq_iff unsigned_ucast_eq unsigned_of_nat take_bit_nat_eq_self)
  ultimately show ?thesis unfolding e by simp
qed

text \<open>The header after the slot is marked free.\<close>

lemma release_slot:
  assumes ok: "header_ok 0 h" and k: "k \<in> used_slots h"
  defines "h' \<equiv> h\<lparr>sh_bitmap := (sh_bitmap h)[k div 32 := bitmap_set_bit (sh_bitmap h ! (k div 32)) (of_nat (k mod 32))], sh_use_count := sh_use_count h - 1\<rparr>"
  shows "sh_bitmap h ! (k div 32) \<noteq> bitmap_set_bit (sh_bitmap h ! (k div 32)) (of_nat (k mod 32))"
    and "used_slots h' = used_slots h - {k}" and "0 < sh_slab_use h" and "unat (sh_use_count h') = card (used_slots h')"
    and "if unat (sh_use_count h') \<le> slab_tresholds ! sh_size h ! (sh_slab_use h - 1) then header_ok 0 (h'\<lparr>sh_slab_use := sh_slab_use h - 1\<rparr>) else header_ok 0 h'"
proof -
  note h = ok[unfolded header_ok_def]
  have s: "sh_size h < 4" and len: "length (sh_bitmap h) = 4" using h by simp_all
  have kc: "k < capacity (sh_size h)" "\<not> slot_free h k" using k by (simp_all add: used_slots_def)
  then have k128: "k < 128" using capacity_bounds[OF s] by simp
  have w: "k div 32 < 4" "unat (of_nat (k mod 32) :: u32) = k mod 32" "32 * (k div 32) + k mod 32 = k"
    using k128 by (simp_all add: less_mult_imp_div_less unsigned_of_nat take_bit_nat_eq_self)
  have b: "unat (of_nat (k mod 32) :: u32) < 32" unfolding w(2) by simp
  let ?g = "h\<lparr>sh_bitmap := (sh_bitmap h)[k div 32 := bitmap_set_bit (sh_bitmap h ! (k div 32)) (of_nat (k mod 32))]\<rparr>"
  have up: "slot_free ?g j \<longleftrightarrow> slot_free h j \<or> j = k" if "j < 128" for j
    using slot_free_update(2)[OF len w(1) b that] unfolding w(2,3) .
  have same: "slot_free h' j = slot_free ?g j" "slot_free (h'\<lparr>sh_slab_use := i\<rparr>) j = slot_free ?g j" for i j by (simp_all add: h'_def slot_free_def)
  show "sh_bitmap h ! (k div 32) \<noteq> bitmap_set_bit (sh_bitmap h ! (k div 32)) (of_nat (k mod 32))"
    using up[OF k128] kc(2) len w(1) by (auto simp: slot_free_def)
  have c: "capacity (sh_size h) < 128" using capacity_bounds[OF s] by simp
  show us: "used_slots h' = used_slots h - {k}" using up c unfolding used_slots_def same by (auto simp: h'_def)
  have us': "used_slots (h'\<lparr>sh_slab_use := i\<rparr>) = used_slots h - {k}" for i using us by (simp add: used_slots_def slot_free_def h'_def)
  have n: "unat (sh_use_count h) = Suc (card (used_slots h - {k}))" using h k used_finite[of h] by (metis add.right_neutral card_Suc_Diff1)
  then have "sh_use_count h \<noteq> 0" by (metis Zero_not_Suc unat_0)
  then have n': "unat (sh_use_count h - 1) = card (used_slots h - {k})" using n by (simp add: unat_minus_one)
  then show "unat (sh_use_count h') = card (used_slots h')" by (simp add: h'_def us[unfolded h'_def])
  have r: "use_range (sh_size h) (sh_slab_use h) (Suc (card (used_slots h - {k})))" "sh_slab_use h < 5" using h unfolding n by blast+
  show "0 < sh_slab_use h" by (rule use_range_less(1)[OF s r(2,1)])
  have fr: "\<forall>j < 128. slot_free h' j \<longrightarrow> j < capacity (sh_size h)" "\<forall>j < 128. slot_free (h'\<lparr>sh_slab_use := i\<rparr>) j \<longrightarrow> j < capacity (sh_size h)" for i
    unfolding same using up h kc(1) by blast+
  have f: "sh_size h' = sh_size h" "sh_slab_use h' = sh_slab_use h" "length (sh_bitmap h') = 4" "sh_use_count h' = sh_use_count h - 1"
    using len by (simp_all add: h'_def)
  show "if unat (sh_use_count h') \<le> slab_tresholds ! sh_size h ! (sh_slab_use h - 1) then header_ok 0 (h'\<lparr>sh_slab_use := sh_slab_use h - 1\<rparr>) else header_ok 0 h'"
    using use_range_less(2)[OF s r(2,1)] n' us us' fr f s r(2) unfolding header_ok_def by (simp split: if_splits)
qed

lemma slab_deallocate_inv:
  assumes inv: "slab_inv st pg None" and obj: "(p, ss, k) \<in> slab_objects st"
  shows "\<exists>st' pg'. slab_deallocate st (slot_addr p ss k) = Some st' \<and> same_pages pg pg' \<and> slab_inv st' pg' None \<and>
    slab_objects st' = slab_objects st - {(p, ss, k)}"
proof -
  obtain h where h: "sl_headers st p = Some h" "sh_size h = ss" "k \<in> used_slots h" "ss < 4" "k < capacity ss" "header_ok 0 h"
    "pg p = Some ((BLOCK_TYPE_SLAB, 0), PAGE_SIZE)" "unat p + 4096 < 2 ^ 64" "unat p mod 4096 = 0" by (rule slab_object[OF inv obj])
  let ?a = "slot_addr p ss k"
  let ?h = "h\<lparr>sh_bitmap := (sh_bitmap h)[k div 32 := bitmap_set_bit (sh_bitmap h ! (k div 32)) (of_nat (k mod 32))], sh_use_count := sh_use_count h - 1\<rparr>"
  note r0 = release_slot[OF h(6,3)]
  obtain j where j: "sh_slab_use h = Suc j" using r0(3) by (cases "sh_slab_use h") simp_all
  let ?h2 = "?h\<lparr>sh_slab_use := j\<rparr>"
  note a = slot_page[OF h(4,5,8,9)] and r = r0[unfolded j diff_Suc_1]
  have a0: "?a \<noteq> 0" using a(3) by auto
  have c: "k < 128" using h(5) capacity_bounds[OF h(4)] by simp
  have ix: "unat ((of_nat k :: u32) div 32) = k div 32" "(of_nat k :: u32) mod 32 = of_nat (k mod 32)" "k div 32 < 4"
    using c by (simp_all add: unat_div word_unat_eq_iff unat_mod unsigned_of_nat take_bit_nat_eq_self less_mult_imp_div_less)
  have len: "length (sh_bitmap h) = 4" and su: "sh_slab_use h < 5" using h(6) by (simp_all add: header_ok_def)
  let ?links = "list_remove (Slab_Page p) (sl_links st)" let ?list = "Slab_List ss j"
  have res: "slab_deallocate st ?a =
      (if unat (sh_use_count ?h) \<le> slab_tresholds ! ss ! j
       then if j > 0 \<or> list_empty ?list ?links
            then Some (st\<lparr>sl_headers := (sl_headers st)(p \<mapsto> ?h2), sl_links := list_push_back ?list (Slab_Page p) ?links\<rparr>)
            else (case buddy_deallocate (sl_pools st) p of None \<Rightarrow> None
                  | Some pools \<Rightarrow> Some (st\<lparr>sl_pools := pools, sl_headers := (sl_headers st)(p := None), sl_links := ?links\<rparr>))
       else Some (st\<lparr>sl_headers := (sl_headers st)(p \<mapsto> ?h)\<rparr>))"
    unfolding slab_deallocate_def Let_def if_not_P[OF a0] a(1) h(1) option.case h(2) slot_index[OF h(4,5,8,9)] ix(1,2)
    using r(1) ix(3) len h(2) j by auto
  obtain L where L: "slab_lists L (sl_links st) (sl_headers st)" using inv by (auto simp: slab_inv_def)
  have ph: "page_heap (sl_pools st) pg" using inv by (simp add: slab_inv_def)
  have s: "sh_size h < 4" using h(2,4) by simp
  have objs: "slab_objects st' = slab_objects st - {(p, ss, k)}" if "sl_headers st' = (sl_headers st)(p \<mapsto> g)" "used_slots g = used_slots h - {k}" "sh_size g = ss" for st' g
  proof (rule set_eqI)
    fix x :: "u64 \<times> nat \<times> nat"
    obtain q s i where x: "x = (q, s, i)" by (cases x)
    show "x \<in> slab_objects st' \<longleftrightarrow> x \<in> slab_objects st - {(p, ss, k)}"
      unfolding x using that h(1,2) by (cases "q = p") (auto simp: slab_objects_def)
  qed
  have us2: "used_slots ?h2 = used_slots h - {k}" using r(2) by (simp add: used_slots_def slot_free_def)
  show ?thesis
  proof (cases "unat (sh_use_count ?h) \<le> slab_tresholds ! ss ! j")
    case False
    let ?st = "st\<lparr>sl_headers := (sl_headers st)(p \<mapsto> ?h)\<rparr>"
    have "header_ok 0 ?h" using r(5) False h(2) by (simp split: if_splits)
    then have "slab_inv ?st pg None" using lists_same[OF L h(1), of ?h] ph h(7) by (intro slab_inv_upd[OF inv, of p ?st pg L]) auto
    moreover have "slab_objects ?st = slab_objects st - {(p, ss, k)}" using objs[of ?st ?h] r(2) h(2) by simp
    ultimately show ?thesis using res False by (intro exI[of _ ?st] exI[of _ pg]) simp
  next
    case True
    then have ok2: "header_ok 0 ?h2" using r(5) h(2) by (simp split: if_splits)
    show ?thesis
    proof (cases "j > 0 \<or> list_empty ?list ?links")
      case keep: True
      let ?st = "st\<lparr>sl_headers := (sl_headers st)(p \<mapsto> ?h2), sl_links := list_push_back ?list (Slab_Page p) ?links\<rparr>"
      obtain L' where "slab_lists L' (list_push_back ?list (Slab_Page p) ?links) ((sl_headers st)(p \<mapsto> ?h2))"
        using lists_move[OF L h(1) s su, of ?h2] s su h(2) j by auto
      then have "slab_inv ?st pg None" using ok2 ph h(7) by (intro slab_inv_upd[OF inv, of p ?st pg L']) auto
      moreover have "slab_objects ?st = slab_objects st - {(p, ss, k)}" using objs[of ?st ?h2] us2 h(2) by simp
      ultimately show ?thesis using res True keep by (intro exI[of _ ?st] exI[of _ pg]) simp
    next
      case drop: False
      obtain pools where pools: "buddy_deallocate (sl_pools st) p = Some pools" "page_heap pools (pg(p := None))"
        using page_heap_release[OF ph, of p] h(7) by blast
      let ?st = "st\<lparr>sl_pools := pools, sl_headers := (sl_headers st)(p := None), sl_links := ?links\<rparr>"
      have "slab_inv ?st (pg(p := None)) None"
        using lists_drop[OF L h(1) s su] pools(2) by (intro slab_inv_upd[OF inv, of p ?st]) auto
      moreover have "used_slots h - {k} = {}" using True drop r(2,4) used_finite[of ?h] h(4) ok2 by (auto simp: header_ok_def use_range_def us2)
      then have "x \<in> slab_objects ?st \<longleftrightarrow> x \<in> slab_objects st - {(p, ss, k)}" for x
        using h(1-3) by (cases x; cases "fst x = p") (auto simp: slab_objects_def)
      then have "slab_objects ?st = slab_objects st - {(p, ss, k)}" by blast
      moreover have "same_pages pg (pg(p := None))" using h(7) by (auto simp: same_pages_def)
      moreover have "slab_deallocate st ?a = Some ?st" unfolding res if_P[OF True] if_not_P[OF drop] pools(1) by simp
      ultimately show ?thesis by blast
    qed
  qed
qed

end
