(* ===== verification/Malloc.thy ===== *)
theory Malloc
  imports Slab
begin

text \<open>
  The kernel's \<^verbatim>\<open>malloc\<close> family, \<^verbatim>\<open>kernel/src/malloc/malloc.c\<close>, and the physical page functions of
  \<^verbatim>\<open>kernel/src/page_alloc.c\<close>: requests up to 256 bytes go to the slabs, larger ones to the page allocator.
  The functions of \<^verbatim>\<open>malloc.c\<close> hold the spinlock of that file for their whole body, so each is one step on the heap. The
  page functions take no lock: they are single steps only as long as no other thread is in the allocator. The memory that \<^verbatim>\<open>calloc\<close> clears and \<^verbatim>\<open>realloc\<close> copies is the flat memory of \<open>Mem_String\<close>.
\<close>

section \<open>Definitions\<close>

definition MAX_SLAB_SIZE :: u64 where
  "MAX_SLAB_SIZE = 256"

text \<open>The generic port adds its pools itself; the others pass the memory left by the linker.\<close>

definition kernel_heap_init :: "(u64 \<times> u64) option \<Rightarrow> slab_heap \<Rightarrow> slab_heap" where
  "kernel_heap_init free_sram st =
     init_kernel_slabs (case free_sram of None \<Rightarrow> st | Some (start, stop) \<Rightarrow> st\<lparr>sl_pools := init_pool (sl_pools st) start stop 0\<rparr>)"

definition malloc_locked :: "slab_heap \<Rightarrow> u64 \<Rightarrow> (slab_heap \<times> u64) option" where
  "malloc_locked st sz =
     (let sz = (if sz = 0 then 1 else sz)
      in if sz \<le> MAX_SLAB_SIZE then slab_allocate st sz
         else case buddy_allocate (sl_pools st) sz BLOCK_TYPE_PAGE 0 of
                None \<Rightarrow> None
              | Some (pools, ptr) \<Rightarrow> Some (st\<lparr>sl_pools := pools\<rparr>, ptr))"

definition malloc :: "slab_heap \<Rightarrow> u64 \<Rightarrow> (slab_heap \<times> u64) option" where
  "malloc st sz = malloc_locked st sz"

definition aligned_alloc :: "slab_heap \<Rightarrow> u64 \<Rightarrow> u64 \<Rightarrow> (slab_heap \<times> u64) option" where
  "aligned_alloc st alignment sz = malloc_locked st sz"

text \<open>The pointer stored through \<^verbatim>\<open>memptr\<close> and the return value.\<close>

definition posix_memalign :: "slab_heap \<Rightarrow> u64 \<Rightarrow> u64 \<Rightarrow> (slab_heap \<times> u64 \<times> int) option" where
  "posix_memalign st alignment sz = map_option (\<lambda>(st, ptr). (st, ptr, 0)) (malloc_locked st sz)"

definition calloc :: "slab_heap \<Rightarrow> mem \<Rightarrow> u64 \<Rightarrow> u64 \<Rightarrow> (slab_heap \<times> mem \<times> u64) option" where
  "calloc st m nmemb sz =
     (case malloc_locked st (nmemb * sz) of
        None \<Rightarrow> None
      | Some (st, ptr) \<Rightarrow> Some (st, (if ptr \<noteq> 0 then fst (memset m ptr 0 (nmemb * sz)) else m), ptr))"

text \<open>Freeing by the type of the block; other types are only reported.\<close>

definition free_typed :: "slab_heap \<Rightarrow> block_type \<Rightarrow> u64 \<Rightarrow> slab_heap option" where
  "free_typed st type ptr =
     (case type of
        BLOCK_TYPE_PAGE \<Rightarrow> map_option (\<lambda>pools. st\<lparr>sl_pools := pools\<rparr>) (buddy_deallocate (sl_pools st) ptr)
      | BLOCK_TYPE_SLAB \<Rightarrow> slab_deallocate st ptr
      | _ \<Rightarrow> Some st)"

definition free_locked :: "slab_heap \<Rightarrow> u64 \<Rightarrow> slab_heap option" where
  "free_locked st ptr =
     (if ptr = 0 then Some st
      else case buddy_get_type (sl_pools st) (ALIGN_DOWN ptr PAGE_SIZE) of
             None \<Rightarrow> None
           | Some type \<Rightarrow> free_typed st type ptr)"

definition free :: "slab_heap \<Rightarrow> u64 \<Rightarrow> slab_heap option" where
  "free st ptr = free_locked st ptr"

text \<open>The end of \<^verbatim>\<open>realloc\<close>: allocate, copy, free the old block.\<close>

definition realloc_move :: "slab_heap \<Rightarrow> mem \<Rightarrow> block_type \<Rightarrow> u64 \<Rightarrow> u64 \<Rightarrow> u64 \<Rightarrow> (slab_heap \<times> mem \<times> u64) option" where
  "realloc_move st m type old_size ptr sz =
     (case malloc_locked st sz of
        None \<Rightarrow> None
      | Some (st, new_ptr) \<Rightarrow>
          if new_ptr = 0 then Some (st, m, 0)
          else
            let copy_size = (if old_size < sz then old_size else sz);
                m = fst (memcpy m new_ptr ptr copy_size)
            in map_option (\<lambda>st. (st, m, new_ptr)) (free_typed st type ptr))"

definition realloc :: "slab_heap \<Rightarrow> mem \<Rightarrow> u64 \<Rightarrow> u64 \<Rightarrow> (slab_heap \<times> mem \<times> u64) option" where
  "realloc st m ptr sz =
     (if ptr = 0 then map_option (\<lambda>(st, p). (st, m, p)) (malloc st sz)
      else if sz = 0 then map_option (\<lambda>st. (st, m, 0)) (free st ptr)
      else case buddy_get_type (sl_pools st) (ALIGN_DOWN ptr PAGE_SIZE) of
             None \<Rightarrow> None
           | Some type \<Rightarrow>
               (if type \<noteq> BLOCK_TYPE_PAGE \<and> type \<noteq> BLOCK_TYPE_SLAB then Some (st, m, ptr)
                else case (if type = BLOCK_TYPE_PAGE then buddy_get_size (sl_pools st) ptr else slab_get_size st ptr) of
                       None \<Rightarrow> None
                     | Some old_size \<Rightarrow>
                         if old_size \<ge> sz \<and> old_size > MAX_SLAB_SIZE \<and> sz > MAX_SLAB_SIZE
                         then (case buddy_reallocate (sl_pools st) m ptr sz of
                                 None \<Rightarrow> None
                               | Some (pools, m, new_ptr) \<Rightarrow> Some (st\<lparr>sl_pools := pools\<rparr>, m, new_ptr))
                         else realloc_move st m type old_size ptr sz))"

definition reallocarray :: "slab_heap \<Rightarrow> mem \<Rightarrow> u64 \<Rightarrow> u64 \<Rightarrow> u64 \<Rightarrow> (slab_heap \<times> mem \<times> u64) option" where
  "reallocarray st m ptr nmemb sz = realloc st m ptr (nmemb * sz)"

subsection \<open>Physical pages\<close>

text \<open>Page numbers are relative to the direct map at \<open>mmu_hhdm_vaddr\<close>; clearing the pages is left to \<open>mem_set\<close>.\<close>

definition phys_page_alloc :: "('m \<Rightarrow> u64 \<Rightarrow> u8 \<Rightarrow> u64 \<Rightarrow> 'm) \<Rightarrow> u64 \<Rightarrow> memory_pool list \<Rightarrow> 'm \<Rightarrow> u64 \<Rightarrow> bool \<Rightarrow> (memory_pool list \<times> 'm \<times> u64) option" where
  "phys_page_alloc mem_set mmu_hhdm_vaddr pools m page_count for_user =
     (case buddy_allocate pools (page_count * PAGE_SIZE) (if for_user then BLOCK_TYPE_USER else BLOCK_TYPE_PAGE) 0 of
        None \<Rightarrow> None
      | Some (pools, p) \<Rightarrow>
          if p = 0 then Some (pools, m, 0)
          else Some (pools, mem_set m p 0 (page_count * PAGE_SIZE), (p - mmu_hhdm_vaddr) div PAGE_SIZE))"

definition phys_page_size :: "u64 \<Rightarrow> memory_pool list \<Rightarrow> u64 \<Rightarrow> u64 option" where
  "phys_page_size mmu_hhdm_vaddr pools ppn = map_option (\<lambda>sz. sz div PAGE_SIZE) (buddy_get_size pools (ppn * PAGE_SIZE + mmu_hhdm_vaddr))"

definition phys_page_free :: "u64 \<Rightarrow> memory_pool list \<Rightarrow> u64 \<Rightarrow> memory_pool list option" where
  "phys_page_free mmu_hhdm_vaddr pools ppn = buddy_deallocate pools (ppn * PAGE_SIZE + mmu_hhdm_vaddr)"

section \<open>Objects and pages are apart\<close>

lemma objects_apart:
  assumes inv: "slab_inv st pg None" and x: "(p, ss, k) \<in> slab_objects st" "(p', ss', k') \<in> slab_objects st" "(p, ss, k) \<noteq> (p', ss', k')"
    and sz: "unat sz \<le> slab_bytes ! ss" "unat sz' \<le> slab_bytes ! ss'"
  shows "apart (slot_addr p ss k) sz (slot_addr p' ss' k') sz'"
proof -
  obtain h where h: "sl_headers st p = Some h" "sh_size h = ss" "ss < 4" "k < capacity ss"
    "pg p = Some ((BLOCK_TYPE_SLAB, 0), PAGE_SIZE)" "unat p + 4096 < 2 ^ 64" by (rule slab_object[OF inv x(1)])
  obtain h' where h': "sl_headers st p' = Some h'" "sh_size h' = ss'" "ss' < 4" "k' < capacity ss'"
    "pg p' = Some ((BLOCK_TYPE_SLAB, 0), PAGE_SIZE)" "unat p' + 4096 < 2 ^ 64" by (rule slab_object[OF inv x(2)])
  note u = unat_slot_addr[OF h(3,4,6)] and u' = unat_slot_addr[OF h'(3,4,6)]
  show ?thesis
  proof (cases "p = p'")
    case True
    then have ss: "ss' = ss" using h(1,2) h'(1,2) by simp
    then have "k < k' \<or> k' < k" using x(3) True by auto
    then have "Suc k * slab_bytes ! ss \<le> k' * slab_bytes ! ss \<or> Suc k' * slab_bytes ! ss \<le> k * slab_bytes ! ss"
      by (metis Suc_leI mult_le_mono1)
    then show ?thesis unfolding apart_def u(1) u'(1) using True ss sz by auto
  next
    case False
    have "page_heap (sl_pools st) pg" using inv by (simp add: slab_inv_def)
    then have "unat p + 4096 \<le> unat p' \<or> unat p' + 4096 \<le> unat p"
      using page_heap_separate[OF _ h(5) h'(5) False] by (simp add: apart_def PAGE_SIZE_def)
    then show ?thesis unfolding apart_def u(1) u'(1) using u(2) u'(2) sz by linarith
  qed
qed

lemma object_page_apart:
  assumes inv: "slab_inv st pg None" and x: "(p, ss, k) \<in> slab_objects st" "unat sz \<le> slab_bytes ! ss"
    and a: "pg a = Some ((ty, fl), sz')" "ty \<noteq> BLOCK_TYPE_SLAB"
  shows "apart (slot_addr p ss k) sz a sz'" and "slot_addr p ss k \<noteq> a"
proof -
  obtain h where h: "ss < 4" "k < capacity ss" "pg p = Some ((BLOCK_TYPE_SLAB, 0), PAGE_SIZE)" "unat p + 4096 < 2 ^ 64" "unat p mod 4096 = 0"
    by (rule slab_object[OF inv x(1)])
  note u = unat_slot_addr[OF h(1,2,4)]
  have ph: "page_heap (sl_pools st) pg" using inv by (simp add: slab_inv_def)
  have "p \<noteq> a" using h(3) a by auto
  then have "unat p + 4096 \<le> unat a \<or> unat a + unat sz' \<le> unat p"
    using page_heap_separate[OF ph h(3) a(1)] by (simp add: apart_def PAGE_SIZE_def)
  then show "apart (slot_addr p ss k) sz a sz'" unfolding apart_def u(1) using u(2) x(2) by linarith
  show "slot_addr p ss k \<noteq> a" using page_heap_place(2)[OF ph a(1)] slot_page(3)[OF h(1,2,4,5)] by auto
qed

lemma slot_addr_inj:
  assumes "slab_inv st pg None" and "(p, ss, k) \<in> slab_objects st" and "(p', ss', k') \<in> slab_objects st" and "slot_addr p ss k = slot_addr p' ss' k'"
  shows "(p, ss, k) = (p', ss', k')"
proof (rule ccontr)
  assume ne: "\<not> ?thesis"
  obtain h h' where "ss < 4" "ss' < 4" using slab_object[OF assms(1,2)] slab_object[OF assms(1,3)] by metis
  then have b: "32 \<le> slab_bytes ! ss" "32 \<le> slab_bytes ! ss'" by (auto elim!: less_4_cases)
  then have "apart (slot_addr p ss k) 1 (slot_addr p' ss' k') 1" by (intro objects_apart[OF assms(1-3) ne]) simp_all
  then show False unfolding assms(4) by (simp add: apart_def)
qed

section \<open>The heap of the kernel\<close>

text \<open>
  A client allocates with \<^verbatim>\<open>malloc\<close>, or pages of a type directly, as \<^verbatim>\<open>phys_page_alloc\<close> does. Its allocations
  are objects of the slabs or blocks of the page allocator.
\<close>

datatype heap_request = Malloc_Request | Page_Request block_type

definition heap_alloc :: "heap_request \<Rightarrow> slab_heap \<Rightarrow> u64 \<Rightarrow> (slab_heap \<times> u64) option" where
  "heap_alloc r st sz =
     (case r of
        Malloc_Request \<Rightarrow> malloc st sz
      | Page_Request ty \<Rightarrow> map_option (\<lambda>(pools, a). (st\<lparr>sl_pools := pools\<rparr>, a)) (buddy_allocate (sl_pools st) sz ty 0))"

definition heap_free :: "heap_request \<Rightarrow> slab_heap \<Rightarrow> u64 \<Rightarrow> slab_heap option" where
  "heap_free r st a =
     (case r of
        Malloc_Request \<Rightarrow> free st a
      | Page_Request ty \<Rightarrow> map_option (\<lambda>pools. st\<lparr>sl_pools := pools\<rparr>) (buddy_deallocate (sl_pools st) a))"

definition heap_request_ok :: "heap_request \<Rightarrow> u64 \<Rightarrow> bool" where
  "heap_request_ok r sz \<longleftrightarrow> unat sz + 4096 \<le> 2 ^ 64 \<and> (case r of Malloc_Request \<Rightarrow> True | Page_Request ty \<Rightarrow> sz \<noteq> 0 \<and> ty \<noteq> BLOCK_TYPE_SLAB)"

definition held_by :: "slab_heap \<Rightarrow> (block_type \<times> u32) allocations \<Rightarrow> u64 \<Rightarrow> heap_request \<Rightarrow> u64 \<Rightarrow> bool" where
  "held_by st pg a r sz \<longleftrightarrow>
     (case r of
        Malloc_Request \<Rightarrow> (\<exists>p ss k. (p, ss, k) \<in> slab_objects st \<and> a = slot_addr p ss k \<and> unat sz \<le> slab_bytes ! ss) \<or> pg a = Some ((BLOCK_TYPE_PAGE, 0), sz)
      | Page_Request ty \<Rightarrow> ty \<noteq> BLOCK_TYPE_SLAB \<and> pg a = Some ((ty, 0), sz))"

definition kernel_heap :: "slab_heap \<Rightarrow> heap_request allocations \<Rightarrow> bool" where
  "kernel_heap st live \<longleftrightarrow> (\<exists>pg. slab_inv st pg None \<and> (\<forall>a r sz. live a = Some (r, sz) \<longrightarrow> held_by st pg a r sz))"

lemma held_byE:
  assumes "held_by st pg a r sz"
  obtains (obj) p ss k where "r = Malloc_Request" "(p, ss, k) \<in> slab_objects st" "a = slot_addr p ss k" "unat sz \<le> slab_bytes ! ss"
  | (page) ty where "pg a = Some ((ty, 0), sz)" "ty \<noteq> BLOCK_TYPE_SLAB" "r = Malloc_Request \<and> ty = BLOCK_TYPE_PAGE \<or> r = Page_Request ty"
  using assms by (cases r) (auto simp: held_by_def)

lemma apart_sym: "apart a sz a' sz' \<longleftrightarrow> apart a' sz' a sz"
  by (auto simp: apart_def)

lemma kernel_heap_separate:
  assumes "kernel_heap st live" and "live a = Some (r, sz)" and "live a' = Some (r', sz')" and "a \<noteq> a'"
  shows "apart a sz a' sz'"
proof -
  obtain pg where inv: "slab_inv st pg None" and "held_by st pg a r sz" "held_by st pg a' r' sz'" using assms by (auto simp: kernel_heap_def)
  have ph: "page_heap (sl_pools st) pg" using inv by (simp add: slab_inv_def)
  from \<open>held_by st pg a r sz\<close> show ?thesis
  proof (cases rule: held_byE)
    case x: (obj p ss k)
    from \<open>held_by st pg a' r' sz'\<close> show ?thesis
    proof (cases rule: held_byE)
      case y: (obj p' ss' k')
      have "(p, ss, k) \<noteq> (p', ss', k')" using assms(4) x(3) y(3) by auto
      then show ?thesis unfolding x(3) y(3) by (rule objects_apart[OF inv x(2) y(2) _ x(4) y(4)])
    next
      case (page ty)
      then show ?thesis unfolding x(3) by (intro object_page_apart(1)[OF inv x(2,4)]) simp_all
    qed
  next
    case x: (page ty)
    from \<open>held_by st pg a' r' sz'\<close> show ?thesis
    proof (cases rule: held_byE)
      case (obj p' ss' k')
      then show ?thesis unfolding apart_sym[of a] using object_page_apart(1)[OF inv obj(2,4) x(1,2)] by simp
    next
      case (page ty')
      then show ?thesis using page_heap_separate[OF ph x(1) page(1) assms(4)] by simp
    qed
  qed
qed

lemma slab_inv_pages:
  assumes "slab_inv st pg None" and "page_heap pools pg'" and "\<And>p. pg p = Some ((BLOCK_TYPE_SLAB, 0), PAGE_SIZE) \<Longrightarrow> pg' p = pg p"
  shows "slab_inv (st\<lparr>sl_pools := pools\<rparr>) pg' None" and "slab_objects (st\<lparr>sl_pools := pools\<rparr>) = slab_objects st"
  using assms by (auto simp: slab_inv_def slab_objects_def)

lemma held_by_mono:
  assumes "held_by st pg a r sz" and "slab_objects st \<subseteq> slab_objects st'"
    and "\<And>ty. ty \<noteq> BLOCK_TYPE_SLAB \<Longrightarrow> pg a = Some ((ty, 0), sz) \<Longrightarrow> pg' a = Some ((ty, 0), sz)"
  shows "held_by st' pg' a r sz"
  using assms by (cases r) (auto simp: held_by_def)

text \<open>Pages from the page allocator.\<close>

lemma kernel_heap_pages:
  assumes inv: "slab_inv st pg None" and live0: "\<forall>a r sz. live a = Some (r, sz) \<longrightarrow> held_by st pg a r sz"
    and sz: "sz \<noteq> 0" "unat sz + 4096 \<le> 2 ^ 64" and ty: "ty \<noteq> BLOCK_TYPE_SLAB" "r = Malloc_Request \<and> ty = BLOCK_TYPE_PAGE \<or> r = Page_Request ty"
  shows "\<exists>pools a. buddy_allocate (sl_pools st) sz ty 0 = Some (pools, a) \<and> (a = 0 \<and> kernel_heap (st\<lparr>sl_pools := pools\<rparr>) live \<or>
    a \<noteq> 0 \<and> a \<notin> dom live \<and> kernel_heap (st\<lparr>sl_pools := pools\<rparr>) (live(a \<mapsto> (r, sz))))"
proof -
  note live = live0[rule_format]
  have ph: "page_heap (sl_pools st) pg" using inv by (simp add: slab_inv_def)
  obtain pools a where a: "buddy_allocate (sl_pools st) sz ty 0 = Some (pools, a)"
    "a = 0 \<and> page_heap pools pg \<or> a \<noteq> 0 \<and> a \<notin> dom pg \<and> page_heap pools (pg(a \<mapsto> ((ty, 0), sz)))"
    using page_heap_serve[OF ph sz, of ty 0] by blast
  let ?st = "st\<lparr>sl_pools := pools\<rparr>"
  show ?thesis
  proof (cases "a = 0")
    case True
    then have "slab_inv ?st pg None" "slab_objects ?st = slab_objects st" using slab_inv_pages[OF inv, of pools pg] a(2) by simp_all
    then have "kernel_heap ?st live" using live held_by_mono[of st pg _ _ _ ?st pg] unfolding kernel_heap_def by blast
    then show ?thesis using a(1) True by blast
  next
    case False
    let ?pg = "pg(a \<mapsto> ((ty, 0), sz))"
    have n: "a \<notin> dom pg" "page_heap pools ?pg" using a(2) False by simp_all
    have i: "slab_inv ?st ?pg None" "slab_objects ?st = slab_objects st" by (rule slab_inv_pages[OF inv n(2)]; use n(1) in auto)+
    have old: "held_by ?st ?pg c r' sz'" "c \<noteq> a" if c: "live c = Some (r', sz')" for c r' sz'
    proof -
      show "c \<noteq> a" using live[OF c]
      proof (cases rule: held_byE)
        case (obj p ss k)
        then show ?thesis using object_page_apart(2)[OF i(1), of p ss k sz' a ty 0 sz] i(2) ty(1) by simp
      qed (use n(1) in auto)
      then show "held_by ?st ?pg c r' sz'" using held_by_mono[OF live[OF c], of ?st ?pg] i(2) by simp
    qed
    have "held_by ?st ?pg a r sz" using ty by (auto simp: held_by_def)
    then have "kernel_heap ?st (live(a \<mapsto> (r, sz)))" using i(1) old(1) unfolding kernel_heap_def by (intro exI[of _ ?pg]) simp
    moreover have "a \<notin> dom live" using old(2) by auto
    ultimately show ?thesis using a(1) False by blast
  qed
qed

text \<open>Objects from the slabs.\<close>

lemma kernel_heap_slab:
  assumes inv: "slab_inv st pg None" and live0: "\<forall>a r sz. live a = Some (r, sz) \<longrightarrow> held_by st pg a r sz"
    and sz: "sz' \<le> 256" "unat sz \<le> unat sz'"
  shows "\<exists>st' a. slab_allocate st sz' = Some (st', a) \<and>
    (a = 0 \<and> kernel_heap st' live \<or> a \<noteq> 0 \<and> a \<notin> dom live \<and> kernel_heap st' (live(a \<mapsto> (Malloc_Request, sz))))"
proof -
  note live = live0[rule_format]
  let ?s = "slab_type_of sz'"
  obtain st' a pg' where s: "slab_allocate st sz' = Some (st', a)" "same_pages pg pg'" "slab_inv st' pg' None"
    "a = 0 \<and> slab_objects st' = slab_objects st \<or>
     (\<exists>p k. a = slot_addr p ?s k \<and> (p, ?s, k) \<notin> slab_objects st \<and> slab_objects st' = insert (p, ?s, k) (slab_objects st))"
    using slab_allocate_inv[OF inv sz(1)] by blast
  have sub: "slab_objects st \<subseteq> slab_objects st'" using s(4) by blast
  have old: "held_by st' pg' c r' z" if c: "live c = Some (r', z)" for c r' z
    by (rule held_by_mono[OF live[OF c] sub]) (use s(2) in \<open>simp add: same_pages_def\<close>)
  show ?thesis
  proof (cases "a = 0")
    case True
    then show ?thesis using s(1,3) old unfolding kernel_heap_def by blast
  next
    case False
    then obtain p k where k: "a = slot_addr p ?s k" "(p, ?s, k) \<notin> slab_objects st" "slab_objects st' = insert (p, ?s, k) (slab_objects st)" using s(4) by blast
    have here: "(p, ?s, k) \<in> slab_objects st'" unfolding k(3) by (rule insertI1)
    have "a \<notin> dom live"
    proof
      assume "a \<in> dom live"
      then obtain r' z where "live a = Some (r', z)" by auto
      from live[OF this] show False
      proof (cases rule: held_byE)
        case (obj p' ss' k')
        have "(p', ss', k') = (p, ?s, k)"
          by (rule slot_addr_inj[OF s(3) subsetD[OF sub obj(2)] here]) (rule trans[OF obj(3)[symmetric] k(1)])
        then show False using obj(2) k(2) by metis
      next
        case (page ty)
        then have "pg' a = Some ((ty, 0), z)" using s(2) by (simp add: same_pages_def)
        from object_page_apart(2)[OF s(3) here, of 0, OF _ this page(2)] show False using k(1) by simp
      qed
    qed
    moreover have "held_by st' pg' a Malloc_Request sz"
      unfolding held_by_def heap_request.case using here k(1) le_trans[OF sz(2) conjunct2[OF slab_type_fits[OF sz(1)]]] by blast
    then have "kernel_heap st' (live(a \<mapsto> (Malloc_Request, sz)))" 
      using s(3) old unfolding kernel_heap_def by (intro exI[of _ pg']) simp
    ultimately show ?thesis using s(1) False by blast
  qed
qed

lemma kernel_heap_serve:
  assumes "kernel_heap st live" and ok: "heap_request_ok r sz"
  shows "\<exists>st' a. heap_alloc r st sz = Some (st', a) \<and>
    (a = 0 \<and> kernel_heap st' live \<or> a \<noteq> 0 \<and> a \<notin> dom live \<and> kernel_heap st' (live(a \<mapsto> (r, sz))))"
proof -
  obtain pg where inv: "slab_inv st pg None" and live: "\<forall>a r sz. live a = Some (r, sz) \<longrightarrow> held_by st pg a r sz"
    using assms(1) by (auto simp: kernel_heap_def)
  have sz: "unat sz + 4096 \<le> 2 ^ 64" using ok by (simp add: heap_request_ok_def)
  show ?thesis
  proof (cases r)
    case (Page_Request ty)
    then have ty: "ty \<noteq> BLOCK_TYPE_SLAB" "sz \<noteq> 0" using ok by (simp_all add: heap_request_ok_def)
    from kernel_heap_pages[OF inv live ty(2) sz ty(1), of r] show ?thesis using Page_Request by (auto simp: heap_alloc_def)
  next
    case Malloc_Request
    let ?z = "if sz = 0 then 1 else sz"
    show ?thesis
    proof (cases "?z \<le> MAX_SLAB_SIZE")
      case True
      from kernel_heap_slab[OF inv live, of ?z sz] show ?thesis
        using True Malloc_Request by (auto simp: heap_alloc_def malloc_def malloc_locked_def Let_def MAX_SLAB_SIZE_def)
    next
      case False
      then have nz: "sz \<noteq> 0" by (auto simp: MAX_SLAB_SIZE_def)
      from kernel_heap_pages[OF inv live nz sz, of BLOCK_TYPE_PAGE Malloc_Request] show ?thesis
        using False nz Malloc_Request by (auto simp: heap_alloc_def malloc_def malloc_locked_def Let_def)
    qed
  qed
qed

lemma free_object:
  assumes inv: "slab_inv st pg None" and x: "(p, ss, k) \<in> slab_objects st"
  shows "free st (slot_addr p ss k) = slab_deallocate st (slot_addr p ss k)"
proof -
  obtain h where h: "ss < 4" "k < capacity ss" "pg p = Some ((BLOCK_TYPE_SLAB, 0), PAGE_SIZE)" "unat p + 4096 < 2 ^ 64" "unat p mod 4096 = 0"
    by (rule slab_object[OF inv x])
  note a = slot_page[OF h(1,2,4,5)]
  have "slot_addr p ss k \<noteq> 0" using a(3) by auto
  moreover have "buddy_get_type (sl_pools st) p = Some BLOCK_TYPE_SLAB" using inv h(3) by (auto simp: slab_inv_def page_heap_def)
  ultimately show ?thesis by (simp add: free_def free_locked_def free_typed_def a(1))
qed

lemma free_pages_block:
  assumes inv: "slab_inv st pg None" and a: "pg a = Some ((BLOCK_TYPE_PAGE, 0), sz)"
  shows "free st a = map_option (\<lambda>pools. st\<lparr>sl_pools := pools\<rparr>) (buddy_deallocate (sl_pools st) a)"
proof -
  have ph: "page_heap (sl_pools st) pg" using inv by (simp add: slab_inv_def)
  note p = page_heap_place[OF ph a]
  have "buddy_get_type (sl_pools st) a = Some BLOCK_TYPE_PAGE" using ph a by (auto simp: page_heap_def)
  moreover have "ALIGN_DOWN a PAGE_SIZE = a" using p(2) by (simp add: page_aligned_iff)
  ultimately show ?thesis using p(1) by (simp add: free_def free_locked_def free_typed_def)
qed

lemma release_page:
  assumes inv: "slab_inv st pg None" and live: "\<forall>a r sz. live a = Some (r, sz) \<longrightarrow> held_by st pg a r sz"
    and a: "pg a = Some ((ty, 0), sz)" "ty \<noteq> BLOCK_TYPE_SLAB"
  shows "\<exists>pools. buddy_deallocate (sl_pools st) a = Some pools \<and> kernel_heap (st\<lparr>sl_pools := pools\<rparr>) (live(a := None))"
proof -
  have "page_heap (sl_pools st) pg" using inv by (simp add: slab_inv_def)
  then obtain pools where p: "buddy_deallocate (sl_pools st) a = Some pools" "page_heap pools (pg(a := None))"
    using page_heap_release[of "sl_pools st" pg a] a(1) by blast
  have i: "slab_inv (st\<lparr>sl_pools := pools\<rparr>) (pg(a := None)) None" "slab_objects (st\<lparr>sl_pools := pools\<rparr>) = slab_objects st"
    by (rule slab_inv_pages[OF inv p(2)]; use a in auto)+
  have "held_by (st\<lparr>sl_pools := pools\<rparr>) (pg(a := None)) c r z" if "live c = Some (r, z)" "c \<noteq> a" for c r z
    using held_by_mono[of st pg c r z "st\<lparr>sl_pools := pools\<rparr>" "pg(a := None)"] live that i(2) by simp
  then have "kernel_heap (st\<lparr>sl_pools := pools\<rparr>) (live(a := None))" using i(1) unfolding kernel_heap_def by auto
  then show ?thesis using p(1) by blast
qed

lemma release_object:
  assumes inv: "slab_inv st pg None" and live: "\<forall>a r sz. live a = Some (r, sz) \<longrightarrow> held_by st pg a r sz"
    and x: "(p, ss, k) \<in> slab_objects st"
  shows "\<exists>st'. slab_deallocate st (slot_addr p ss k) = Some st' \<and> kernel_heap st' (live(slot_addr p ss k := None))"
proof -
  obtain st' pg' where s: "slab_deallocate st (slot_addr p ss k) = Some st'" "same_pages pg pg'" "slab_inv st' pg' None"
    "slab_objects st' = slab_objects st - {(p, ss, k)}" using slab_deallocate_inv[OF inv x] by blast
  have "held_by st' pg' c r z" if c: "live c = Some (r, z)" "c \<noteq> slot_addr p ss k" for c r z
  proof -
    from live c(1) have "held_by st pg c r z" by blast
    then show ?thesis
    proof (cases rule: held_byE)
      case (obj p' ss' k')
      have "(p', ss', k') \<in> slab_objects st'" unfolding s(4) using obj(2,3) c(2) by auto
      then show ?thesis using obj unfolding held_by_def by auto
    next
      case (page ty)
      then have "pg' c = Some ((ty, 0), z)" using s(2) by (simp add: same_pages_def)
      then show ?thesis using page unfolding held_by_def by (auto split: heap_request.split)
    qed
  qed
  then have "kernel_heap st' (live(slot_addr p ss k := None))" using s(3) unfolding kernel_heap_def by auto
  then show ?thesis using s(1) by blast
qed

lemma kernel_heap_release:
  assumes "kernel_heap st live" and a: "live a = Some (r, sz)"
  shows "\<exists>st'. heap_free r st a = Some st' \<and> kernel_heap st' (live(a := None))"
proof -
  obtain pg where inv: "slab_inv st pg None" and live: "\<forall>a r sz. live a = Some (r, sz) \<longrightarrow> held_by st pg a r sz"
    using assms(1) by (auto simp: kernel_heap_def)
  from live a have "held_by st pg a r sz" by blast
  then show ?thesis
  proof (cases rule: held_byE)
    case (obj p ss k)
    then show ?thesis using release_object[OF inv live obj(2)] free_object[OF inv obj(2)] by (simp add: heap_free_def)
  next
    case (page ty)
    obtain pools where p: "buddy_deallocate (sl_pools st) a = Some pools" "kernel_heap (st\<lparr>sl_pools := pools\<rparr>) (live(a := None))"
      using release_page[OF inv live page(1,2)] by blast
    from page(3) show ?thesis
    proof (elim disjE conjE)
      assume "r = Malloc_Request" "ty = BLOCK_TYPE_PAGE"
      then show ?thesis using free_pages_block[OF inv, of a sz] page(1) p by (simp add: heap_free_def)
    qed (use p in \<open>simp add: heap_free_def\<close>)
  qed
qed

interpretation kheap: allocator heap_alloc heap_free heap_request_ok kernel_heap
  by unfold_locales (fact kernel_heap_serve, fact kernel_heap_release, fact kernel_heap_separate)

section \<open>The initial heap\<close>

lemma list_init_keeps:
  "ring_prev (list_init e r) h = (if h = e then e else ring_prev r h)" "ring_next (list_init e r) h = (if h = e then e else ring_next r h)"
  by (simp_all add: list_init_def)


lemma init_inner:
  fixes r :: "slab_node ring"
  assumes "h \<in> Slab_List i ` set ks \<or> ring_prev r h = h \<and> ring_next r h = h"
  shows "ring_prev (fold (\<lambda>k. list_init (Slab_List i k)) ks r) h = h \<and> ring_next (fold (\<lambda>k. list_init (Slab_List i k)) ks r) h = h"
  using assms by (induction ks arbitrary: r) (auto simp: list_init_keeps)

lemma init_outer:
  fixes r :: "slab_node ring"
  assumes "(\<exists>i \<in> set is. h \<in> Slab_List i ` set ks) \<or> ring_prev r h = h \<and> ring_next r h = h"
  shows "ring_prev (fold (\<lambda>i. fold (\<lambda>k. list_init (Slab_List i k)) ks) is r) h = h \<and>
    ring_next (fold (\<lambda>i. fold (\<lambda>k. list_init (Slab_List i k)) ks) is r) h = h"
  using assms
proof (induction "is" arbitrary: r)
  case (Cons i "is")
  show ?case using Cons.IH[of "fold (\<lambda>k. list_init (Slab_List i k)) ks r"] init_inner[of h i ks r] Cons.prems by auto
qed simp

lemma kernel_heap_start:
  assumes "heap_inv (sl_pools st) Map.empty" and "sl_headers st = Map.empty"
  shows "kernel_heap (init_kernel_slabs st) Map.empty"
proof -
  have "rings slab_heads (\<lambda>_. []) (sl_links (init_kernel_slabs st))"
  proof (rule rings_init)
    fix h assume "h \<in> slab_heads"
    then obtain s i where h: "h = Slab_List s i" "s < 4" "i < 5" by (rule slab_headsE)
    have "\<exists>i \<in> set [0..<4]. h \<in> Slab_List i ` set [0..<5]" using h by (intro bexI[of _ s]) simp_all
    then show "ring_prev (sl_links (init_kernel_slabs st)) h = h \<and> ring_next (sl_links (init_kernel_slabs st)) h = h"
      using init_outer[of "[0..<4]" h "[0..<5]" "sl_links st"] unfolding init_kernel_slabs_def by simp
  qed
  then have "slab_lists (\<lambda>_. []) (sl_links (init_kernel_slabs st)) (sl_headers (init_kernel_slabs st))"
    using assms(2) by (simp add: slab_lists_def init_kernel_slabs_def)
  then have "slab_inv (init_kernel_slabs st) Map.empty None"
    using assms heap_inv_page_heap[OF assms(1)] by (auto simp: slab_inv_def init_kernel_slabs_def)
  then show ?thesis unfolding kernel_heap_def by auto
qed

section \<open>Reallocation\<close>

text \<open>The type found for a pointer from \<^verbatim>\<open>malloc\<close>: blocks are page-aligned, objects never are.\<close>

definition malloc_type :: "u64 \<Rightarrow> block_type" where
  "malloc_type a = (if unat a mod 4096 = 0 then BLOCK_TYPE_PAGE else BLOCK_TYPE_SLAB)"

lemma malloc_held:
  assumes "kernel_heap st live" and "live a = Some (Malloc_Request, sz)"
  obtains pg p ss k where "slab_inv st pg None" "malloc_type a = BLOCK_TYPE_SLAB" "(p, ss, k) \<in> slab_objects st" "a = slot_addr p ss k" "unat sz \<le> slab_bytes ! ss"
  | pg where "slab_inv st pg None" "malloc_type a = BLOCK_TYPE_PAGE" "pg a = Some ((BLOCK_TYPE_PAGE, 0), sz)"
proof -
  obtain pg where inv: "slab_inv st pg None" and "held_by st pg a Malloc_Request sz" using assms by (auto simp: kernel_heap_def)
  from this(2) show thesis
  proof (cases rule: held_byE)
    case (obj p ss k)
    obtain h where h: "ss < 4" "k < capacity ss" "unat p + 4096 < 2 ^ 64" "unat p mod 4096 = 0" by (rule slab_object[OF inv obj(2)])
    then show thesis using that(1)[OF inv _ obj(2,3,4)] slot_page(3)[OF h] obj(3) by (simp add: malloc_type_def)
  next
    case (page ty)
    then have "pg a = Some ((BLOCK_TYPE_PAGE, 0), sz)" by simp
    moreover have "page_heap (sl_pools st) pg" using inv by (simp add: slab_inv_def)
    ultimately show thesis using that(2)[OF inv] page_heap_place(2) by (simp add: malloc_type_def)
  qed
qed

lemma malloc_type_found:
  assumes "kernel_heap st live" and "live a = Some (Malloc_Request, sz)"
  shows "a \<noteq> 0" and "buddy_get_type (sl_pools st) (ALIGN_DOWN a PAGE_SIZE) = Some (malloc_type a)" and "free st a = free_typed st (malloc_type a) a"
proof -
  have *: "a \<noteq> 0 \<and> buddy_get_type (sl_pools st) (ALIGN_DOWN a PAGE_SIZE) = Some (malloc_type a)"
    using assms
  proof (cases rule: malloc_held)
    case (1 pg p ss k)
    obtain h where h: "ss < 4" "k < capacity ss" "pg p = Some ((BLOCK_TYPE_SLAB, 0), PAGE_SIZE)" "unat p + 4096 < 2 ^ 64" "unat p mod 4096 = 0"
      by (rule slab_object[OF 1(1,3)])
    have "buddy_get_type (sl_pools st) p = Some BLOCK_TYPE_SLAB" using 1(1) h(3) by (auto simp: slab_inv_def page_heap_def)
    moreover have "a \<noteq> 0" using slot_page(3)[OF h(1,2,4,5)] 1(4) by auto
    ultimately show ?thesis using slot_page(1)[OF h(1,2,4,5)] 1(2,4) by simp
  next
    case (2 pg)
    have ph: "page_heap (sl_pools st) pg" using 2(1) by (simp add: slab_inv_def)
    note p = page_heap_place[OF ph 2(3)]
    have "ALIGN_DOWN a PAGE_SIZE = a" using p(2) by (simp add: page_aligned_iff)
    then show ?thesis using p(1) ph 2(2,3) by (auto simp: page_heap_def)
  qed
  then show "a \<noteq> 0" "buddy_get_type (sl_pools st) (ALIGN_DOWN a PAGE_SIZE) = Some (malloc_type a)" by simp_all
  then show "free st a = free_typed st (malloc_type a) a" by (simp add: free_def free_locked_def)
qed

lemma kernel_heap_place:
  assumes "kernel_heap st live" and "live a = Some (Malloc_Request, sz)"
  shows "unat a + unat sz \<le> 2 ^ 64"
  using assms
proof (cases rule: malloc_held)
  case (1 pg p ss k)
  obtain h where h: "ss < 4" "k < capacity ss" "unat p + 4096 < 2 ^ 64" by (rule slab_object[OF 1(1,3)])
  then show ?thesis using unat_slot_addr[OF h] 1(4,5) by simp
next
  case (2 pg)
  then have "page_heap (sl_pools st) pg" by (simp add: slab_inv_def)
  then show ?thesis using page_heap_place(3)[of "sl_pools st" pg a "(BLOCK_TYPE_PAGE, 0)" sz] 2(3) by simp
qed

text \<open>Pools of at most a gibibyte that do not reach the end of the address space.\<close>

definition small_pools :: "memory_pool list \<Rightarrow> bool" where
  "small_pools pools \<longleftrightarrow> (\<forall>pool \<in> set pools. max_order pool \<le> 18 \<and> unat (pages_start pool) + 2 ^ max_order pool * 4096 \<le> 2 ^ 64)"

lemma block_size:
  assumes inv: "page_heap pools pg" and a: "pg a = Some (r, sz)" and small: "small_pools pools"
  obtains old where "buddy_get_size pools a = Some old" "unat sz \<le> unat old" "unat a + unat old \<le> 2 ^ 64"
proof -
  have h: "heap_inv pools (\<lambda>a. map_option snd (pg a))" (is "heap_inv _ ?m") using inv by (rule page_heap_inv)
  have "?m a = Some sz" using a by simp
  then obtain p b where p: "p < length pools" "b \<in> held (pools ! p) ?m" "a = block_to_address (pools ! p) b"
    "unat a = unat (pages_start (pools ! p)) + b * 4096" "unat sz \<le> 2 ^ bb_order (blk (pools ! p) b) * 4096" by (rule alloc_inside[OF h])
  let ?o = "bb_order (blk (pools ! p) b)"
  obtain L where L: "pool_inv (pools ! p) (held (pools ! p) ?m) L" using h p(1) by (auto simp: heap_inv_def)
  note T = pool_invD(8)[OF L]
  have t: "b + 2 ^ ?o \<le> 2 ^ max_order (pools ! p)" "?o \<le> max_order (pools ! p)" using tilingD(2,4)[OF T UnI1[OF p(2)]] by simp_all
  have s: "max_order (pools ! p) \<le> 18" "unat (pages_start (pools ! p)) + 2 ^ max_order (pools ! p) * 4096 \<le> 2 ^ 64"
    using small p(1) by (simp_all add: small_pools_def)
  have o: "?o < 19" using t(2) s(1) by linarith
  obtain old where u: "order_size ?o = Some old" "unat old = 2 ^ ?o * 4096" using order_size_exact[OF o] by blast
  have "(b + 2 ^ ?o) * 4096 \<le> 2 ^ max_order (pools ! p) * 4096" using t(1) by (rule mult_le_mono1)
  then have "unat a + unat old \<le> 2 ^ 64" unfolding u(2) p(4) using s(2) by (simp add: add_mult_distrib)
  moreover have "buddy_get_size pools a = Some old" using get_block_held[OF h p(1,2)] p(3) u(1) by (simp add: buddy_get_size_def)
  ultimately show thesis using that u(2) p(5) by simp
qed

lemma copied:
  assumes "unat q + unat n \<le> 2 ^ 64" and "unat p + unat n \<le> 2 ^ 64" and "i < unat n"
  shows "fst (memcpy m q p n) (q + of_nat i) = m (p + of_nat i)"
proof -
  have "unat (of_nat i :: u64) = i" using assms(3) unat_less[of n] by (intro unat_of_nat_small) simp
  then show ?thesis using assms by (simp add: memcpy_def memmove_eq)
qed

lemma realloc_move_copies:
  assumes inv: "kernel_heap st live" and ptr: "live ptr = Some (Malloc_Request, osz)" and sz: "unat sz + 4096 \<le> 2 ^ 64"
    and old: "unat osz \<le> unat old" "unat ptr + unat old \<le> 2 ^ 64"
  shows "\<exists>st' m' q. realloc_move st m (malloc_type ptr) old ptr sz = Some (st', m', q) \<and>
    (q = 0 \<and> m' = m \<and> kernel_heap st' live \<or>
     q \<noteq> 0 \<and> kernel_heap st' (live(q \<mapsto> (Malloc_Request, sz), ptr := None)) \<and> (\<forall>i < min (unat osz) (unat sz). m' (q + of_nat i) = m (ptr + of_nat i)))"
proof -
  have "heap_request_ok Malloc_Request sz" using sz by (simp add: heap_request_ok_def)
  from kernel_heap_serve[OF inv this] obtain st1 q where q: "malloc_locked st sz = Some (st1, q)"
    "q = 0 \<and> kernel_heap st1 live \<or> q \<noteq> 0 \<and> q \<notin> dom live \<and> kernel_heap st1 (live(q \<mapsto> (Malloc_Request, sz)))"
    by (auto simp: heap_alloc_def malloc_def)
  show ?thesis
  proof (cases "q = 0")
    case True
    then show ?thesis using q by (auto simp: realloc_move_def)
  next
    case False
    let ?l = "live(q \<mapsto> (Malloc_Request, sz))" let ?n = "if old < sz then old else sz" let ?m = "fst (memcpy m q ptr ?n)"
    have k: "q \<notin> dom live" "kernel_heap st1 ?l" using q(2) False by simp_all
    have p: "?l ptr = Some (Malloc_Request, osz)" using ptr k(1) by auto
    obtain st2 where f: "free_typed st1 (malloc_type ptr) ptr = Some st2" "kernel_heap st2 (?l(ptr := None))"
      using kernel_heap_release[OF k(2) p] malloc_type_found(3)[OF k(2) p] unfolding heap_free_def heap_request.case by metis
    have n: "unat ?n \<le> unat sz" "unat ?n \<le> unat old" "min (unat osz) (unat sz) \<le> unat ?n" using old(1) by (auto simp: word_less_nat_alt)
    have "unat q + unat sz \<le> 2 ^ 64" using kernel_heap_place[OF k(2)] by simp
    then have b: "unat q + unat ?n \<le> 2 ^ 64" "unat ptr + unat ?n \<le> 2 ^ 64" using n old(2) by linarith+
    have "\<forall>i < min (unat osz) (unat sz). ?m (q + of_nat i) = m (ptr + of_nat i)" using copied[OF b] n(3) less_le_trans by blast
    moreover have "realloc_move st m (malloc_type ptr) old ptr sz = Some (st2, ?m, q)" using q(1) False f(1) by (simp add: realloc_move_def Let_def)
    ultimately show ?thesis using False f(2) by blast
  qed
qed

lemma buddy_reallocate_copies:
  assumes inv: "page_heap pools pg" and ptr: "pg ptr = Some ((BLOCK_TYPE_PAGE, fl), osz)" and sz: "sz \<noteq> 0" "unat sz + 4096 \<le> 2 ^ 64"
    and old: "buddy_get_size pools ptr = Some old" "unat ptr + unat old \<le> 2 ^ 64" "sz \<le> old"
  shows "\<exists>pools' m' q. buddy_reallocate pools m ptr sz = Some (pools', m', q) \<and> (q \<noteq> 0 \<longrightarrow> (\<forall>i < unat sz. m' (q + of_nat i) = m (ptr + of_nat i)))"
proof -
  have h: "heap_inv pools (\<lambda>a. map_option snd (pg a))" (is "heap_inv _ ?m") using inv by (rule page_heap_inv)
  have "?m ptr = Some osz" using ptr by simp
  then obtain p b where p: "p < length pools" "b \<in> held (pools ! p) ?m" "ptr = block_to_address (pools ! p) b" by (rule alloc_inside[OF h])
  have g: "buddy_get_block pools ptr = Some (Some (p, b))" using get_block_held[OF h p(1,2)] p(3) by simp
  let ?B = "blk (pools ! p) b"
  have "buddy_get_type pools ptr = Some BLOCK_TYPE_PAGE" using inv ptr unfolding page_heap_def by blast
  then have ty: "bb_type ?B = BLOCK_TYPE_PAGE" using g by (simp add: buddy_get_type_def)
  have os: "order_size (bb_order ?B) = Some old" using old(1) g by (simp add: buddy_get_size_def)
  obtain pools1 q where q: "buddy_allocate pools sz BLOCK_TYPE_PAGE (pool_flags (pools ! p)) = Some (pools1, q)"
    "q = 0 \<or> q \<noteq> 0 \<and> q \<notin> dom pg \<and> page_heap pools1 (pg(q \<mapsto> ((BLOCK_TYPE_PAGE, pool_flags (pools ! p)), sz)))"
    using page_heap_serve[OF inv sz, of BLOCK_TYPE_PAGE "pool_flags (pools ! p)"] by blast
  show ?thesis
  proof (cases "bb_order ?B = get_order ((sz + (PAGE_SIZE - 1)) div PAGE_SIZE) \<or> q = 0")
    case True
    then show ?thesis using g q(1) ty os by (auto simp: buddy_reallocate_def Let_def)
  next
    case False
    let ?pg = "pg(q \<mapsto> ((BLOCK_TYPE_PAGE, pool_flags (pools ! p)), sz))"
    have k: "q \<notin> dom pg" "page_heap pools1 ?pg" using q(2) False by simp_all
    have "ptr \<in> dom ?pg" using ptr by auto
    then obtain pools2 where d: "buddy_deallocate pools1 ptr = Some pools2" using page_heap_release[OF k(2)] by blast
    have "\<not> old < sz" using old(3) by simp
    then have r: "buddy_reallocate pools m ptr sz = Some (pools2, fst (memcpy m q ptr sz), q)"
      using g q(1) ty os d False by (simp add: buddy_reallocate_def Let_def)
    have b: "unat q + unat sz \<le> 2 ^ 64" "unat ptr + unat sz \<le> 2 ^ 64"
      using page_heap_place(3)[OF k(2), of q] old(2,3) by (auto simp: word_le_nat_alt)
    show ?thesis using r copied[OF b] by blast
  qed
qed

text \<open>What \<^verbatim>\<open>realloc\<close> takes for the size of the old block.\<close>

lemma malloc_size:
  assumes "kernel_heap st live" and "live a = Some (Malloc_Request, sz)" and small: "small_pools (sl_pools st)"
  obtains old where "(if malloc_type a = BLOCK_TYPE_PAGE then buddy_get_size (sl_pools st) a else slab_get_size st a) = Some old"
    "unat sz \<le> unat old" "unat a + unat old \<le> 2 ^ 64" "old > MAX_SLAB_SIZE \<longrightarrow> malloc_type a = BLOCK_TYPE_PAGE"
  using assms(1,2)
proof (cases rule: malloc_held)
  case (1 pg p ss k)
  obtain h where h: "sl_headers st p = Some h" "sh_size h = ss" "ss < 4" "k < capacity ss" "unat p + 4096 < 2 ^ 64" "unat p mod 4096 = 0"
    by (rule slab_object[OF 1(1,3)])
  have c: "slab_bytes ! ss \<le> 256" using capacity_bounds[OF h(3)] by simp
  then have u: "unat (of_nat (slab_bytes ! ss) :: u64) = slab_bytes ! ss" by (intro unat_of_nat_small) simp
  have "a \<noteq> 0" using malloc_type_found(1)[OF assms(1,2)] .
  then have "slab_get_size st a = Some (of_nat (slab_bytes ! ss))" using slot_page(1)[OF h(3-6)] 1(4) h(1,2) by (simp add: slab_get_size_def)
  moreover have "unat a + slab_bytes ! ss \<le> 2 ^ 64" using unat_slot_addr[OF h(3-5)] 1(4) h(5) by simp
  ultimately show thesis using that[of "of_nat (slab_bytes ! ss)"] u 1(2,5) c by (simp add: MAX_SLAB_SIZE_def word_less_nat_alt)
next
  case (2 pg)
  have ph: "page_heap (sl_pools st) pg" using 2(1) by (simp add: slab_inv_def)
  obtain old where "buddy_get_size (sl_pools st) a = Some old" "unat sz \<le> unat old" "unat a + unat old \<le> 2 ^ 64" by (rule block_size[OF ph 2(3) small])
  then show thesis using that 2(2) by simp
qed

section \<open>Properties\<close>

lemma slot_addr_nonzero: "slab_inv st pg None \<Longrightarrow> (p, ss, k) \<in> slab_objects st \<Longrightarrow> slot_addr p ss k \<noteq> 0"
  by (erule slab_object, assumption) (use slot_page(3)[of ss k p] in auto)

abbreviation kheap_step :: "slab_heap \<times> heap_request allocations \<Rightarrow> slab_heap \<times> heap_request allocations \<Rightarrow> bool" where
  "kheap_step \<equiv> alloc_step heap_alloc heap_free heap_request_ok"

definition example_slabs :: slab_heap where
  "example_slabs = kernel_heap_init (Some (0x80000000, 0x80008000)) \<lparr>sl_pools = [], sl_headers = Map.empty, sl_links = \<lparr>ring_prev = id, ring_next = id\<rparr>\<rparr>"

lemma example_slabs_heap: "kernel_heap example_slabs Map.empty"
  unfolding example_slabs_def kernel_heap_init_def by (rule kernel_heap_start) (simp_all add: example_heap)



lemma malloc_small:
  assumes "kernel_heap st live" and "sz \<le> MAX_SLAB_SIZE"
  shows "\<exists>st' a. malloc st sz = Some (st', a) \<and>
    (a = 0 \<longrightarrow> (\<exists>pools. buddy_allocate (sl_pools st) PAGE_SIZE BLOCK_TYPE_SLAB 0 = Some (pools, 0))) \<and>
    (a \<noteq> 0 \<longrightarrow> a \<notin> dom live \<and> kernel_heap st' (live(a \<mapsto> (Malloc_Request, sz))))"
proof -
  obtain pg where inv: "slab_inv st pg None" using assms(1) by (auto simp: kernel_heap_def)
  let ?z = "if sz = 0 then 1 else sz"
  have le: "?z \<le> 256" "?z \<le> MAX_SLAB_SIZE" using assms(2) by (simp_all add: MAX_SLAB_SIZE_def)
  have ok: "heap_request_ok Malloc_Request sz" using assms(2) by (simp add: heap_request_ok_def MAX_SLAB_SIZE_def word_le_nat_alt)
  have eq: "malloc st sz = slab_allocate st ?z" using le(2) by (simp add: malloc_def malloc_locked_def Let_def)
  obtain st' a where a: "malloc st sz = Some (st', a)" "a \<noteq> 0 \<longrightarrow> a \<notin> dom live \<and> kernel_heap st' (live(a \<mapsto> (Malloc_Request, sz)))"
    using kernel_heap_serve[OF assms(1) ok] by (auto simp: heap_alloc_def)
  obtain pg' where s: "slab_inv st' pg' None" "a = 0 \<and> (\<exists>pools. buddy_allocate (sl_pools st) PAGE_SIZE BLOCK_TYPE_SLAB 0 = Some (pools, 0)) \<or>
      (\<exists>p k. a = slot_addr p (slab_type_of ?z) k \<and> (p, slab_type_of ?z, k) \<in> slab_objects st')"
    using slab_allocate_inv[OF inv le(1)] a(1) unfolding eq by (metis Pair_inject insertI1 option.inject)
  have "a = 0 \<longrightarrow> (\<exists>pools. buddy_allocate (sl_pools st) PAGE_SIZE BLOCK_TYPE_SLAB 0 = Some (pools, 0))"
    using s(2) slot_addr_nonzero[OF s(1)] by metis
  then show ?thesis using a by blast
qed

text \<open>An object of the example heap.\<close>

lemma example_object:
  obtains st a where "malloc example_slabs 100 = Some (st, a)" "a \<noteq> 0" "kernel_heap st [a \<mapsto> (Malloc_Request, 100)]"
proof -
  have "sl_pools example_slabs = init_pool [] 0x80000000 0x80008000 0" by (simp add: example_slabs_def kernel_heap_init_def init_kernel_slabs_def)
  then obtain pools p where "buddy_allocate (sl_pools example_slabs) PAGE_SIZE BLOCK_TYPE_SLAB 0 = Some (pools, p)" "p \<noteq> 0"
    using example_page[of PAGE_SIZE BLOCK_TYPE_SLAB 0] by auto
  then show thesis using that malloc_small[OF example_slabs_heap, of 100] by (auto simp: MAX_SLAB_SIZE_def)
qed

text \<open>
  C10: a small request fails only when the page allocator refuses a request for one page. The page \<^verbatim>\<open>get_slab\<close> returns
  always has a free slot, so the error path of \<^verbatim>\<open>slab_allocate\<close> is never taken, and the object returned
  is new memory.
\<close>

theorem malloc_small_complete:
  assumes "kernel_heap st live" and "sz \<le> MAX_SLAB_SIZE"
  shows "\<exists>st' a. malloc st sz = Some (st', a) \<and>
    (a = 0 \<longrightarrow> (\<exists>pools. buddy_allocate (sl_pools st) PAGE_SIZE BLOCK_TYPE_SLAB 0 = Some (pools, 0))) \<and>
    (a \<noteq> 0 \<longrightarrow> a \<notin> dom live \<and> kernel_heap st' (live(a \<mapsto> (Malloc_Request, sz))))"
  by (rule malloc_small[OF assms])

theorem malloc_small_complete_witness: "\<exists>st' a. malloc example_slabs 100 = Some (st', a)"
  using malloc_small_complete[OF example_slabs_heap, of 100] by (auto simp: MAX_SLAB_SIZE_def)

text \<open>
  C33: \<^verbatim>\<open>aligned_alloc\<close> ignores its alignment. A small object starts at a multiple of 32 but never at the
  start of a page, so no small request aligned to a page is met.
\<close>

theorem aligned_alloc_misaligned:
  assumes "kernel_heap st live" and "sz \<le> MAX_SLAB_SIZE" and "aligned_alloc st PAGE_SIZE sz = Some (st', a)" and "a \<noteq> 0"
  shows "unat a mod 4096 \<noteq> 0 \<and> unat a mod 32 = 0"
proof -
  obtain pg where inv: "slab_inv st pg None" using assms(1) by (auto simp: kernel_heap_def)
  let ?z = "if sz = 0 then 1 else sz" let ?s = "slab_type_of ?z"
  have le: "?z \<le> 256" "?z \<le> MAX_SLAB_SIZE" using assms(2) by (simp_all add: MAX_SLAB_SIZE_def)
  have "slab_allocate st ?z = Some (st', a)" using assms(3) le(2) by (simp add: aligned_alloc_def malloc_locked_def Let_def)
  then obtain pg' p k where s: "slab_inv st' pg' None" "a = slot_addr p ?s k" "(p, ?s, k) \<in> slab_objects st'"
    using slab_allocate_inv[OF inv le(1)] assms(4) by (metis Pair_inject insertI1 option.inject)
  obtain h where h: "?s < 4" "k < capacity ?s" "unat p + 4096 < 2 ^ 64" "unat p mod 4096 = 0" by (rule slab_object[OF s(1,3)])
  have "32 dvd slab_bytes ! n" if "n < 4" for n using that by (rule less_4_cases) simp_all
  then have "32 dvd slab_bytes ! ?s" using h(1) by blast
  then have "32 dvd 64 + k * slab_bytes ! ?s" by simp
  moreover have "32 dvd unat p" using h(4) by (intro dvd_trans[of 32 4096 "unat p"]) auto
  ultimately have "32 dvd unat p + (64 + k * slab_bytes ! ?s)" by (rule dvd_add[rotated])
  then have "32 dvd unat (slot_addr p ?s k)" unfolding unat_slot_addr(1)[OF h(1-3)] by (simp only: add.assoc)
  then show ?thesis using slot_page(3)[OF h] unfolding s(2) by (simp only: mod_eq_0_iff_dvd) simp
qed

theorem aligned_alloc_misaligned_witness:
  "\<exists>st a. aligned_alloc example_slabs PAGE_SIZE 100 = Some (st, a) \<and> a \<noteq> 0 \<and> unat a mod 4096 \<noteq> 0"
proof -
  obtain st a where a: "malloc example_slabs 100 = Some (st, a)" "a \<noteq> 0" by (rule example_object)
  then have b: "aligned_alloc example_slabs PAGE_SIZE 100 = Some (st, a)" by (simp add: malloc_def aligned_alloc_def)
  then show ?thesis using aligned_alloc_misaligned[OF example_slabs_heap _ b a(2)] a(2) by (auto simp: MAX_SLAB_SIZE_def)
qed

lemma small_pools_allocate:
  assumes "heap_inv pools live" and "sz \<noteq> 0" and "unat sz + 4096 \<le> 2 ^ 64" and "buddy_allocate pools sz ty fl = Some (pools', a)" and "a \<noteq> 0" and "small_pools pools"
  shows "small_pools pools'"
proof -
  obtain p b q where q: "p < length pools" "pools' = pools[p := q]"
    "block_types q = (max_order (pools ! p), pages_start (pools ! p), pages_end (pools ! p), (map bb_type (pool_blocks (pools ! p)))[b := ty])"
    by (rule allocate_types[OF assms(1-5)])
  have "small_pools [pools ! p]" using assms(6) q(1) by (simp add: small_pools_def)
  then have "small_pools [q]" using q(3) by (simp add: small_pools_def block_types_def)
  then show ?thesis using assms(6) set_update_subset_insert[of pools p q] unfolding q(2) small_pools_def by auto
qed

text \<open>
  C18: \<^verbatim>\<open>realloc\<close> keeps the contents. In pools of at most a gibibyte, reallocating a live pointer returns, and
  when it returns memory, its first bytes up to the smaller of the two sizes are those of the old
  block.
\<close>

theorem realloc_keeps_contents:
  assumes "kernel_heap st live" and "small_pools (sl_pools st)" and "live ptr = Some (Malloc_Request, osz)"
    and "sz \<noteq> 0" and "unat sz + 4096 \<le> 2 ^ 64"
  shows "\<exists>st' m' q. realloc st m ptr sz = Some (st', m', q) \<and> (q \<noteq> 0 \<longrightarrow> (\<forall>i < min (unat osz) (unat sz). m' (q + of_nat i) = m (ptr + of_nat i)))"
proof -
  note t = malloc_type_found[OF assms(1,3)]
  obtain old where old: "(if malloc_type ptr = BLOCK_TYPE_PAGE then buddy_get_size (sl_pools st) ptr else slab_get_size st ptr) = Some old"
    "unat osz \<le> unat old" "unat ptr + unat old \<le> 2 ^ 64" "old > MAX_SLAB_SIZE \<longrightarrow> malloc_type ptr = BLOCK_TYPE_PAGE"
    by (rule malloc_size[OF assms(1,3,2)])
  have ty: "malloc_type ptr = BLOCK_TYPE_PAGE \<or> malloc_type ptr = BLOCK_TYPE_SLAB" by (simp add: malloc_type_def)
  show ?thesis
  proof (cases "old \<ge> sz \<and> old > MAX_SLAB_SIZE \<and> sz > MAX_SLAB_SIZE")
    case True
    then have p: "malloc_type ptr = BLOCK_TYPE_PAGE" using old(4) by blast
    from assms(1,3) obtain pg where "slab_inv st pg None" "pg ptr = Some ((BLOCK_TYPE_PAGE, 0), osz)"
      by (cases rule: malloc_held) (use p in auto)
    then have "page_heap (sl_pools st) pg" "pg ptr = Some ((BLOCK_TYPE_PAGE, 0), osz)" by (simp_all add: slab_inv_def)
    from buddy_reallocate_copies[OF this assms(4,5) _ old(3), of m] obtain pools' m' q where
      "buddy_reallocate (sl_pools st) m ptr sz = Some (pools', m', q)" "q \<noteq> 0 \<longrightarrow> (\<forall>i < unat sz. m' (q + of_nat i) = m (ptr + of_nat i))"
      using old(1) p True by auto
    then show ?thesis using True t assms(4) old(1) p by (simp add: realloc_def)
  next
    case False
    then have "realloc st m ptr sz = realloc_move st m (malloc_type ptr) old ptr sz" using t assms(4) old(1) ty by (auto simp: realloc_def)
    then show ?thesis using realloc_move_copies[OF assms(1,3,5) old(2,3), of m] by auto
  qed
qed

theorem realloc_keeps_contents_witness:
  "\<exists>st live ptr. kernel_heap st live \<and> live ptr = Some (Malloc_Request, 5000) \<and>
    (\<exists>st' m' q. realloc st (\<lambda>_. 7) ptr 300 = Some (st', m', q) \<and> (q \<noteq> 0 \<longrightarrow> (\<forall>i < 300. m' (q + of_nat i) = 7)))"
proof -
  have pools: "sl_pools example_slabs = init_pool [] 0x80000000 0x80008000 0" by (simp add: example_slabs_def kernel_heap_init_def init_kernel_slabs_def)
  obtain pools' a where p: "buddy_allocate (sl_pools example_slabs) 5000 BLOCK_TYPE_PAGE 0 = Some (pools', a)" "a \<noteq> 0"
    unfolding pools using example_page[of 5000] by blast
  let ?st = "example_slabs\<lparr>sl_pools := pools'\<rparr>"
  have "heap_request_ok Malloc_Request 5000" by (simp add: heap_request_ok_def)
  moreover have "heap_alloc Malloc_Request example_slabs 5000 = Some (?st, a)" using p(1) by (simp add: heap_alloc_def malloc_def malloc_locked_def MAX_SLAB_SIZE_def)
  ultimately have k: "kernel_heap ?st [a \<mapsto> (Malloc_Request, 5000)]" using kernel_heap_serve[OF example_slabs_heap] p(2) by fastforce
  have "small_pools (sl_pools example_slabs)" unfolding pools example_init small_pools_def
    by (simp add: r3.ready_fields meta_pages_def)
  moreover have "heap_inv (sl_pools example_slabs) Map.empty" using pools example_heap by simp
  ultimately have "small_pools (sl_pools ?st)" using small_pools_allocate[OF _ _ _ p] by simp
  then have "\<exists>st' m' q. realloc ?st (\<lambda>_. 7) a 300 = Some (st', m', q) \<and> (q \<noteq> 0 \<longrightarrow> (\<forall>i < 300. m' (q + of_nat i) = 7))"
    using realloc_keeps_contents[OF k, of a 5000 300 "\<lambda>_. 7"] by simp
  moreover have "[a \<mapsto> (Malloc_Request, 5000 :: u64)] a = Some (Malloc_Request, 5000)" by simp
  ultimately have "kernel_heap ?st [a \<mapsto> (Malloc_Request, 5000)] \<and> [a \<mapsto> (Malloc_Request, 5000 :: u64)] a = Some (Malloc_Request, 5000) \<and>
      (\<exists>st' m' q. realloc ?st (\<lambda>_. 7) a 300 = Some (st', m', q) \<and> (q \<noteq> 0 \<longrightarrow> (\<forall>i < 300. m' (q + of_nat i) = 7)))"
    using k by (simp only: simp_thms)
  then show ?thesis by blast
qed

end
