(* ===== verification/Page_Table.thy ===== *)
theory Page_Table
  imports Malloc
begin

text \<open>
  Page tables: the RISC-V entries of \<^verbatim>\<open>kernel/cpu/riscv/include/cpu/mmu.h\<close> and the tables of
  \<^verbatim>\<open>kernel/port/generic/src/memprotect.c\<close>. The entries in physical memory are a function from their
  physical addresses; new tables come from the page allocator through \<^verbatim>\<open>phys_page_alloc\<close>, whose
  \<open>mem_set\<close> acts on that function. A panic, and a failed \<^verbatim>\<open>assert_always\<close>, has no result; the
  developer assertions on the arguments are hypotheses of the lemmas.
\<close>

unbundle bit_operations_syntax

section \<open>Definitions\<close>

subsection \<open>Entries\<close>

record mmu_pte =
  pte_v :: bool
  pte_rwx :: "3 word"
  pte_u :: bool
  pte_g :: bool
  pte_a :: bool
  pte_d :: bool
  pte_rsw :: "2 word"
  pte_ppn :: "44 word"
  pte_reserved :: "7 word"
  pte_pbmt :: "2 word"
  pte_n :: bool

type_synonym pt_mem = "u64 \<Rightarrow> mmu_pte"

record mmu_config =
  mmu_levels :: nat
  mmu_hhdm_vaddr :: u64
  mmu_high_vaddr :: u64
  mmu_half_size :: u64
  mmu_svpbmt :: bool

definition MMU_PAGE_SIZE :: u64 where
  "MMU_PAGE_SIZE = 0x1000"

definition FLAG_W :: u32 where
  "FLAG_W = 2"

definition FLAG_R :: u32 where
  "FLAG_R = 1"

definition FLAG_RWX :: u32 where
  "FLAG_RWX = 7"

definition FLAG_GLOBAL :: u32 where
  "FLAG_GLOBAL = 0x10"

definition FLAG_KERNEL :: u32 where
  "FLAG_KERNEL = 0x20"

definition FLAG_IO :: u32 where
  "FLAG_IO = 0x40"

definition FLAG_NC :: u32 where
  "FLAG_NC = 0x80"

definition MMU_PTE_NULL :: mmu_pte where
  "MMU_PTE_NULL = \<lparr>pte_v = False, pte_rwx = 0, pte_u = False, pte_g = False, pte_a = False, pte_d = False, pte_rsw = 0, pte_ppn = 0,
     pte_reserved = 0, pte_pbmt = 0, pte_n = False\<rparr>"

definition mmu_half_pages :: "mmu_config \<Rightarrow> u64" where
  "mmu_half_pages cfg = mmu_half_size cfg div MMU_PAGE_SIZE"

definition mmu_high_vpn :: "mmu_config \<Rightarrow> u64" where
  "mmu_high_vpn cfg = mmu_high_vaddr cfg div MMU_PAGE_SIZE"

text \<open>The mode field of the \<^verbatim>\<open>satp\<close> register gives the number of levels.\<close>

definition mmu_early_init :: "nat \<Rightarrow> mmu_config \<Rightarrow> mmu_config" where
  "mmu_early_init satp_mode cfg =
     (let levels = satp_mode - 8 + 3; half = push_bit (11 + 9 * levels) 1
      in cfg\<lparr>mmu_levels := levels, mmu_half_size := half, mmu_high_vaddr := - half\<rparr>)"

definition mmu_vpn_part :: "u64 \<Rightarrow> nat \<Rightarrow> u64" where
  "mmu_vpn_part vpn pt_level = drop_bit (9 * pt_level) vpn AND 0x1FF"

definition mmu_pte_new_leaf :: "mmu_config \<Rightarrow> u64 \<Rightarrow> u32 \<Rightarrow> mmu_pte" where
  "mmu_pte_new_leaf cfg ppn flags =
     MMU_PTE_NULL\<lparr>pte_v := flags AND FLAG_RWX \<noteq> 0, pte_rwx := ucast (flags AND FLAG_RWX), pte_u := flags AND FLAG_KERNEL = 0,
       pte_g := flags AND FLAG_GLOBAL \<noteq> 0, pte_a := True, pte_d := True,
       pte_pbmt := (if mmu_svpbmt cfg \<and> flags AND FLAG_IO \<noteq> 0 then 2 else if mmu_svpbmt cfg \<and> flags AND FLAG_NC \<noteq> 0 then 1 else 0),
       pte_ppn := ucast ppn\<rparr>"

definition mmu_pte_new :: "u64 \<Rightarrow> mmu_pte" where
  "mmu_pte_new ppn = MMU_PTE_NULL\<lparr>pte_v := True, pte_ppn := ucast ppn\<rparr>"

definition mmu_pte_is_valid :: "mmu_pte \<Rightarrow> bool" where
  "mmu_pte_is_valid pte = pte_v pte"

definition mmu_pte_is_leaf :: "mmu_pte \<Rightarrow> bool" where
  "mmu_pte_is_leaf pte \<longleftrightarrow> pte_rwx pte \<noteq> 0"

definition mmu_pte_get_flags :: "mmu_pte \<Rightarrow> u32" where
  "mmu_pte_get_flags pte = ucast (pte_rwx pte) OR (of_bool (pte_g pte) * FLAG_GLOBAL) OR (of_bool (\<not> pte_u pte) * FLAG_KERNEL)"

definition mmu_pte_get_ppn :: "mmu_pte \<Rightarrow> u64" where
  "mmu_pte_get_ppn pte = ucast (pte_ppn pte)"

subsection \<open>Walking\<close>

record pt_walk_t =
  w_paddr :: u64
  w_pte :: mmu_pte
  w_level :: nat
  w_found :: bool
  w_vaddr_valid :: bool

definition pte_address :: "u64 \<Rightarrow> u64 \<Rightarrow> u64" where
  "pte_address pt_ppn i = pt_ppn * MMU_PAGE_SIZE + i * 8"

text \<open>
  The loop over the levels, with one more than the level of the table. The mask of the alignment
  check is an \<^verbatim>\<open>int\<close> shift, which is undefined from level 4 on.
\<close>

fun pt_walk_loop :: "pt_mem \<Rightarrow> u64 \<Rightarrow> u64 \<Rightarrow> nat \<Rightarrow> pt_walk_t option" where
  "pt_walk_loop m pt_ppn vpn 0 = None"
| "pt_walk_loop m pt_ppn vpn (Suc level) =
     (let pte_addr = pte_address pt_ppn (mmu_vpn_part vpn level); pte = m pte_addr; ppn = mmu_pte_get_ppn pte
      in if \<not> mmu_pte_is_valid pte
         then Some \<lparr>w_paddr = pte_addr, w_pte = pte, w_level = level, w_found = False, w_vaddr_valid = True\<rparr>
         else if mmu_pte_is_leaf pte
         then if level \<noteq> 0 \<and> (level > 3 \<or> ppn AND (push_bit (9 * level) 1 - 1) \<noteq> 0) then None
              else Some \<lparr>w_paddr = pte_addr, w_pte = pte, w_level = level, w_found = True, w_vaddr_valid = True\<rparr>
         else pt_walk_loop m ppn vpn level)"

definition pt_walk :: "mmu_config \<Rightarrow> pt_mem \<Rightarrow> u64 \<Rightarrow> u64 \<Rightarrow> pt_walk_t option" where
  "pt_walk cfg m pt_ppn vpn =
     (if vpn \<ge> mmu_half_pages cfg \<and> vpn < mmu_high_vpn cfg
      then Some \<lparr>w_paddr = 0, w_pte = MMU_PTE_NULL, w_level = 0, w_found = False, w_vaddr_valid = False\<rparr>
      else pt_walk_loop m pt_ppn vpn (mmu_levels cfg))"

subsection \<open>Mapping\<close>

record pt_state =
  pt_pools :: "memory_pool list"
  pt_ptes :: pt_mem

type_synonym pte_mem_set = "pt_mem \<Rightarrow> u64 \<Rightarrow> u8 \<Rightarrow> u64 \<Rightarrow> pt_mem"

definition mmu_write_pte :: "u64 \<Rightarrow> mmu_pte \<Rightarrow> pt_state \<Rightarrow> pt_state" where
  "mmu_write_pte pte_paddr pte st = st\<lparr>pt_ptes := (pt_ptes st)(pte_paddr := pte)\<rparr>"

text \<open>A new table, with the assertion that it was allocated.\<close>

definition pt_new_table :: "pte_mem_set \<Rightarrow> mmu_config \<Rightarrow> pt_state \<Rightarrow> (pt_state \<times> u64) option" where
  "pt_new_table mem_set cfg st =
     (case phys_page_alloc mem_set (mmu_hhdm_vaddr cfg) (pt_pools st) (pt_ptes st) 1 False of
        None \<Rightarrow> None
      | Some (pools, ptes, ppn) \<Rightarrow> if ppn = 0 then None else Some (\<lparr>pt_pools = pools, pt_ptes = ptes\<rparr>, ppn))"

definition pt_split :: "pte_mem_set \<Rightarrow> mmu_config \<Rightarrow> pt_state \<Rightarrow> u64 \<Rightarrow> mmu_pte \<Rightarrow> (pt_state \<times> u64) option" where
  "pt_split mem_set cfg st pte_paddr pte =
     (case pt_new_table mem_set cfg st of
        None \<Rightarrow> None
      | Some (st, next_pt) \<Rightarrow>
          let ppn = mmu_pte_get_ppn pte; flags = mmu_pte_get_flags pte;
              st = fold (\<lambda>i. mmu_write_pte (pte_address next_pt (of_nat i)) (mmu_pte_new_leaf cfg (ppn + of_nat i) flags)) [0..<512] st
          in Some (mmu_write_pte pte_paddr (mmu_pte_new next_pt) st, next_pt))"

text \<open>The loop of \<^verbatim>\<open>pt_map_1\<close> down to the level of the entry, and the write that follows it.\<close>

fun pt_map_loop :: "pte_mem_set \<Rightarrow> mmu_config \<Rightarrow> pt_state \<Rightarrow> u64 \<Rightarrow> nat \<Rightarrow> u64 \<Rightarrow> u64 \<Rightarrow> nat \<Rightarrow> u32 \<Rightarrow> nat \<Rightarrow> bool \<Rightarrow> (pt_state \<times> bool) option" where
  "pt_map_loop mem_set cfg st pt_ppn pt_level vpn ppn pte_level flags orig_pt_level top_edit =
     (if pte_level < pt_level then
        let pte_paddr = pte_address pt_ppn (mmu_vpn_part vpn pt_level); pte = pt_ptes st pte_paddr; edit = (orig_pt_level = pt_level)
        in if \<not> mmu_pte_is_valid pte then
             case pt_new_table mem_set cfg st of
               None \<Rightarrow> None
             | Some (st, next_pt) \<Rightarrow>
                 pt_map_loop mem_set cfg (mmu_write_pte pte_paddr (mmu_pte_new next_pt) st) next_pt (pt_level - 1) vpn ppn pte_level flags orig_pt_level (top_edit \<or> edit)
           else if mmu_pte_is_leaf pte then
             case pt_split mem_set cfg st pte_paddr pte of
               None \<Rightarrow> None
             | Some (st, next_pt) \<Rightarrow> pt_map_loop mem_set cfg st next_pt (pt_level - 1) vpn ppn pte_level flags orig_pt_level (top_edit \<or> edit)
           else pt_map_loop mem_set cfg st (mmu_pte_get_ppn pte) (pt_level - 1) vpn ppn pte_level flags orig_pt_level top_edit
      else Some (mmu_write_pte (pte_address pt_ppn (mmu_vpn_part vpn pte_level)) (mmu_pte_new_leaf cfg ppn flags) st, top_edit))"

declare pt_map_loop.simps [simp del]

definition pt_map_1 :: "pte_mem_set \<Rightarrow> mmu_config \<Rightarrow> pt_state \<Rightarrow> u64 \<Rightarrow> nat \<Rightarrow> u64 \<Rightarrow> u64 \<Rightarrow> nat \<Rightarrow> u32 \<Rightarrow> (pt_state \<times> bool) option" where
  "pt_map_1 mem_set cfg st pt_ppn pt_level vpn ppn pte_level flags =
     pt_map_loop mem_set cfg st pt_ppn pt_level vpn ppn pte_level flags pt_level (pt_level = pte_level)"

text \<open>The walk of \<^verbatim>\<open>pt_unmap_1\<close> indexes every table with the part of the page number for the level of the entry.\<close>

fun pt_unmap_loop :: "pte_mem_set \<Rightarrow> mmu_config \<Rightarrow> pt_state \<Rightarrow> u64 \<Rightarrow> nat \<Rightarrow> u64 \<Rightarrow> nat \<Rightarrow> nat \<Rightarrow> bool \<Rightarrow> (pt_state \<times> bool) option" where
  "pt_unmap_loop mem_set cfg st pt_ppn pt_level vpn pte_level orig_pt_level top_edit =
     (let pte_paddr = pte_address pt_ppn (mmu_vpn_part vpn pte_level)
      in if pte_level < pt_level then
           let pte = pt_ptes st pte_paddr
           in if \<not> mmu_pte_is_valid pte then Some (st, top_edit)
              else if mmu_pte_is_leaf pte then
                case pt_split mem_set cfg st pte_paddr pte of
                  None \<Rightarrow> None
                | Some (st, next_pt) \<Rightarrow> pt_unmap_loop mem_set cfg st next_pt (pt_level - 1) vpn pte_level orig_pt_level (top_edit \<or> orig_pt_level = pt_level)
              else pt_unmap_loop mem_set cfg st (mmu_pte_get_ppn pte) (pt_level - 1) vpn pte_level orig_pt_level top_edit
         else Some (mmu_write_pte pte_paddr MMU_PTE_NULL st, top_edit))"

declare pt_unmap_loop.simps [simp del]

definition pt_unmap_1 :: "pte_mem_set \<Rightarrow> mmu_config \<Rightarrow> pt_state \<Rightarrow> u64 \<Rightarrow> nat \<Rightarrow> u64 \<Rightarrow> nat \<Rightarrow> (pt_state \<times> bool) option" where
  "pt_unmap_1 mem_set cfg st pt_ppn pt_level vpn pte_level =
     pt_unmap_loop mem_set cfg st pt_ppn pt_level vpn pte_level pt_level (pt_level = pte_level)"

fun pt_calc_superpage :: "nat \<Rightarrow> u64 \<Rightarrow> u64 \<Rightarrow> u64 \<Rightarrow> nat" where
  "pt_calc_superpage 0 vpn ppn max_len = 0"
| "pt_calc_superpage (Suc i) vpn ppn max_len =
     (let super_len = push_bit (9 * Suc i) 1
      in if vpn AND (super_len - 1) = 0 \<and> ppn AND (super_len - 1) = 0 \<and> max_len \<ge> super_len then Suc i
         else pt_calc_superpage i vpn ppn max_len)"

lemma pt_calc_superpage_fits: "pages \<noteq> 0 \<Longrightarrow> push_bit (9 * pt_calc_superpage l vpn ppn pages) 1 \<le> pages"
proof (induction l)
  case 0
  then show ?case by (simp add: word_le_nat_alt unat_gt_0 Suc_le_eq)
qed (auto simp: Let_def)

text \<open>
  The loops over the pages. A level of 8 or more would make \<open>super_len\<close> 0 and the loop endless, which
  is no result; the hardware has at most 5.
\<close>

function pt_map_pages :: "pte_mem_set \<Rightarrow> mmu_config \<Rightarrow> pt_state \<Rightarrow> u64 \<Rightarrow> nat \<Rightarrow> u64 \<Rightarrow> u64 \<Rightarrow> u64 \<Rightarrow> u32 \<Rightarrow> bool \<Rightarrow> (pt_state \<times> bool) option" where
  "pt_map_pages mem_set cfg st pt_ppn pt_level vpn ppn pages flags top_edit =
     (if pages = 0 then Some (st, top_edit)
      else
        let pte_level = pt_calc_superpage pt_level vpn ppn pages; super_len = push_bit (9 * pte_level) 1
        in if super_len = 0 then None
           else case pt_map_1 mem_set cfg st pt_ppn pt_level vpn ppn pte_level flags of
                  None \<Rightarrow> None
                | Some (st, edit) \<Rightarrow>
                    pt_map_pages mem_set cfg st pt_ppn pt_level (vpn + super_len) (ppn + super_len) (pages - super_len) flags (top_edit \<or> edit))"
  by pat_completeness auto
termination
proof (relation "measure (\<lambda>(_, _, _, _, _, _, _, pages, _). unat pages)")
  fix cfg :: mmu_config and st :: pt_state and vpn ppn pages :: u64 and pt_level x and super_len :: u64 and r :: "pt_state \<times> bool" and st' edit
    and mem_set :: pte_mem_set and pt_ppn flags top_edit
  assume "pages \<noteq> 0" "x = pt_calc_superpage pt_level vpn ppn pages" "super_len = push_bit (9 * x) 1" "super_len \<noteq> 0"
  then have "super_len \<le> pages" "0 < unat super_len" using pt_calc_superpage_fits by (simp_all add: unat_gt_0)
  then show "((mem_set, cfg, st', pt_ppn, pt_level, vpn + super_len, ppn + super_len, pages - super_len, flags, top_edit \<or> edit),
      mem_set, cfg, st, pt_ppn, pt_level, vpn, ppn, pages, flags, top_edit) \<in> measure (\<lambda>(_, _, _, _, _, _, _, pages, _). unat pages)"
    by (simp add: unat_sub_small word_le_nat_alt)
qed simp

declare pt_map_pages.simps [simp del]

definition pt_map :: "pte_mem_set \<Rightarrow> mmu_config \<Rightarrow> pt_state \<Rightarrow> u64 \<Rightarrow> nat \<Rightarrow> u64 \<Rightarrow> u64 \<Rightarrow> u64 \<Rightarrow> u32 \<Rightarrow> (pt_state \<times> bool) option" where
  "pt_map mem_set cfg st pt_ppn pt_level vpn ppn pages flags = pt_map_pages mem_set cfg st pt_ppn pt_level vpn ppn pages flags False"

function pt_unmap_pages :: "pte_mem_set \<Rightarrow> mmu_config \<Rightarrow> pt_state \<Rightarrow> u64 \<Rightarrow> nat \<Rightarrow> u64 \<Rightarrow> u64 \<Rightarrow> bool \<Rightarrow> (pt_state \<times> bool) option" where
  "pt_unmap_pages mem_set cfg st pt_ppn pt_level vpn pages top_edit =
     (if pages = 0 then Some (st, top_edit)
      else
        let pte_level = pt_calc_superpage pt_level vpn 0 pages; super_len = push_bit (9 * pte_level) 1
        in if super_len = 0 then None
           else case pt_unmap_1 mem_set cfg st pt_ppn pt_level vpn pte_level of
                  None \<Rightarrow> None
                | Some (st, edit) \<Rightarrow> pt_unmap_pages mem_set cfg st pt_ppn pt_level (vpn + super_len) (pages - super_len) (top_edit \<or> edit))"
  by pat_completeness auto
termination
proof (relation "measure (\<lambda>(_, _, _, _, _, _, pages, _). unat pages)")
  fix cfg :: mmu_config and st :: pt_state and vpn pages :: u64 and pt_level x and super_len :: u64 and r :: "pt_state \<times> bool" and st' edit
    and mem_set :: pte_mem_set and pt_ppn top_edit
  assume "pages \<noteq> 0" "x = pt_calc_superpage pt_level vpn 0 pages" "super_len = push_bit (9 * x) 1" "super_len \<noteq> 0"
  then have "super_len \<le> pages" "0 < unat super_len" using pt_calc_superpage_fits by (simp_all add: unat_gt_0)
  then show "((mem_set, cfg, st', pt_ppn, pt_level, vpn + super_len, pages - super_len, top_edit \<or> edit),
      mem_set, cfg, st, pt_ppn, pt_level, vpn, pages, top_edit) \<in> measure (\<lambda>(_, _, _, _, _, _, pages, _). unat pages)"
    by (simp add: unat_sub_small word_le_nat_alt)
qed simp

declare pt_unmap_pages.simps [simp del]

definition pt_unmap :: "pte_mem_set \<Rightarrow> mmu_config \<Rightarrow> pt_state \<Rightarrow> u64 \<Rightarrow> nat \<Rightarrow> u64 \<Rightarrow> u64 \<Rightarrow> (pt_state \<times> bool) option" where
  "pt_unmap mem_set cfg st pt_ppn pt_level vpn pages = pt_unmap_pages mem_set cfg st pt_ppn pt_level vpn pages False"

text \<open>Copies the valid entries of the upper half of a top-level table.\<close>

definition broadcast_to :: "u64 \<Rightarrow> u64 \<Rightarrow> pt_state \<Rightarrow> pt_state" where
  "broadcast_to dest_pt_ppn src_pt_ppn st =
     fold (\<lambda>i st. let pte = pt_ptes st (pte_address src_pt_ppn (of_nat i))
                  in if mmu_pte_is_valid pte then mmu_write_pte (pte_address dest_pt_ppn (of_nat i)) pte st else st) [256..<512] st"

subsection \<open>The memory protection interface\<close>

record virt2phys_t =
  vp_flags :: u32
  vp_paddr :: u64
  vp_page_vaddr :: u64
  vp_page_paddr :: u64
  vp_page_size :: u64

definition memprotect_virt2phys :: "mmu_config \<Rightarrow> pt_mem \<Rightarrow> u64 \<Rightarrow> u64 \<Rightarrow> virt2phys_t option" where
  "memprotect_virt2phys cfg m root_ppn vaddr =
     (let none = \<lparr>vp_flags = 0, vp_paddr = 0, vp_page_vaddr = 0, vp_page_paddr = 0, vp_page_size = 0\<rparr>
      in if vaddr \<ge> mmu_half_size cfg \<and> vaddr < mmu_high_vaddr cfg then Some none
         else case pt_walk cfg m root_ppn (vaddr div MMU_PAGE_SIZE) of
                None \<Rightarrow> None
              | Some walk \<Rightarrow>
                  if w_found walk then
                    let page_size = push_bit (9 * w_level walk) MMU_PAGE_SIZE; page_paddr = mmu_pte_get_ppn (w_pte walk) * MMU_PAGE_SIZE
                    in Some \<lparr>vp_flags = mmu_pte_get_flags (w_pte walk), vp_paddr = page_paddr + (vaddr AND (page_size - 1)),
                             vp_page_vaddr = vaddr AND NOT (page_size - 1), vp_page_paddr = page_paddr, vp_page_size = page_size\<rparr>
                  else Some none)"

text \<open>The contexts are known by their root tables; the list holds all but the global one.\<close>

record mmu_state =
  mm_pt :: pt_state
  mm_global :: u64
  mm_ctx_list :: "u64 list"

type_synonym pte_mem_copy = "pt_mem \<Rightarrow> u64 \<Rightarrow> u64 \<Rightarrow> u64 \<Rightarrow> pt_mem"

definition memprotect_create :: "pte_mem_set \<Rightarrow> pte_mem_copy \<Rightarrow> mmu_config \<Rightarrow> mmu_state \<Rightarrow> (mmu_state \<times> u64) option" where
  "memprotect_create mem_set mem_copy cfg st =
     (case pt_new_table mem_set cfg (mm_pt st) of
        None \<Rightarrow> None
      | Some (pt, root_ppn) \<Rightarrow>
          let src_vaddr = mmu_hhdm_vaddr cfg + mm_global st * MMU_PAGE_SIZE; dest_vaddr = mmu_hhdm_vaddr cfg + root_ppn * MMU_PAGE_SIZE
          in Some (st\<lparr>mm_pt := pt\<lparr>pt_ptes := mem_copy (pt_ptes pt) dest_vaddr src_vaddr MMU_PAGE_SIZE\<rparr>, mm_ctx_list := mm_ctx_list st @ [root_ppn]\<rparr>, root_ppn))"

definition memprotect_destroy :: "u64 \<Rightarrow> mmu_state \<Rightarrow> mmu_state" where
  "memprotect_destroy root_ppn st = st\<lparr>mm_ctx_list := remove1 root_ppn (mm_ctx_list st)\<rparr>"

definition memprotect_impl :: "pte_mem_set \<Rightarrow> mmu_config \<Rightarrow> mmu_state \<Rightarrow> u64 \<Rightarrow> u64 \<Rightarrow> u64 \<Rightarrow> u64 \<Rightarrow> u32 \<Rightarrow> mmu_state option" where
  "memprotect_impl mem_set cfg st root_ppn vpn ppn pages flags =
     (let flags = (if flags AND FLAG_W \<noteq> 0 then flags OR FLAG_R else flags)
      in case (if flags AND FLAG_RWX \<noteq> 0 then pt_map mem_set cfg (mm_pt st) root_ppn (mmu_levels cfg - 1) vpn ppn pages flags
               else pt_unmap mem_set cfg (mm_pt st) root_ppn (mmu_levels cfg - 1) vpn pages) of
           None \<Rightarrow> None
         | Some (pt, top_mod) \<Rightarrow>
             Some (st\<lparr>mm_pt := if top_mod \<and> flags AND FLAG_GLOBAL \<noteq> 0 then fold (\<lambda>root. broadcast_to (mm_global st) root) (mm_ctx_list st) pt else pt\<rparr>))"

text \<open>The result is \<^verbatim>\<open>false\<close> when the request is rejected.\<close>

definition memprotect_u :: "pte_mem_set \<Rightarrow> mmu_config \<Rightarrow> mmu_state \<Rightarrow> u64 \<Rightarrow> u64 \<Rightarrow> u64 \<Rightarrow> u64 \<Rightarrow> u32 \<Rightarrow> (mmu_state \<times> bool) option" where
  "memprotect_u mem_set cfg st root_ppn vaddr paddr len flags =
     (if (vaddr OR paddr OR len) mod MMU_PAGE_SIZE \<noteq> 0 then Some (st, False)
      else
        let vpn = vaddr div MMU_PAGE_SIZE; ppn = paddr div MMU_PAGE_SIZE; pages = len div MMU_PAGE_SIZE
        in if vpn + pages > mmu_half_pages cfg then Some (st, False)
           else map_option (\<lambda>st. (st, True)) (memprotect_impl mem_set cfg st root_ppn vpn ppn pages (flags AND NOT (FLAG_GLOBAL OR FLAG_KERNEL))))"

definition memprotect_k :: "pte_mem_set \<Rightarrow> mmu_config \<Rightarrow> mmu_state \<Rightarrow> u64 \<Rightarrow> u64 \<Rightarrow> u64 \<Rightarrow> u32 \<Rightarrow> (mmu_state \<times> bool) option" where
  "memprotect_k mem_set cfg st vaddr paddr len flags =
     (if (vaddr OR paddr OR len) mod MMU_PAGE_SIZE \<noteq> 0 then Some (st, False)
      else
        let vpn = vaddr div MMU_PAGE_SIZE; ppn = paddr div MMU_PAGE_SIZE; pages = len div MMU_PAGE_SIZE
        in if vpn < mmu_high_vpn cfg \<or> vpn + pages > mmu_high_vpn cfg + mmu_half_pages cfg then Some (st, False)
           else map_option (\<lambda>st. (st, True)) (memprotect_impl mem_set cfg st (mm_global st) vpn ppn pages (flags OR FLAG_GLOBAL OR FLAG_KERNEL)))"

section \<open>Trees of tables\<close>

text \<open>
  Below, \<open>n\<close> is one more than the level of the entries of a table, so a table of the lowest level
  has \<open>n = 1\<close>. Page numbers and indices are natural numbers: the index of a page in the space that \<open>n\<close>
  levels span.
\<close>

abbreviation slot :: "u64 \<Rightarrow> nat \<Rightarrow> u64" where
  "slot p i \<equiv> pte_address p (of_nat i)"

abbreviation sub :: "mmu_pte \<Rightarrow> u64" where
  "sub e \<equiv> mmu_pte_get_ppn e"

definition inner :: "mmu_pte \<Rightarrow> bool" where
  "inner e \<longleftrightarrow> mmu_pte_is_valid e \<and> \<not> mmu_pte_is_leaf e"

definition leaf :: "mmu_pte \<Rightarrow> bool" where
  "leaf e \<longleftrightarrow> mmu_pte_is_valid e \<and> mmu_pte_is_leaf e"

text \<open>The tables of a tree, and what makes it one: no table is shared, and leaves are aligned and at
  most three levels up, where \<^verbatim>\<open>pt_walk\<close> checks their alignment with a defined shift.\<close>

fun tabs :: "pt_mem \<Rightarrow> u64 \<Rightarrow> nat \<Rightarrow> u64 set" where
  "tabs m p 0 = {}"
| "tabs m p (Suc l) = insert p (\<Union>i \<in> {i. i < 512 \<and> inner (m (slot p i))}. tabs m (sub (m (slot p i))) l)"

fun pt_ok :: "pt_mem \<Rightarrow> u64 \<Rightarrow> nat \<Rightarrow> bool" where
  "pt_ok m p 0 = False"
| "pt_ok m p (Suc l) \<longleftrightarrow> unat p < 2 ^ 44 \<and>
     (\<forall>i < 512. leaf (m (slot p i)) \<longrightarrow> l \<le> 3 \<and> 2 ^ (9 * l) dvd unat (sub (m (slot p i)))) \<and>
     (\<forall>i < 512. inner (m (slot p i)) \<longrightarrow> pt_ok m (sub (m (slot p i))) l \<and> p \<notin> tabs m (sub (m (slot p i))) l \<and>
        (\<forall>j < 512. inner (m (slot p j)) \<and> j \<noteq> i \<longrightarrow> tabs m (sub (m (slot p i))) l \<inter> tabs m (sub (m (slot p j))) l = {}))"

text \<open>What the page with index \<open>x\<close> is mapped to.\<close>

fun look :: "pt_mem \<Rightarrow> u64 \<Rightarrow> nat \<Rightarrow> nat \<Rightarrow> (nat \<times> u32) option" where
  "look m p 0 x = None"
| "look m p (Suc l) x =
     (let e = m (slot p (x div 2 ^ (9 * l) mod 512))
      in if inner e then look m (sub e) l x
         else if leaf e then Some (unat (sub e) + x mod 2 ^ (9 * l), mmu_pte_get_flags e) else None)"

text \<open>Whether that mapping is a leaf of more than 2 MiB, which \<^verbatim>\<open>pt_split\<close> cannot split.\<close>

fun huge :: "pt_mem \<Rightarrow> u64 \<Rightarrow> nat \<Rightarrow> nat \<Rightarrow> bool" where
  "huge m p 0 x = False"
| "huge m p (Suc l) x =
     (let e = m (slot p (x div 2 ^ (9 * l) mod 512)) in if inner e then huge m (sub e) l x else leaf e \<and> 2 \<le> l)"

text \<open>Both at once.\<close>

fun view :: "pt_mem \<Rightarrow> u64 \<Rightarrow> nat \<Rightarrow> nat \<Rightarrow> (nat \<times> u32) option \<times> bool" where
  "view m p 0 x = (None, False)"
| "view m p (Suc l) x =
     (let e = m (slot p (x div 2 ^ (9 * l) mod 512))
      in if inner e then view m (sub e) l x
         else if leaf e then (Some (unat (sub e) + x mod 2 ^ (9 * l), mmu_pte_get_flags e), 2 \<le> l) else (None, False))"

lemma look_view: "look m p n x = fst (view m p n x)"
  by (induction n arbitrary: p) (simp_all add: Let_def)

lemma huge_view: "huge m p n x = snd (view m p n x)"
  by (induction n arbitrary: p) (simp_all add: Let_def)

lemma inner_not_leaf: "inner e \<Longrightarrow> \<not> leaf e"
  by (simp add: inner_def leaf_def)

lemma unat_sub_pte: "unat (sub e) < 2 ^ 44"
  unfolding mmu_pte_get_ppn_def using unat_ucast_widen[of "pte_ppn e", where 'b = 64] unat_less[of "pte_ppn e"] by simp

section \<open>Addresses of entries\<close>

lemma unat_pte_address:
  assumes "unat p < 2 ^ 44" and "i < 512"
  shows "unat (slot p i) = unat p * 4096 + i * 8"
proof -
  have "unat p * 4096 + i * 8 < 2 ^ LENGTH(64)" using assms by simp
  moreover have "slot p i = of_nat (unat p * 4096 + i * 8)" by (simp add: pte_address_def MMU_PAGE_SIZE_def)
  ultimately show ?thesis using unat_of_nat_small by metis
qed

lemma slot_inj:
  assumes "unat p < 2 ^ 44" and "i < 512" and "unat q < 2 ^ 44" and "j < 512" and "slot p i = slot q j"
  shows "p = q" and "i = j"
proof -
  have e: "unat p * 4096 + i * 8 = unat q * 4096 + j * 8"
    using unat_pte_address[OF assms(1,2)] unat_pte_address[OF assms(3,4)] assms(5) by simp
  have "(unat p * 4096 + i * 8) div 4096 = unat p" "(unat q * 4096 + j * 8) div 4096 = unat q" using assms(2,4) by simp_all
  then have "unat p = unat q" using e by simp
  then show "p = q" "i = j" using e by (simp_all add: word_unat_eq_iff)
qed

lemma tabs_small: "pt_ok m p n \<Longrightarrow> t \<in> tabs m p n \<Longrightarrow> unat t < 2 ^ 44"
proof (induction n arbitrary: p)
  case (Suc l)
  then show ?case by auto
qed simp

section \<open>Frames\<close>

text \<open>A tree depends on the entries of its tables only.\<close>

definition agree :: "pt_mem \<Rightarrow> pt_mem \<Rightarrow> u64 set \<Rightarrow> bool" where
  "agree m m' T \<longleftrightarrow> (\<forall>t \<in> T. \<forall>i < 512. m' (slot t i) = m (slot t i))"

lemma agreeD: "agree m m' T \<Longrightarrow> t \<in> T \<Longrightarrow> i < 512 \<Longrightarrow> m' (slot t i) = m (slot t i)"
  by (simp add: agree_def)

lemma agree_mono: "agree m m' T \<Longrightarrow> S \<subseteq> T \<Longrightarrow> agree m m' S"
  by (auto simp: agree_def)

lemma agree_trans: "agree m m' T \<Longrightarrow> agree m' m'' T \<Longrightarrow> agree m m'' T"
  by (simp add: agree_def)

lemma tabs_frame: "agree m m' (tabs m p n) \<Longrightarrow> tabs m' p n = tabs m p n"
proof (induction n arbitrary: p)
  case (Suc l)
  have e: "m' (slot p i) = m (slot p i)" if "i < 512" for i using agreeD[OF Suc.prems, of p i] that by simp
  have "tabs m' (sub (m (slot p i))) l = tabs m (sub (m (slot p i))) l" if "i < 512" "inner (m (slot p i))" for i
    by (rule Suc.IH, rule agree_mono[OF Suc.prems]) (use that in auto)
  then show ?case using e by auto
qed simp

lemma pt_ok_frame: "agree m m' (tabs m p n) \<Longrightarrow> pt_ok m p n \<Longrightarrow> pt_ok m' p n"
proof (induction n arbitrary: p)
  case (Suc l)
  have e: "m' (slot p i) = m (slot p i)" if "i < 512" for i using agreeD[OF Suc.prems(1), of p i] that by simp
  have a: "agree m m' (tabs m (sub (m (slot p i))) l)" if "i < 512" "inner (m (slot p i))" for i
    by (rule agree_mono[OF Suc.prems(1)]) (use that in auto)
  have t: "tabs m' (sub (m (slot p i))) l = tabs m (sub (m (slot p i))) l" if "i < 512" "inner (m (slot p i))" for i
    by (rule tabs_frame[OF a[OF that]])
  have "pt_ok m' (sub (m (slot p i))) l" if "i < 512" "inner (m (slot p i))" for i
    using Suc.IH[OF a[OF that]] Suc.prems(2) that by simp
  then show ?case using Suc.prems(2) e t by simp
qed simp

lemma view_frame: "agree m m' (tabs m p n) \<Longrightarrow> view m' p n x = view m p n x"
proof (induction n arbitrary: p)
  case (Suc l)
  let ?i = "x div 2 ^ (9 * l) mod 512"
  have i: "?i < 512" by simp
  have e: "m' (slot p ?i) = m (slot p ?i)" using agreeD[OF Suc.prems, of p ?i] i by simp
  have "view m' (sub (m (slot p ?i))) l x = view m (sub (m (slot p ?i))) l x" if "inner (m (slot p ?i))"
    by (rule Suc.IH, rule agree_mono[OF Suc.prems]) (use that i in auto)
  then show ?case using e by (simp add: Let_def)
qed simp

text \<open>One entry of a table changes, and with it the tree below that entry.\<close>

lemma replace_entry:
  assumes ok: "pt_ok m p (Suc l)" and i: "i < 512"
    and same: "\<And>j. j < 512 \<Longrightarrow> j \<noteq> i \<Longrightarrow> m' (slot p j) = m (slot p j)"
    and rest: "\<And>j. j < 512 \<Longrightarrow> j \<noteq> i \<Longrightarrow> inner (m (slot p j)) \<Longrightarrow> agree m m' (tabs m (sub (m (slot p j))) l)"
    and leaf: "leaf (m' (slot p i)) \<Longrightarrow> l \<le> 3 \<and> 2 ^ (9 * l) dvd unat (sub (m' (slot p i)))"
    and inner: "inner (m' (slot p i)) \<Longrightarrow> pt_ok m' (sub (m' (slot p i))) l \<and> p \<notin> tabs m' (sub (m' (slot p i))) l \<and>
      (\<forall>j < 512. j \<noteq> i \<and> inner (m (slot p j)) \<longrightarrow> tabs m' (sub (m' (slot p i))) l \<inter> tabs m (sub (m (slot p j))) l = {})"
  shows "pt_ok m' p (Suc l)"
    and "tabs m' p (Suc l) \<subseteq> tabs m p (Suc l) \<union> (if inner (m' (slot p i)) then tabs m' (sub (m' (slot p i))) l else {})"
    and "view m' p (Suc l) x =
      (if x div 2 ^ (9 * l) mod 512 = i then
         (if inner (m' (slot p i)) then view m' (sub (m' (slot p i))) l x
          else if leaf (m' (slot p i)) then (Some (unat (sub (m' (slot p i))) + x mod 2 ^ (9 * l), mmu_pte_get_flags (m' (slot p i))), 2 \<le> l) else (None, False))
       else view m p (Suc l) x)"
proof -
  have t: "tabs m' (sub (m (slot p j))) l = tabs m (sub (m (slot p j))) l" if "j < 512" "j \<noteq> i" "inner (m (slot p j))" for j
    by (rule tabs_frame[OF rest[OF that]])
  have k: "pt_ok m' (sub (m (slot p j))) l" if "j < 512" "j \<noteq> i" "inner (m (slot p j))" for j
    using pt_ok_frame[OF rest[OF that]] ok that by simp
  show "pt_ok m' p (Suc l)"
    unfolding pt_ok.simps
  proof (intro conjI allI impI; (elim conjE)?)
    fix j :: nat assume j: "j < 512"
    show "l \<le> 3" "2 ^ (9 * l) dvd unat (sub (m' (slot p j)))" if "leaf (m' (slot p j))"
      using that leaf same[OF j] ok j by (cases "j = i"; simp)+
    assume jn: "inner (m' (slot p j))"
    show "pt_ok m' (sub (m' (slot p j))) l" using jn inner k[OF j] same[OF j] by (cases "j = i") simp_all
    show "p \<notin> tabs m' (sub (m' (slot p j))) l" using jn inner t[OF j] same[OF j] ok j by (cases "j = i") simp_all
    fix h :: nat assume h: "h < 512" "inner (m' (slot p h))" "h \<noteq> j"
    show "tabs m' (sub (m' (slot p j))) l \<inter> tabs m' (sub (m' (slot p h))) l = {}"
    proof -
      have new: "tabs m' (sub (m' (slot p i))) l \<inter> tabs m' (sub (m' (slot p b))) l = {}" if "b < 512" "b \<noteq> i" "inner (m' (slot p i))" "inner (m' (slot p b))" for b
        using that inner t[OF that(1,2)] same[OF that(1,2)] by simp
      consider "j = i" | "h = i" | "j \<noteq> i" "h \<noteq> i" by blast
      then show ?thesis
      proof cases
        case 1
        then show ?thesis using new[OF h(1)] h jn by simp
      next
        case 2
        then show ?thesis using new[OF j] h jn by (simp add: Int_commute)
      next
        case 3
        then show ?thesis using jn h t[OF j] t[OF h(1)] same[OF j] same[OF h(1)] ok j by simp
      qed
    qed
  qed (use ok in simp)
  show "tabs m' p (Suc l) \<subseteq> tabs m p (Suc l) \<union> (if inner (m' (slot p i)) then tabs m' (sub (m' (slot p i))) l else {})"
  proof
    fix z assume "z \<in> tabs m' p (Suc l)"
    then consider "z = p" | j where "j < 512" "inner (m' (slot p j))" "z \<in> tabs m' (sub (m' (slot p j))) l" by auto
    then show "z \<in> tabs m p (Suc l) \<union> (if inner (m' (slot p i)) then tabs m' (sub (m' (slot p i))) l else {})"
    proof cases
      case (2 j)
      then show ?thesis using same[of j] t[of j] by (cases "j = i") auto
    qed simp
  qed
  let ?x = "x div 2 ^ (9 * l) mod 512"
  have "view m' p (Suc l) x = view m p (Suc l) x" if "?x \<noteq> i"
    using same[of ?x] that view_frame[OF rest[of ?x], of x] by (simp add: Let_def)
  then show "view m' p (Suc l) x =
      (if x div 2 ^ (9 * l) mod 512 = i then
         (if inner (m' (slot p i)) then view m' (sub (m' (slot p i))) l x
          else if leaf (m' (slot p i)) then (Some (unat (sub (m' (slot p i))) + x mod 2 ^ (9 * l), mmu_pte_get_flags (m' (slot p i))), 2 \<le> l) else (None, False))
       else view m p (Suc l) x)"
    by (simp add: Let_def)
qed

section \<open>New tables\<close>

text \<open>The physical pages that the page allocator has handed out, and its pools inside the direct map.\<close>

definition used_pages :: "mmu_config \<Rightarrow> (block_type \<times> u32) allocations \<Rightarrow> u64 set" where
  "used_pages cfg pg = {t. unat t < 2 ^ 44 \<and> mmu_hhdm_vaddr cfg + t * MMU_PAGE_SIZE \<in> dom pg}"

definition in_hhdm :: "mmu_config \<Rightarrow> memory_pool list \<Rightarrow> bool" where
  "in_hhdm cfg pools \<longleftrightarrow> unat (mmu_hhdm_vaddr cfg) mod 4096 = 0 \<and> (\<forall>pool \<in> set pools. unat (mmu_hhdm_vaddr cfg) \<le> unat (pages_start pool) \<and> unat (pages_end pool) \<le> unat (mmu_hhdm_vaddr cfg) + 2 ^ 56)"

definition pt_heap :: "mmu_config \<Rightarrow> pt_state \<Rightarrow> (block_type \<times> u32) allocations \<Rightarrow> bool" where
  "pt_heap cfg st pg \<longleftrightarrow> page_heap (pt_pools st) pg \<and> in_hhdm cfg (pt_pools st)"

lemma in_hhdm_allocate:
  assumes "heap_inv pools live" and "sz \<noteq> 0" and "unat sz + 4096 \<le> 2 ^ 64" and "buddy_allocate pools sz ty fl = Some (pools', a)" and "a \<noteq> 0" and "in_hhdm cfg pools"
  shows "in_hhdm cfg pools'"
proof -
  obtain p b q where q: "p < length pools" "pools' = pools[p := q]"
    "block_types q = (max_order (pools ! p), pages_start (pools ! p), pages_end (pools ! p), (map bb_type (pool_blocks (pools ! p)))[b := ty])"
    by (rule allocate_types[OF assms(1-5)])
  have "in_hhdm cfg [pools ! p]" using assms(6) q(1) by (simp add: in_hhdm_def)
  then have "in_hhdm cfg [q]" using q(3) by (simp add: in_hhdm_def block_types_def)
  then show ?thesis using assms(6) set_update_subset_insert[of pools p q] unfolding q(2) in_hhdm_def by auto
qed

text \<open>
  What is relied on of \<open>mem_set\<close>: clearing memory in the direct map makes the entries there null.
\<close>

locale pte_memory =
  fixes mem_set :: pte_mem_set and cfg :: mmu_config
  assumes clears: "mem_set m a 0 n pa = (if unat (pa + mmu_hhdm_vaddr cfg - a) < unat n then MMU_PTE_NULL else m pa)"
begin

lemma phys_page:
  assumes "unat (mmu_hhdm_vaddr cfg) \<le> unat a" and "unat a < unat (mmu_hhdm_vaddr cfg) + 2 ^ 56" and "unat a mod 4096 = 0"
    and hhdm_aligned: "unat (mmu_hhdm_vaddr cfg) mod 4096 = 0"
  defines "t \<equiv> (a - mmu_hhdm_vaddr cfg) div PAGE_SIZE"
  shows "unat t < 2 ^ 44" and "mmu_hhdm_vaddr cfg + t * MMU_PAGE_SIZE = a"
proof -
  let ?h = "mmu_hhdm_vaddr cfg"
  have d: "unat (a - ?h) = unat a - unat ?h" using assms(1) by (simp add: unat_sub_small word_le_nat_alt)
  have t: "unat t = (unat a - unat ?h) div 4096" unfolding t_def unat_div d by (simp add: PAGE_SIZE_def)
  have "unat a - unat ?h < 2 ^ 56" using assms(1,2) by (simp add: less_diff_conv2)
  then show "unat t < 2 ^ 44" unfolding t by (simp add: less_mult_imp_div_less)
  have "(unat a - unat ?h) mod 4096 = 0" using assms(1,3) hhdm_aligned by (metis dvd_diff_nat mod_eq_0_iff_dvd)
  then have "(unat a - unat ?h) div 4096 * 4096 = unat a - unat ?h" by auto
  then have "of_nat (unat t * 4096) = a - ?h" unfolding t using d by (metis of_nat_unat_id)
  then have "t * MMU_PAGE_SIZE = a - ?h" by (simp add: MMU_PAGE_SIZE_def)
  then show "?h + t * MMU_PAGE_SIZE = a" by simp
qed

lemma page_address_inj:
  assumes "unat t < 2 ^ 44" and "unat t' < 2 ^ 44" and "mmu_hhdm_vaddr cfg + t * MMU_PAGE_SIZE = mmu_hhdm_vaddr cfg + t' * MMU_PAGE_SIZE"
  shows "t = t'"
proof -
  have "slot t 0 = slot t' 0" using assms(3) by (simp add: pte_address_def)
  then show ?thesis using slot_inj(1)[OF assms(1) _ assms(2), of 0 0] by simp
qed

lemma cleared_slots:
  assumes "unat t < 2 ^ 44" and "unat q < 2 ^ 44" and "i < 512"
  shows "mem_set m (mmu_hhdm_vaddr cfg + t * MMU_PAGE_SIZE) 0 PAGE_SIZE (slot q i) = (if q = t then MMU_PTE_NULL else m (slot q i))"
proof -
  have e: "slot q i + mmu_hhdm_vaddr cfg - (mmu_hhdm_vaddr cfg + t * MMU_PAGE_SIZE) = slot q i - slot t 0" by (simp add: pte_address_def)
  have u: "unat (slot q i) = unat q * 4096 + i * 8" "unat (slot t 0) = unat t * 4096"
    using unat_pte_address[OF assms(2,3)] unat_pte_address[OF assms(1), of 0] by simp_all
  have "unat (slot q i - slot t 0) < 4096 \<longleftrightarrow> q = t"
  proof (cases "unat t \<le> unat q")
    case True
    then have "unat (slot q i - slot t 0) = (unat q - unat t) * 4096 + i * 8"
      using u by (subst unat_sub_small) (simp_all add: word_le_nat_alt diff_mult_distrib)
    then show ?thesis using True assms(3) by (auto simp: word_unat_eq_iff)
  next
    case False
    then have lt: "unat (slot q i) < unat (slot t 0)" using u assms(3) by linarith
    have "unat (slot q i - slot t 0) = 2 ^ 64 - unat (slot t 0) + unat (slot q i)"
      using unat_sub_wrap[of "slot q i" "slot t 0"] lt by (simp add: word_less_nat_alt)
    moreover have "unat (slot t 0) < 2 ^ 56" using u(2) assms(1) by simp
    ultimately have "\<not> unat (slot q i - slot t 0) < 4096" by simp
    then show ?thesis using False by auto
  qed
  then show ?thesis unfolding clears e by (simp add: PAGE_SIZE_def)
qed

lemma new_table:
  assumes inv: "pt_heap cfg st pg"
  shows "pt_new_table mem_set cfg st = None \<or>
    (\<exists>st' t pg'. pt_new_table mem_set cfg st = Some (st', t) \<and> pt_heap cfg st' pg' \<and> t \<notin> used_pages cfg pg \<and> unat t < 2 ^ 44 \<and>
      used_pages cfg pg' = insert t (used_pages cfg pg) \<and>
      (\<forall>q i. unat q < 2 ^ 44 \<and> i < 512 \<longrightarrow> pt_ptes st' (slot q i) = (if q = t then MMU_PTE_NULL else pt_ptes st (slot q i))))"
proof -
  let ?h = "mmu_hhdm_vaddr cfg"
  have ph: "page_heap (pt_pools st) pg" and hh: "in_hhdm cfg (pt_pools st)" using inv by (simp_all add: pt_heap_def)
  have sz: "PAGE_SIZE \<noteq> 0" "unat PAGE_SIZE + 4096 \<le> 2 ^ 64" by (simp_all add: PAGE_SIZE_def)
  obtain pools a where a: "buddy_allocate (pt_pools st) PAGE_SIZE BLOCK_TYPE_PAGE 0 = Some (pools, a)"
    "a = 0 \<or> a \<noteq> 0 \<and> a \<notin> dom pg \<and> page_heap pools (pg(a \<mapsto> ((BLOCK_TYPE_PAGE, 0), PAGE_SIZE)))"
    using page_heap_serve[OF ph sz, of BLOCK_TYPE_PAGE 0] by blast
  let ?pg = "pg(a \<mapsto> ((BLOCK_TYPE_PAGE, 0), PAGE_SIZE))" let ?t = "(a - ?h) div PAGE_SIZE"
  show ?thesis
  proof (cases "a = 0 \<or> ?t = 0")
    case True
    then show ?thesis using a(1) by (auto simp: pt_new_table_def phys_page_alloc_def)
  next
    case False
    then have n: "a \<notin> dom pg" "page_heap pools ?pg" using a(2) by simp_all
    have hh': "in_hhdm cfg pools" using in_hhdm_allocate[OF page_heap_inv[OF ph] sz a(1) _ hh] False by simp
    have "map_option snd (?pg a) = Some PAGE_SIZE" by simp
    then obtain p b where p: "p < length pools" "unat a = unat (pages_start (pools ! p)) + b * 4096" "unat a + unat PAGE_SIZE \<le> unat (pages_end (pools ! p))"
      by (rule alloc_inside[OF page_heap_inv[OF n(2)]])
    have "unat ?h \<le> unat (pages_start (pools ! p))" "unat (pages_end (pools ! p)) \<le> unat ?h + 2 ^ 56" using hh' p(1) by (simp_all add: in_hhdm_def)
    then have r: "unat ?h \<le> unat a" "unat a < unat ?h + 2 ^ 56" using p(2,3) by (simp_all add: PAGE_SIZE_def)
    have al: "unat a mod 4096 = 0" using page_heap_place(2)[OF n(2), of a] by simp
    note t = phys_page[OF r al conjunct1[OF hh[unfolded in_hhdm_def]]]
    let ?st = "\<lparr>pt_pools = pools, pt_ptes = mem_set (pt_ptes st) a 0 PAGE_SIZE\<rparr>"
    have "pt_new_table mem_set cfg st = Some (?st, ?t)" using a(1) False by (simp add: pt_new_table_def phys_page_alloc_def)
    moreover have "pt_heap cfg ?st ?pg" using n(2) hh' by (simp add: pt_heap_def)
    moreover have "?t \<notin> used_pages cfg pg" using t(2) n(1) by (simp add: used_pages_def)
    moreover have "used_pages cfg ?pg = insert ?t (used_pages cfg pg)"
    proof (intro set_eqI)
      fix q show "q \<in> used_pages cfg ?pg \<longleftrightarrow> q \<in> insert ?t (used_pages cfg pg)"
        using page_address_inj[OF _ t(1), of q] t by (cases "q = ?t") (auto simp: used_pages_def)
    qed
    moreover have "\<forall>q i. unat q < 2 ^ 44 \<and> i < 512 \<longrightarrow> pt_ptes ?st (slot q i) = (if q = ?t then MMU_PTE_NULL else pt_ptes st (slot q i))"
      using cleared_slots[OF t(1), of _ _ "pt_ptes st"] unfolding t(2) by simp
    ultimately show ?thesis using t(1) by blast
  qed
qed

end

section \<open>Entries\<close>

lemma vpn_part: "mmu_vpn_part vpn l = of_nat (unat vpn div 2 ^ (9 * l) mod 512)"
proof -
  have "mmu_vpn_part vpn l = take_bit 9 (drop_bit (9 * l) vpn)" by (simp add: mmu_vpn_part_def take_bit_eq_mask mask_eq_exp_minus_1)
  then have "unat (mmu_vpn_part vpn l) = unat vpn div 2 ^ (9 * l) mod 512"
    by (simp add: take_bit_eq_mod unat_mod unat_drop_bit_div)
  then show ?thesis by (metis of_nat_unat_id)
qed

lemma pte_new_inner:
  assumes "unat t < 2 ^ 44"
  shows "inner (mmu_pte_new t)" and "sub (mmu_pte_new t) = t"
proof -
  show "inner (mmu_pte_new t)" by (simp add: inner_def mmu_pte_new_def mmu_pte_is_valid_def mmu_pte_is_leaf_def MMU_PTE_NULL_def)
  have "unat (ucast t :: 44 word) = unat t" using assms by (simp add: unsigned_ucast_eq take_bit_nat_eq_self)
  then have "unat (ucast (ucast t :: 44 word) :: u64) = unat t" using unat_ucast_widen[of "ucast t :: 44 word", where 'b = 64] by simp
  then show "sub (mmu_pte_new t) = t" by (simp add: mmu_pte_get_ppn_def mmu_pte_new_def word_unat_eq_iff)
qed

lemma ucast_rwx: "(ucast (ucast (flags AND FLAG_RWX) :: 3 word) :: u32) = flags AND FLAG_RWX"
proof -
  have "FLAG_RWX = mask 3" by (simp add: FLAG_RWX_def mask_eq_exp_minus_1)
  then have f: "flags AND FLAG_RWX = take_bit 3 flags" by (simp add: take_bit_eq_mask)
  show ?thesis unfolding f by (rule bit_word_eqI) (auto simp: bit_simps)
qed

lemma and_exp: "a AND 2 ^ n = (if bit a n then 2 ^ n else (0 :: 'a::len word))"
  by (rule bit_word_eqI) (auto simp: bit_simps)

lemma pte_new_leaf_leaf:
  assumes "flags AND FLAG_RWX \<noteq> 0" and "unat ppn < 2 ^ 44"
  shows "leaf (mmu_pte_new_leaf cfg ppn flags)" and "sub (mmu_pte_new_leaf cfg ppn flags) = ppn"
proof -
  have "(ucast (flags AND FLAG_RWX) :: 3 word) \<noteq> 0" using assms(1) ucast_rwx[of flags] by (metis unsigned_0)
  then show "leaf (mmu_pte_new_leaf cfg ppn flags)" using assms(1)
    by (simp add: leaf_def mmu_pte_new_leaf_def mmu_pte_is_valid_def mmu_pte_is_leaf_def)
  have "unat (ucast ppn :: 44 word) = unat ppn" using assms(2) by (simp add: unsigned_ucast_eq take_bit_nat_eq_self)
  then have "unat (ucast (ucast ppn :: 44 word) :: u64) = unat ppn" using unat_ucast_widen[of "ucast ppn :: 44 word", where 'b = 64] by simp
  then show "sub (mmu_pte_new_leaf cfg ppn flags) = ppn" by (simp add: mmu_pte_get_ppn_def mmu_pte_new_leaf_def word_unat_eq_iff)
qed

text \<open>The flags that an entry keeps.\<close>

definition leaf_flags :: "u32 \<Rightarrow> u32" where
  "leaf_flags flags = flags AND (FLAG_RWX OR FLAG_GLOBAL OR FLAG_KERNEL)"

lemma get_flags_new_leaf: "mmu_pte_get_flags (mmu_pte_new_leaf cfg ppn flags) = leaf_flags flags"
proof -
  have k: "FLAG_GLOBAL = 2 ^ 4" "FLAG_KERNEL = 2 ^ 5" by (simp_all add: FLAG_GLOBAL_def FLAG_KERNEL_def)
  have "of_bool (flags AND 2 ^ n \<noteq> 0) * 2 ^ n = flags AND 2 ^ n" if "n < 32" for n using that by (simp add: and_exp)
  from this[of 4] this[of 5] show ?thesis
    using ucast_rwx[of flags] unfolding mmu_pte_get_flags_def mmu_pte_new_leaf_def leaf_flags_def k bit.conj_disj_distrib
    by (simp add: or.assoc)
qed

section \<open>Mapping a page\<close>

text \<open>Going down one level: the tree below an entry changes and grows by the new tables \<open>F\<close>.\<close>

lemma descend:
  assumes ok: "pt_ok m p (Suc l)" and i: "i < 512" "inner (m (slot p i))" and U: "tabs m p (Suc l) \<subseteq> U"
    and new: "pt_ok m' (sub (m (slot p i))) l" "tabs m' (sub (m (slot p i))) l \<subseteq> tabs m (sub (m (slot p i))) l \<union> F" "F \<inter> U = {}"
    and agr: "agree m m' (U - tabs m (sub (m (slot p i))) l)"
  shows "pt_ok m' p (Suc l)" and "tabs m' p (Suc l) \<subseteq> tabs m p (Suc l) \<union> F"
    and "view m' p (Suc l) y = (if y div 2 ^ (9 * l) mod 512 = i then view m' (sub (m (slot p i))) l y else view m p (Suc l) y)"
proof -
  let ?c = "sub (m (slot p i))"
  have pc: "p \<notin> tabs m ?c l" "p \<in> U" using ok i U by auto
  have same: "m' (slot p j) = m (slot p j)" if "j < 512" for j using agreeD[OF agr, of p j] pc that by simp
  have sib: "tabs m (sub (m (slot p j))) l \<subseteq> U - tabs m ?c l" if "j < 512" "j \<noteq> i" "inner (m (slot p j))" for j
  proof -
    have "tabs m (sub (m (slot p j))) l \<subseteq> U" using U that by auto
    moreover have "tabs m ?c l \<inter> tabs m (sub (m (slot p j))) l = {}" using ok i that by simp
    ultimately show ?thesis by blast
  qed
  have rest: "agree m m' (tabs m (sub (m (slot p j))) l)" if "j < 512" "j \<noteq> i" "inner (m (slot p j))" for j
    using agree_mono[OF agr sib[OF that]] .
  have inn: "pt_ok m' (sub (m' (slot p i))) l \<and> p \<notin> tabs m' (sub (m' (slot p i))) l \<and>
      (\<forall>j < 512. j \<noteq> i \<and> inner (m (slot p j)) \<longrightarrow> tabs m' (sub (m' (slot p i))) l \<inter> tabs m (sub (m (slot p j))) l = {})"
    unfolding same[OF i(1)] using new pc sib by blast
  have lf: "leaf (m' (slot p i)) \<Longrightarrow> l \<le> 3 \<and> 2 ^ (9 * l) dvd unat (sub (m' (slot p i)))" using inner_not_leaf[OF i(2)] same[OF i(1)] by simp
  note r = replace_entry[OF ok i(1) same rest lf inn]
  show "pt_ok m' p (Suc l)" by (rule r(1))
  show "tabs m' p (Suc l) \<subseteq> tabs m p (Suc l) \<union> F"
    using r(2) new(2) i unfolding same[OF i(1)] by auto
  show "view m' p (Suc l) y = (if y div 2 ^ (9 * l) mod 512 = i then view m' ?c l y else view m p (Suc l) y)"
    using r(3)[of y] i(2) unfolding same[OF i(1)] by simp
qed

text \<open>Putting a new table below an entry that had none.\<close>

lemma expand:
  assumes ok: "pt_ok m p (Suc l)" and i: "i < 512" "\<not> inner (m (slot p i))" and U: "tabs m p (Suc l) \<subseteq> U" and t: "t \<notin> U" "unat t < 2 ^ 44"
    and same: "\<And>j. j < 512 \<Longrightarrow> j \<noteq> i \<Longrightarrow> m' (slot p j) = m (slot p j)" and here: "m' (slot p i) = mmu_pte_new t"
    and agr: "agree m m' (U - {p})" and new: "pt_ok m' t l" "tabs m' t l \<subseteq> {t}"
    and eq: "\<And>y. y div 2 ^ (9 * l) mod 512 = i \<Longrightarrow> view m' t l y = view m p (Suc l) y"
  shows "pt_ok m' p (Suc l)" and "tabs m' p (Suc l) \<subseteq> insert t (tabs m p (Suc l))" and "view m' p (Suc l) y = view m p (Suc l) y"
proof -
  note e = pte_new_inner[OF t(2)]
  have p: "p \<in> U" using U by auto
  have sib: "tabs m (sub (m (slot p j))) l \<subseteq> U - {p}" if "j < 512" "inner (m (slot p j))" for j using U ok that by auto
  have rest: "agree m m' (tabs m (sub (m (slot p j))) l)" if "j < 512" "j \<noteq> i" "inner (m (slot p j))" for j
    using agree_mono[OF agr sib[OF that(1,3)]] .
  have inn: "pt_ok m' (sub (m' (slot p i))) l \<and> p \<notin> tabs m' (sub (m' (slot p i))) l \<and>
      (\<forall>j < 512. j \<noteq> i \<and> inner (m (slot p j)) \<longrightarrow> tabs m' (sub (m' (slot p i))) l \<inter> tabs m (sub (m (slot p j))) l = {})"
    unfolding here e(2) using new t(1) p sib by blast
  have lf: "leaf (m' (slot p i)) \<Longrightarrow> l \<le> 3 \<and> 2 ^ (9 * l) dvd unat (sub (m' (slot p i)))" using inner_not_leaf[OF e(1)] here by simp
  note r = replace_entry[OF ok i(1) same rest lf inn]
  show "pt_ok m' p (Suc l)" by (rule r(1))
  show "tabs m' p (Suc l) \<subseteq> insert t (tabs m p (Suc l))" using r(2) new(2) unfolding here e(2) by (auto split: if_splits)
  show "view m' p (Suc l) y = view m p (Suc l) y" using r(3)[of y] e eq[of y] unfolding here by simp
qed

text \<open>Indices at two levels.\<close>

lemma index_top: "y mod 2 ^ (9 * Suc l) div 2 ^ (9 * l) = y div 2 ^ (9 * l) mod 512" for y :: nat
proof -
  have "(2::nat) ^ (9 * Suc l) = 2 ^ (9 * l) * 512" by (simp add: power_add)
  then have "y mod 2 ^ (9 * Suc l) = 2 ^ (9 * l) * (y div 2 ^ (9 * l) mod 512) + y mod 2 ^ (9 * l)" by (simp only: mod_mult2_eq)
  then show ?thesis by simp
qed

lemma index_split:
  fixes x y :: nat
  assumes "k \<le> l"
  shows "y mod 2 ^ (9 * Suc l) div 2 ^ (9 * k) = x mod 2 ^ (9 * Suc l) div 2 ^ (9 * k) \<longleftrightarrow>
    y div 2 ^ (9 * l) mod 512 = x div 2 ^ (9 * l) mod 512 \<and> y mod 2 ^ (9 * l) div 2 ^ (9 * k) = x mod 2 ^ (9 * l) div 2 ^ (9 * k)"
proof -
  obtain d where d: "l = k + d" using assms le_Suc_ex by blast
  have p: "(2::nat) ^ (9 * l) = 2 ^ (9 * k) * 2 ^ (9 * d)" by (simp add: d power_add distrib_left)
  have e: "z mod 2 ^ (9 * Suc l) div 2 ^ (9 * k) = 2 ^ (9 * d) * (z div 2 ^ (9 * l) mod 512) + z mod 2 ^ (9 * l) div 2 ^ (9 * k)" for z :: nat
  proof -
    have "(2::nat) ^ (9 * Suc l) = 2 ^ (9 * l) * 512" by (simp add: power_add)
    then have "z mod 2 ^ (9 * Suc l) = 2 ^ (9 * l) * (z div 2 ^ (9 * l) mod 512) + z mod 2 ^ (9 * l)" by (simp only: mod_mult2_eq)
    also have "\<dots> = 2 ^ (9 * k) * (2 ^ (9 * d) * (z div 2 ^ (9 * l) mod 512)) + z mod 2 ^ (9 * l)" unfolding p by (simp only: mult.assoc)
    finally show ?thesis by simp
  qed
  have lt: "z mod 2 ^ (9 * l) div 2 ^ (9 * k) < 2 ^ (9 * d)" for z :: nat
    unfolding p by (rule less_mult_imp_div_less) (simp add: mult.commute)
  have inj: "a * A + r = a * B + s \<longleftrightarrow> A = B \<and> r = s" if "r < a" "s < a" for a A B r s :: nat
  proof
    assume eq: "a * A + r = a * B + s"
    have "(a * A + r) div a = A" "(a * B + s) div a = B" using that by simp_all
    then have "A = B" unfolding eq by simp
    then show "A = B \<and> r = s" using eq by simp
  qed simp
  show ?thesis unfolding e by (rule inj[OF lt lt])
qed

text \<open>New tables: empty ones, and the ones that replace a leaf.\<close>

lemma null_entry: "\<not> inner MMU_PTE_NULL" "\<not> leaf MMU_PTE_NULL"
  by (simp_all add: inner_def leaf_def mmu_pte_is_valid_def MMU_PTE_NULL_def)

lemma empty_table:
  assumes "\<And>i. i < 512 \<Longrightarrow> m (slot t i) = MMU_PTE_NULL" and "unat t < 2 ^ 44"
  shows "pt_ok m t (Suc l)" and "tabs m t (Suc l) \<subseteq> {t}" and "view m t (Suc l) y = (None, False)"
  using assms null_entry by (auto simp: Let_def)

lemma leaf_table:
  assumes m: "\<And>i. i < 512 \<Longrightarrow> m (slot t i) = mmu_pte_new_leaf cfg (b + of_nat i) flags" and "unat t < 2 ^ 44"
    and b: "flags AND FLAG_RWX \<noteq> 0" "512 dvd unat b" "unat b < 2 ^ 44"
  shows "pt_ok m t (Suc 0)" and "tabs m t (Suc 0) \<subseteq> {t}" and "view m t (Suc 0) y = (Some (unat b + y mod 512, leaf_flags flags), False)"
proof -
  have u: "unat (b + of_nat i) = unat b + i \<and> unat b + i < 2 ^ 44" if "i < 512" for i
  proof -
    obtain d where d: "unat b = 512 * d" using b(2) by blast
    then have "d < 2 ^ 35" using b(3) by simp
    then have lt: "unat b + i < 2 ^ 44" using d that by simp
    moreover have "unat (of_nat i :: u64) = i" using that by (intro unat_of_nat_small) simp
    ultimately show ?thesis by (subst unat_add_small) simp_all
  qed
  have lf: "leaf (m (slot t i))" "unat (sub (m (slot t i))) = unat b + i" "mmu_pte_get_flags (m (slot t i)) = leaf_flags flags" if "i < 512" for i
    using pte_new_leaf_leaf[OF b(1), of "b + of_nat i" cfg] u[OF that] get_flags_new_leaf[of cfg "b + of_nat i" flags] m[OF that] by simp_all
  then have inn: "\<not> inner (m (slot t i))" if "i < 512" for i using inner_not_leaf that by blast
  show "pt_ok m t (Suc 0)" "tabs m t (Suc 0) \<subseteq> {t}" using inn assms(2) by auto
  show "view m t (Suc 0) y = (Some (unat b + y mod 512, leaf_flags flags), False)" using lf[of "y mod 512"] inn[of "y mod 512"] by (simp add: Let_def)
qed

lemma write_fields [simp]: "pt_ptes (mmu_write_pte a e st) = (pt_ptes st)(a := e)" "pt_pools (mmu_write_pte a e st) = pt_pools st"
  by (simp_all add: mmu_write_pte_def)

lemma pt_heap_write [simp]: "pt_heap cfg (mmu_write_pte a e st) pg = pt_heap cfg st pg"
  by (simp add: pt_heap_def)

lemma fill_table:
  assumes "unat t < 2 ^ 44" and "n \<le> 512"
  shows "pt_pools (fold (\<lambda>i. mmu_write_pte (slot t i) (f i)) [0..<n] st) = pt_pools st \<and>
    (\<forall>q j. unat q < 2 ^ 44 \<and> j < 512 \<longrightarrow>
      pt_ptes (fold (\<lambda>i. mmu_write_pte (slot t i) (f i)) [0..<n] st) (slot q j) = (if q = t \<and> j < n then f j else pt_ptes st (slot q j)))"
  using assms(2)
proof (induction n)
  case (Suc n)
  let ?st = "fold (\<lambda>i. mmu_write_pte (slot t i) (f i)) [0..<n] st"
  have IH: "pt_pools ?st = pt_pools st" "\<And>q j. unat q < 2 ^ 44 \<Longrightarrow> j < 512 \<Longrightarrow> pt_ptes ?st (slot q j) = (if q = t \<and> j < n then f j else pt_ptes st (slot q j))"
    using Suc by simp_all
  have "pt_ptes (mmu_write_pte (slot t n) (f n) ?st) (slot q j) = (if q = t \<and> j < Suc n then f j else pt_ptes st (slot q j))" if q: "unat q < 2 ^ 44" "j < 512" for q j
  proof (cases "slot q j = slot t n")
    case True
    then have "q = t" "j = n" using slot_inj[OF q assms(1), of n] Suc.prems by simp_all
    then show ?thesis by simp
  next
    case False
    then have "\<not> (q = t \<and> j = n)" by auto
    then show ?thesis using IH(2)[OF q] False by (auto simp: less_Suc_eq)
  qed
  then show ?case using IH(1) by simp
qed simp

section \<open>The loop\<close>

definition map_result :: "mmu_config \<Rightarrow> u64 \<Rightarrow> nat \<Rightarrow> nat \<Rightarrow> u64 \<Rightarrow> u64 \<Rightarrow> u32 \<Rightarrow> pt_state \<Rightarrow> (block_type \<times> u32) allocations \<Rightarrow> pt_state \<Rightarrow>
    (block_type \<times> u32) allocations \<Rightarrow> bool" where
  "map_result cfg p n k vpn ppn flags st pg st' pg' \<longleftrightarrow> pt_heap cfg st' pg' \<and> used_pages cfg pg \<subseteq> used_pages cfg pg' \<and> pt_ok (pt_ptes st') p n \<and>
     tabs (pt_ptes st') p n \<subseteq> tabs (pt_ptes st) p n \<union> (used_pages cfg pg' - used_pages cfg pg) \<and>
     agree (pt_ptes st) (pt_ptes st') (used_pages cfg pg - tabs (pt_ptes st) p n) \<and>
     (\<forall>y. view (pt_ptes st') p n y =
        (if y mod 2 ^ (9 * n) div 2 ^ (9 * k) = unat vpn mod 2 ^ (9 * n) div 2 ^ (9 * k) then (Some (unat ppn + y mod 2 ^ (9 * k), leaf_flags flags), 2 \<le> k)
         else view (pt_ptes st) p n y))"

lemma map_down:
  assumes ok: "pt_ok (pt_ptes st) p (Suc (Suc l))" and U: "tabs (pt_ptes st) p (Suc (Suc l)) \<subseteq> used_pages cfg pg" and k: "k \<le> l"
    and i: "i = unat vpn div 2 ^ (9 * Suc l) mod 512" "inner (pt_ptes st (slot p i))"
    and r: "map_result cfg (sub (pt_ptes st (slot p i))) (Suc l) k vpn ppn flags st pg st' pg'"
  shows "map_result cfg p (Suc (Suc l)) k vpn ppn flags st pg st' pg'"
proof -
  let ?m = "pt_ptes st" let ?m' = "pt_ptes st'" let ?c = "sub (?m (slot p i))" let ?F = "used_pages cfg pg' - used_pages cfg pg"
  have i5: "i < 512" using i(1) by simp
  note r' = r[unfolded map_result_def]
  have c: "pt_ok ?m' ?c (Suc l)" "tabs ?m' ?c (Suc l) \<subseteq> tabs ?m ?c (Suc l) \<union> ?F" "agree ?m ?m' (used_pages cfg pg - tabs ?m ?c (Suc l))"
    "\<And>y. view ?m' ?c (Suc l) y = (if y mod 2 ^ (9 * Suc l) div 2 ^ (9 * k) = unat vpn mod 2 ^ (9 * Suc l) div 2 ^ (9 * k)
      then (Some (unat ppn + y mod 2 ^ (9 * k), leaf_flags flags), 2 \<le> k) else view ?m ?c (Suc l) y)"
    using r' by blast+
  have F: "?F \<inter> used_pages cfg pg = {}" by blast
  note d = descend[OF ok i5 i(2) U c(1,2) F c(3)]
  have "tabs ?m ?c (Suc l) \<subseteq> tabs ?m p (Suc (Suc l))" using i5 i(2) by auto
  then have ag: "agree ?m ?m' (used_pages cfg pg - tabs ?m p (Suc (Suc l)))" by (intro agree_mono[OF c(3)]) blast
  have old: "view ?m p (Suc (Suc l)) y = view ?m ?c (Suc l) y" if "y div 2 ^ (9 * Suc l) mod 512 = i" for y using that i(2) by (simp add: Let_def)
  have kl: "k \<le> Suc l" using k by simp
  have "view ?m' p (Suc (Suc l)) y = (if y mod 2 ^ (9 * Suc (Suc l)) div 2 ^ (9 * k) = unat vpn mod 2 ^ (9 * Suc (Suc l)) div 2 ^ (9 * k)
      then (Some (unat ppn + y mod 2 ^ (9 * k), leaf_flags flags), 2 \<le> k) else view ?m p (Suc (Suc l)) y)" for y
    unfolding d(3)[of y] index_split[OF kl, of y "unat vpn"] i(1)[symmetric] c(4)[of y] using old[of y] by simp
  then show ?thesis unfolding map_result_def using r' d(1,2) ag by blast
qed

lemma map_expand:
  assumes r: "map_result cfg p n k vpn ppn flags st2 pg2 st' pg'" and t: "used_pages cfg pg2 = insert t (used_pages cfg pg)" "t \<notin> used_pages cfg pg"
    and m: "tabs (pt_ptes st2) p n \<subseteq> insert t (tabs (pt_ptes st) p n)" "\<And>y. view (pt_ptes st2) p n y = view (pt_ptes st) p n y"
      "agree (pt_ptes st) (pt_ptes st2) (used_pages cfg pg - {p})" "p \<in> tabs (pt_ptes st) p n"
  shows "map_result cfg p n k vpn ppn flags st pg st' pg'"
proof -
  note r' = r[unfolded map_result_def]
  have a2: "agree (pt_ptes st2) (pt_ptes st') (used_pages cfg pg2 - tabs (pt_ptes st2) p n)" using r' by blast
  have "agree (pt_ptes st) (pt_ptes st') (used_pages cfg pg - tabs (pt_ptes st) p n)"
  proof (rule agree_trans)
    show "agree (pt_ptes st) (pt_ptes st2) (used_pages cfg pg - tabs (pt_ptes st) p n)" using m(4) by (intro agree_mono[OF m(3)]) blast
    show "agree (pt_ptes st2) (pt_ptes st') (used_pages cfg pg - tabs (pt_ptes st) p n)" using m(1) t by (intro agree_mono[OF a2]) blast
  qed
  moreover have "tabs (pt_ptes st') p n \<subseteq> tabs (pt_ptes st) p n \<union> (used_pages cfg pg' - used_pages cfg pg)" using r' m(1) t by blast
  moreover have "used_pages cfg pg \<subseteq> used_pages cfg pg'" using r' t(1) by blast
  ultimately show ?thesis unfolding map_result_def using r' unfolding m(2) by blast
qed

end
