(* ===== verification/Page_Map.thy ===== *)
theory Page_Map
  imports Page_Table
begin

text \<open>
  Mapping and walking: \<^verbatim>\<open>pt_map\<close> of \<^verbatim>\<open>kernel/port/generic/src/memprotect.c\<close> as an operation on the
  translation that a tree of tables defines.
\<close>

lemma map_leaf:
  assumes inv: "pt_heap cfg st pg" and ok: "pt_ok (pt_ptes st) p (Suc k)" and U: "tabs (pt_ptes st) p (Suc k) \<subseteq> used_pages cfg pg"
    and f: "flags AND FLAG_RWX \<noteq> 0" "k \<le> 3" "2 ^ (9 * k) dvd unat ppn" "unat ppn < 2 ^ 44"
  shows "map_result cfg p (Suc k) k vpn ppn flags st pg (mmu_write_pte (slot p (unat vpn div 2 ^ (9 * k) mod 512)) (mmu_pte_new_leaf cfg ppn flags) st) pg"
proof -
  let ?i = "unat vpn div 2 ^ (9 * k) mod 512" let ?e = "mmu_pte_new_leaf cfg ppn flags" let ?m = "pt_ptes st"
  define m' where "m' = ?m(slot p ?i := ?e)"
  have h: "m' (slot p ?i) = ?e" by (simp add: m'_def)
  have p: "unat p < 2 ^ 44" and i: "?i < 512" using ok by simp_all
  note e = pte_new_leaf_leaf[OF f(1,4), of cfg] get_flags_new_leaf[of cfg ppn flags]
  have ni: "\<not> inner ?e" using e(1) inner_not_leaf by blast
  have same: "m' (slot q j) = ?m (slot q j)" if "unat q < 2 ^ 44" "j < 512" "q \<noteq> p \<or> j \<noteq> ?i" for q j
    unfolding m'_def using slot_inj[OF that(1,2) p i] that(3) by auto
  have T: "agree ?m m' (tabs ?m (sub (?m (slot p j))) k)" if "j < 512" "inner (?m (slot p j))" for j
    unfolding agree_def
  proof (intro ballI allI impI)
    fix t h assume t: "t \<in> tabs ?m (sub (?m (slot p j))) k" "h < (512::nat)"
    have "pt_ok ?m (sub (?m (slot p j))) k" "p \<notin> tabs ?m (sub (?m (slot p j))) k" using ok that by simp_all
    then have "unat t < 2 ^ 44" "t \<noteq> p" using tabs_small t(1) by blast+
    then show "m' (slot t h) = ?m (slot t h)" using same t(2) by blast
  qed
  have s1: "\<And>j. j < 512 \<Longrightarrow> j \<noteq> ?i \<Longrightarrow> m' (slot p j) = ?m (slot p j)" using same p by blast
  have s2: "leaf (m' (slot p ?i)) \<Longrightarrow> k \<le> 3 \<and> 2 ^ (9 * k) dvd unat (sub (m' (slot p ?i)))" unfolding h using e f by simp
  have s3: "inner (m' (slot p ?i)) \<Longrightarrow> P" for P unfolding h using ni by simp
  note r = replace_entry[OF ok i s1 T s2 s3]
  have "view m' p (Suc k) y = (if y mod 2 ^ (9 * Suc k) div 2 ^ (9 * k) = unat vpn mod 2 ^ (9 * Suc k) div 2 ^ (9 * k)
      then (Some (unat ppn + y mod 2 ^ (9 * k), leaf_flags flags), 2 \<le> k) else view ?m p (Suc k) y)" for y
    using r(3)[of y] e ni unfolding h index_top by (simp del: view.simps)
  moreover have "agree ?m m' (used_pages cfg pg - tabs ?m p (Suc k))"
    unfolding agree_def using same by (auto simp: used_pages_def)
  moreover have "tabs m' p (Suc k) \<subseteq> tabs ?m p (Suc k)" using r(2) ni h by simp
  ultimately show ?thesis unfolding map_result_def write_fields pt_heap_write m'_def[symmetric] using inv r(1) by blast
qed

text \<open>The page allocator can serve \<open>n\<close> more tables.\<close>

fun tables_left :: "pte_mem_set \<Rightarrow> mmu_config \<Rightarrow> pt_state \<Rightarrow> nat \<Rightarrow> bool" where
  "tables_left mem_set cfg st 0 = True"
| "tables_left mem_set cfg st (Suc n) = (case pt_new_table mem_set cfg st of None \<Rightarrow> False | Some (st', _) \<Rightarrow> tables_left mem_set cfg st' n)"

lemma new_table_eq: "pt_new_table mem_set cfg st =
   (case buddy_allocate (pt_pools st) PAGE_SIZE BLOCK_TYPE_PAGE 0 of None \<Rightarrow> None
    | Some (pools, a) \<Rightarrow> let t = (a - mmu_hhdm_vaddr cfg) div PAGE_SIZE in
        if a = 0 \<or> t = 0 then None else Some (\<lparr>pt_pools = pools, pt_ptes = mem_set (pt_ptes st) a 0 PAGE_SIZE\<rparr>, t))"
  unfolding pt_new_table_def phys_page_alloc_def by (auto split: option.split simp: Let_def)

lemma tables_left_pools: "pt_pools s = pt_pools st \<Longrightarrow> tables_left mem_set cfg s n = tables_left mem_set cfg st n"
proof (induction n arbitrary: s st)
  case (Suc n)
  have "tables_left mem_set cfg \<lparr>pt_pools = q, pt_ptes = mem_set (pt_ptes s) a 0 PAGE_SIZE\<rparr> n =
      tables_left mem_set cfg \<lparr>pt_pools = q, pt_ptes = mem_set (pt_ptes st) a 0 PAGE_SIZE\<rparr> n" for q a
    by (rule Suc.IH) simp
  then show ?case unfolding tables_left.simps new_table_eq Suc.prems
    by (cases "buddy_allocate (pt_pools st) PAGE_SIZE BLOCK_TYPE_PAGE 0") (auto simp: Let_def)
qed simp

lemma tables_left_less: "tables_left mem_set cfg st n \<Longrightarrow> k \<le> n \<Longrightarrow> tables_left mem_set cfg st k"
proof (induction n arbitrary: st k)
  case (Suc n)
  then show ?case by (cases k) (auto split: option.splits)
qed simp

lemma tables_left_SucD:
  assumes "tables_left mem_set cfg st n" and "0 < n"
  obtains st1 t where "pt_new_table mem_set cfg st = Some (st1, t)" "tables_left mem_set cfg st1 (n - 1)"
  using assms by (cases n) (auto split: option.splits)

lemma fold_write_pools: "pt_pools (fold (\<lambda>i. mmu_write_pte (a i) (e i)) xs st) = pt_pools st"
  by (induction xs arbitrary: st) simp_all

lemma split_pools:
  assumes "pt_new_table mem_set cfg st = Some (st1, t)"
  shows "\<exists>st2. pt_split mem_set cfg st pa e = Some (st2, t) \<and> pt_pools st2 = pt_pools st1"
  using assms by (simp add: pt_split_def Let_def fold_write_pools del: upt_rec_numeral)

context pte_memory begin

lemma expand_invalid:
  assumes inv: "pt_heap cfg st pg" and ok: "pt_ok (pt_ptes st) p (Suc (Suc l))" and U: "tabs (pt_ptes st) p (Suc (Suc l)) \<subseteq> used_pages cfg pg"
    and i: "i < 512" "\<not> mmu_pte_is_valid (pt_ptes st (slot p i))"
    and n: "pt_new_table mem_set cfg st = Some (st1, t)"
  defines "st2 \<equiv> mmu_write_pte (slot p i) (mmu_pte_new t) st1"
  obtains pg2 where "pt_heap cfg st2 pg2" "used_pages cfg pg2 = insert t (used_pages cfg pg)" "t \<notin> used_pages cfg pg"
    "pt_ok (pt_ptes st2) p (Suc (Suc l))" "tabs (pt_ptes st2) p (Suc (Suc l)) \<subseteq> insert t (tabs (pt_ptes st) p (Suc (Suc l)))"
    "\<And>y. view (pt_ptes st2) p (Suc (Suc l)) y = view (pt_ptes st) p (Suc (Suc l)) y"
    "agree (pt_ptes st) (pt_ptes st2) (used_pages cfg pg - {p})" "inner (pt_ptes st2 (slot p i))" "sub (pt_ptes st2 (slot p i)) = t"
proof -
  let ?m = "pt_ptes st" let ?m2 = "pt_ptes st2"
  obtain pg2 where g: "pt_heap cfg st1 pg2" "t \<notin> used_pages cfg pg" "unat t < 2 ^ 44" "used_pages cfg pg2 = insert t (used_pages cfg pg)"
    "\<And>q j. unat q < 2 ^ 44 \<Longrightarrow> j < 512 \<Longrightarrow> pt_ptes st1 (slot q j) = (if q = t then MMU_PTE_NULL else ?m (slot q j))"
    using new_table[OF inv] n by auto
  have p: "unat p < 2 ^ 44" "p \<in> used_pages cfg pg" using ok U by auto
  have pt: "p \<noteq> t" using p(2) g(2) by auto
  have m2: "?m2 (slot q j) = (if q = p \<and> j = i then mmu_pte_new t else if q = t then MMU_PTE_NULL else ?m (slot q j))" if "unat q < 2 ^ 44" "j < 512" for q j
    unfolding st2_def write_fields using g(5)[OF that] slot_inj[OF that p(1) i(1)] by auto
  have here: "?m2 (slot p i) = mmu_pte_new t" using m2[OF p(1) i(1)] by simp
  have ni: "\<not> inner (?m (slot p i))" "\<not> leaf (?m (slot p i))" using i(2) by (simp_all add: inner_def leaf_def)
  have same: "\<And>j. j < 512 \<Longrightarrow> j \<noteq> i \<Longrightarrow> ?m2 (slot p j) = ?m (slot p j)" using m2 p(1) pt by simp
  have ag: "agree ?m ?m2 (used_pages cfg pg - {p})" unfolding agree_def using m2 g(2) by (auto simp: used_pages_def)
  have nul: "\<And>j. j < 512 \<Longrightarrow> ?m2 (slot t j) = MMU_PTE_NULL" using m2[OF g(3)] pt by auto
  note et = empty_table[where m = ?m2 and l = l, OF nul g(3)]
  have "view ?m2 t (Suc l) y = view ?m p (Suc (Suc l)) y" if "y div 2 ^ (9 * Suc l) mod 512 = i" for y
    using et(3)[of y] ni that by (simp add: Let_def)
  note x = expand[OF ok i(1) ni(1) U g(2,3) same here ag et(1,2) this]
  show thesis
    using that[OF _ g(4,2) x(1,2,3) ag] g(1) pte_new_inner[OF g(3)] here by (simp add: st2_def)
qed

end

lemma flags_bits:
  "ucast (w :: 3 word) AND FLAG_RWX = (ucast w :: u32)" "ucast (w :: 3 word) AND FLAG_GLOBAL = (0 :: u32)" "ucast (w :: 3 word) AND FLAG_KERNEL = (0 :: u32)"
proof -
  have m: "FLAG_RWX = mask 3" "FLAG_GLOBAL = 2 ^ 4" "FLAG_KERNEL = 2 ^ 5" by (simp_all add: FLAG_RWX_def FLAG_GLOBAL_def FLAG_KERNEL_def mask_eq_exp_minus_1)
  show "ucast w AND FLAG_RWX = (ucast w :: u32)" unfolding m by (rule bit_word_eqI) (auto simp: bit_simps dest: bit_imp_le_length)
  show "ucast w AND FLAG_GLOBAL = (0 :: u32)" "ucast w AND FLAG_KERNEL = (0 :: u32)" unfolding m and_exp by (auto simp: bit_simps dest: bit_imp_le_length)
qed

lemma get_flags_leaf:
  shows "leaf_flags (mmu_pte_get_flags e) = mmu_pte_get_flags e" and "leaf e \<Longrightarrow> mmu_pte_get_flags e AND FLAG_RWX \<noteq> 0"
proof -
  have d: "FLAG_GLOBAL AND FLAG_RWX = 0" "FLAG_KERNEL AND FLAG_RWX = 0" "FLAG_GLOBAL AND FLAG_KERNEL = 0" "FLAG_KERNEL AND FLAG_GLOBAL = 0"
    by (simp_all add: FLAG_GLOBAL_def FLAG_RWX_def FLAG_KERNEL_def)
  have a: "mmu_pte_get_flags e AND FLAG_RWX = ucast (pte_rwx e)"
    by (simp add: mmu_pte_get_flags_def bit.conj_disj_distrib2 flags_bits d of_bool_def)
  moreover have "mmu_pte_get_flags e AND FLAG_GLOBAL = of_bool (pte_g e) * FLAG_GLOBAL" "mmu_pte_get_flags e AND FLAG_KERNEL = of_bool (\<not> pte_u e) * FLAG_KERNEL"
    by (simp_all add: mmu_pte_get_flags_def bit.conj_disj_distrib2 flags_bits d of_bool_def)
  ultimately show "leaf_flags (mmu_pte_get_flags e) = mmu_pte_get_flags e"
    unfolding leaf_flags_def bit.conj_disj_distrib by (simp add: mmu_pte_get_flags_def)
  show "mmu_pte_get_flags e AND FLAG_RWX \<noteq> 0" if "leaf e"
  proof
    assume "mmu_pte_get_flags e AND FLAG_RWX = 0"
    then have "(ucast (pte_rwx e) :: u32) = 0" using a by simp
    then have "unat (pte_rwx e) = 0" using unat_ucast_widen[of "pte_rwx e", where 'b = 32] by simp
    then show False using that by (simp add: leaf_def mmu_pte_is_leaf_def unat_eq_zero)
  qed
qed

lemma ok_sub: "pt_ok m p (Suc l) \<Longrightarrow> i < 512 \<Longrightarrow> inner (m (slot p i)) \<Longrightarrow> pt_ok m (sub (m (slot p i))) l \<and> tabs m (sub (m (slot p i))) l \<subseteq> tabs m p (Suc l)"
  by auto

context pte_memory begin

text \<open>The entries after a leaf is split: a new table with one leaf for each page, and the entry that points to it.\<close>

lemma split_entries:
  assumes inv: "pt_heap cfg st pg" and p: "p \<in> used_pages cfg pg" and i: "i < 512"
    and n: "pt_split mem_set cfg st (slot p i) e = Some (st2, t)"
  obtains pg2 where "pt_heap cfg st2 pg2" "used_pages cfg pg2 = insert t (used_pages cfg pg)" "t \<notin> used_pages cfg pg" "unat t < 2 ^ 44"
    "\<forall>q j. unat q < 2 ^ 44 \<longrightarrow> j < 512 \<longrightarrow> pt_ptes st2 (slot q j) =
      (if q = p \<and> j = i then mmu_pte_new t else if q = t then mmu_pte_new_leaf cfg (sub e + of_nat j) (mmu_pte_get_flags e) else pt_ptes st (slot q j))"
proof -
  let ?m = "pt_ptes st" let ?f = "\<lambda>j. mmu_pte_new_leaf cfg (sub e + of_nat j) (mmu_pte_get_flags e)"
  obtain st1 where st1: "pt_new_table mem_set cfg st = Some (st1, t)"
    "st2 = mmu_write_pte (slot p i) (mmu_pte_new t) (fold (\<lambda>j. mmu_write_pte (slot t j) (?f j)) [0..<512] st1)"
    using n by (auto simp: pt_split_def Let_def split: option.splits)
  obtain pg2 where g: "pt_heap cfg st1 pg2" "t \<notin> used_pages cfg pg" "unat t < 2 ^ 44" "used_pages cfg pg2 = insert t (used_pages cfg pg)"
    "\<And>q j. unat q < 2 ^ 44 \<Longrightarrow> j < 512 \<Longrightarrow> pt_ptes st1 (slot q j) = (if q = t then MMU_PTE_NULL else ?m (slot q j))"
    using new_table[OF inv] st1(1) by auto
  have p44: "unat p < 2 ^ 44" using p by (simp add: used_pages_def)
  let ?st = "fold (\<lambda>j. mmu_write_pte (slot t j) (?f j)) [0..<512] st1"
  have fi: "pt_pools ?st = pt_pools st1" "\<And>q j. unat q < 2 ^ 44 \<Longrightarrow> j < 512 \<Longrightarrow> pt_ptes ?st (slot q j) = (if q = t then ?f j else pt_ptes st1 (slot q j))"
    using fill_table[OF g(3), of 512 ?f st1] by simp_all
  have m2: "pt_ptes st2 (slot q j) = (if q = p \<and> j = i then mmu_pte_new t else if q = t then ?f j else ?m (slot q j))" if "unat q < 2 ^ 44" "j < 512" for q j
    unfolding st1(2) write_fields using fi(2)[OF that] g(5)[OF that] slot_inj[OF that p44 i] by auto
  have "pt_heap cfg st2 pg2" using g(1) fi(1) unfolding st1(2) by (simp add: pt_heap_def)
  then show thesis using that g(2-4) m2 by blast
qed

lemma expand_split:
  assumes inv: "pt_heap cfg st pg" and ok: "pt_ok (pt_ptes st) p (Suc (Suc l))" and U: "tabs (pt_ptes st) p (Suc (Suc l)) \<subseteq> used_pages cfg pg"
    and i: "i < 512" "leaf (pt_ptes st (slot p i))" and l: "l = 0"
    and n: "pt_split mem_set cfg st (slot p i) (pt_ptes st (slot p i)) = Some (st2, t)"
  obtains pg2 where "pt_heap cfg st2 pg2" "used_pages cfg pg2 = insert t (used_pages cfg pg)" "t \<notin> used_pages cfg pg"
    "pt_ok (pt_ptes st2) p (Suc (Suc l))" "tabs (pt_ptes st2) p (Suc (Suc l)) \<subseteq> insert t (tabs (pt_ptes st) p (Suc (Suc l)))"
    "\<And>y. view (pt_ptes st2) p (Suc (Suc l)) y = view (pt_ptes st) p (Suc (Suc l)) y"
    "agree (pt_ptes st) (pt_ptes st2) (used_pages cfg pg - {p})" "inner (pt_ptes st2 (slot p i))" "sub (pt_ptes st2 (slot p i)) = t"
proof -
  let ?m = "pt_ptes st" let ?m2 = "pt_ptes st2" let ?e = "?m (slot p i)"
  let ?f = "\<lambda>j. mmu_pte_new_leaf cfg (sub ?e + of_nat j) (mmu_pte_get_flags ?e)"
  have p: "unat p < 2 ^ 44" "p \<in> used_pages cfg pg" using ok U by auto
  obtain pg2 where g: "pt_heap cfg st2 pg2" "used_pages cfg pg2 = insert t (used_pages cfg pg)" "t \<notin> used_pages cfg pg" "unat t < 2 ^ 44"
    "\<forall>q j. unat q < 2 ^ 44 \<longrightarrow> j < 512 \<longrightarrow> ?m2 (slot q j) = (if q = p \<and> j = i then mmu_pte_new t else if q = t then ?f j else ?m (slot q j))"
    by (rule split_entries[OF inv p(2) i(1) n])
  note m2 = g(5)[rule_format]
  have pt: "p \<noteq> t" using p(2) g(3) by auto
  have d: "512 dvd unat (sub ?e)" using ok i unfolding l by auto
  have here: "?m2 (slot p i) = mmu_pte_new t" using m2[OF p(1) i(1)] by simp
  have ni: "\<not> inner ?e" using i(2) inner_not_leaf by blast
  have same: "\<And>j. j < 512 \<Longrightarrow> j \<noteq> i \<Longrightarrow> ?m2 (slot p j) = ?m (slot p j)" using m2 p(1) pt by simp
  have ag: "agree ?m ?m2 (used_pages cfg pg - {p})" unfolding agree_def using m2 g(3) by (auto simp: used_pages_def)
  have lv: "\<And>j. j < 512 \<Longrightarrow> ?m2 (slot t j) = ?f j" using m2[OF g(4)] pt by auto
  note et = leaf_table[where m = ?m2, OF lv g(4) get_flags_leaf(2)[OF i(2)] d unat_sub_pte]
  have eq: "view ?m2 t (Suc 0) y = view ?m p (Suc (Suc 0)) y" if "y div 2 ^ (9 * Suc 0) mod 512 = i" for y
    using et(3)[of y] ni i(2) that get_flags_leaf(1)[of ?e] by (simp add: Let_def)
  note x = expand[OF ok[unfolded l] i(1) ni U[unfolded l] g(3,4) same here ag et(1,2) eq]
  show thesis
    using that[OF g(1,2,3) x(1,2,3)[folded l] ag] pte_new_inner[OF g(4)] here by simp
qed

lemma map_loop_ok:
  assumes f: "flags AND FLAG_RWX \<noteq> 0" "k \<le> 3" "2 ^ (9 * k) dvd unat ppn" "unat ppn < 2 ^ 44"
  shows "k \<le> l \<Longrightarrow> pt_heap cfg st pg \<Longrightarrow> pt_ok (pt_ptes st) p (Suc l) \<Longrightarrow> tabs (pt_ptes st) p (Suc l) \<subseteq> used_pages cfg pg \<Longrightarrow>
    tables_left mem_set cfg st (n + (l - k)) \<Longrightarrow> \<not> huge (pt_ptes st) p (Suc l) (unat vpn) \<Longrightarrow>
    \<exists>st' te' pg'. pt_map_loop mem_set cfg st p l vpn ppn k flags orig te = Some (st', te') \<and> tables_left mem_set cfg st' n \<and>
      map_result cfg p (Suc l) k vpn ppn flags st pg st' pg'"
proof (induction l arbitrary: st p pg te)
  case 0
  then have "k = 0" by simp
  then show ?case using map_leaf[OF 0(2-4), of flags ppn vpn] 0(5) f tables_left_pools[of "mmu_write_pte a e st" st for a e]
    unfolding pt_map_loop.simps[of _ _ _ _ 0] vpn_part by auto
next
  case (Suc l)
  let ?i = "unat vpn div 2 ^ (9 * Suc l) mod 512" let ?e = "pt_ptes st (slot p ?i)"
  show ?case
  proof (cases "k = Suc l")
    case True
    have "map_result cfg p (Suc k) k vpn ppn flags st pg (mmu_write_pte (slot p (unat vpn div 2 ^ (9 * k) mod 512)) (mmu_pte_new_leaf cfg ppn flags) st) pg"
      by (rule map_leaf[OF Suc.prems(2) Suc.prems(3,4)[folded True] f])
    then show ?thesis using Suc.prems(5) tables_left_pools[of "mmu_write_pte a e st" st for a e]
      unfolding True[symmetric] pt_map_loop.simps[of _ _ _ _ k] vpn_part by auto
  next
    case False
    then have k: "k \<le> l" "k < Suc l" and kn: "n + (Suc l - k) = Suc (n + (l - k))" using Suc.prems(1) by simp_all
    have i: "?i < 512" by simp
    note inv = Suc.prems(2) and ok = Suc.prems(3) and U = Suc.prems(4) and left = Suc.prems(5)[unfolded kn] and big = Suc.prems(6)
    have down: "\<exists>st' te' pg'. pt_map_loop mem_set cfg st2 (sub (pt_ptes st2 (slot p ?i))) l vpn ppn k flags orig te2 = Some (st', te') \<and>
          tables_left mem_set cfg st' n \<and> map_result cfg p (Suc (Suc l)) k vpn ppn flags st2 pg2 st' pg'"
      if s2: "pt_heap cfg st2 pg2" "pt_ok (pt_ptes st2) p (Suc (Suc l))" "tabs (pt_ptes st2) p (Suc (Suc l)) \<subseteq> used_pages cfg pg2" "inner (pt_ptes st2 (slot p ?i))"
        "tables_left mem_set cfg st2 (n + (l - k))" "\<not> huge (pt_ptes st2) p (Suc (Suc l)) (unat vpn)" for st2 pg2 te2
    proof -
      let ?c = "sub (pt_ptes st2 (slot p ?i))"
      have c: "pt_ok (pt_ptes st2) ?c (Suc l)" "tabs (pt_ptes st2) ?c (Suc l) \<subseteq> used_pages cfg pg2" using ok_sub[OF s2(2) i s2(4)] s2(3) by blast+
      have h: "\<not> huge (pt_ptes st2) ?c (Suc l) (unat vpn)" using s2(4,6) by (simp add: Let_def del: mult_Suc_right)
      show ?thesis using Suc.IH[OF k(1) s2(1) c s2(5) h, of te2] map_down[OF s2(2,3) k(1) refl s2(4)] by blast
    qed
    have grow: "\<exists>st' te' pg'. pt_map_loop mem_set cfg st2 t l vpn ppn k flags orig te2 = Some (st', te') \<and>
          tables_left mem_set cfg st' n \<and> map_result cfg p (Suc (Suc l)) k vpn ppn flags st pg st' pg'"
      if l: "tables_left mem_set cfg st2 (n + (l - k))"
        and x: "pt_heap cfg st2 pg2" "used_pages cfg pg2 = insert t (used_pages cfg pg)" "t \<notin> used_pages cfg pg"
        "pt_ok (pt_ptes st2) p (Suc (Suc l))" "tabs (pt_ptes st2) p (Suc (Suc l)) \<subseteq> insert t (tabs (pt_ptes st) p (Suc (Suc l)))"
        "\<And>y. view (pt_ptes st2) p (Suc (Suc l)) y = view (pt_ptes st) p (Suc (Suc l)) y"
        "agree (pt_ptes st) (pt_ptes st2) (used_pages cfg pg - {p})" "inner (pt_ptes st2 (slot p ?i))" "sub (pt_ptes st2 (slot p ?i)) = t" for st2 pg2 t te2
    proof -
      have "tabs (pt_ptes st2) p (Suc (Suc l)) \<subseteq> used_pages cfg pg2" using x(2,5) U by blast
      moreover have "\<not> huge (pt_ptes st2) p (Suc (Suc l)) (unat vpn)" using big unfolding huge_view x(6) .
      ultimately have d: "\<exists>st' te' pg'. pt_map_loop mem_set cfg st2 t l vpn ppn k flags orig te2 = Some (st', te') \<and>
          tables_left mem_set cfg st' n \<and> map_result cfg p (Suc (Suc l)) k vpn ppn flags st2 pg2 st' pg'"
        using down[OF x(1,4) _ x(8) l, of te2, unfolded x(9)] by blast
      have "p \<in> tabs (pt_ptes st) p (Suc (Suc l))" by simp
      then have "map_result cfg p (Suc (Suc l)) k vpn ppn flags st2 pg2 st' pg' \<Longrightarrow> map_result cfg p (Suc (Suc l)) k vpn ppn flags st pg st' pg'" for st' pg'
        by (intro map_expand[OF _ x(2,3,5,6,7)])
      then show ?thesis using d by blast
    qed
    obtain st1 t where new: "pt_new_table mem_set cfg st = Some (st1, t)" "tables_left mem_set cfg st1 (n + (l - k))"
      using tables_left_SucD[OF left] by auto
    note unfold = pt_map_loop.simps[of mem_set cfg st p "Suc l" vpn ppn k flags orig te] Let_def vpn_part
    consider "\<not> mmu_pte_is_valid ?e" | "leaf ?e" | "inner ?e" by (auto simp: leaf_def inner_def)
    then show ?thesis
    proof cases
      case 1
      have step: "pt_map_loop mem_set cfg st p (Suc l) vpn ppn k flags orig te =
          pt_map_loop mem_set cfg (mmu_write_pte (slot p ?i) (mmu_pte_new t) st1) t l vpn ppn k flags orig (te \<or> orig = Suc l)"
        using 1 k(2) new(1) unfolding unfold by simp
      have "tables_left mem_set cfg (mmu_write_pte (slot p ?i) (mmu_pte_new t) st1) (n + (l - k))" using new(2) by (subst tables_left_pools[of _ st1]) simp_all
      from grow[OF this] show ?thesis unfolding step by (rule expand_invalid[OF inv ok U i 1 new(1)])
    next
      case 2
      then have v: "mmu_pte_is_valid ?e" "mmu_pte_is_leaf ?e" by (simp_all add: leaf_def)
      have "\<not> inner ?e" using 2 inner_not_leaf by blast
      then have l0: "l = 0" using big 2 unfolding huge.simps(2)[of _ _ "Suc l"] Let_def by simp
      obtain st2 where n: "pt_split mem_set cfg st (slot p ?i) ?e = Some (st2, t)" "pt_pools st2 = pt_pools st1" using split_pools[OF new(1)] by blast
      have step: "pt_map_loop mem_set cfg st p (Suc l) vpn ppn k flags orig te = pt_map_loop mem_set cfg st2 t l vpn ppn k flags orig (te \<or> orig = Suc l)"
        using v k(2) n unfolding unfold by simp
      have "tables_left mem_set cfg st2 (n + (l - k))" using new(2) tables_left_pools[OF n(2)] by simp
      from grow[OF this] show ?thesis unfolding step by (rule expand_split[OF inv ok U i 2 l0 n(1)])
    next
      case 3
      then have v: "mmu_pte_is_valid ?e" "\<not> mmu_pte_is_leaf ?e" by (simp_all add: inner_def)
      have step: "pt_map_loop mem_set cfg st p (Suc l) vpn ppn k flags orig te = pt_map_loop mem_set cfg st (sub ?e) l vpn ppn k flags orig te"
        using v k(2) unfolding unfold by simp
      show ?thesis unfolding step by (rule down[OF inv ok U 3 tables_left_less[OF left] big]) simp
    qed
  qed
qed

end

section \<open>Mapping a range\<close>

lemma and_mask_dvd: "(x :: u64) AND (push_bit n 1 - 1) = 0 \<longleftrightarrow> 2 ^ n dvd unat x"
proof -
  have "push_bit n 1 - 1 = (mask n :: u64)" by (simp add: mask_eq_exp_minus_1)
  moreover have "x AND mask n = take_bit n x" by (simp add: take_bit_eq_mask)
  moreover have "take_bit n x = 0 \<longleftrightarrow> take_bit n (unat x) = 0" by (metis unat_eq_zero unsigned_take_bit_eq)
  ultimately show ?thesis by (simp add: take_bit_eq_mod mod_eq_0_iff_dvd)
qed

lemma unat_super_len: "n < 64 \<Longrightarrow> unat (push_bit n 1 :: u64) = 2 ^ n"
proof -
  assume "n < 64"
  then have "(2::nat) ^ n < 2 ^ 64" by (intro power_strict_increasing) simp_all
  then show ?thesis using unat_of_nat_small[of "2 ^ n", where 'a = 64] by (simp add: push_bit_eq_mult)
qed

lemma superpage_level:
  assumes "k = pt_calc_superpage l vpn ppn len" and "len \<noteq> 0"
  shows "k \<le> l" and "2 ^ (9 * k) dvd unat vpn" and "2 ^ (9 * k) dvd unat ppn" and "push_bit (9 * k) 1 \<le> len"
proof -
  have "k \<le> l \<and> 2 ^ (9 * k) dvd unat vpn \<and> 2 ^ (9 * k) dvd unat ppn" unfolding assms(1)
  proof (induction l)
    case (Suc l)
    then show ?case unfolding pt_calc_superpage.simps Let_def and_mask_dvd by auto
  qed simp
  then show "k \<le> l" "2 ^ (9 * k) dvd unat vpn" "2 ^ (9 * k) dvd unat ppn" by simp_all
  show "push_bit (9 * k) 1 \<le> len" unfolding assms(1) by (rule pt_calc_superpage_fits[OF assms(2)])
qed

text \<open>The result of mapping \<open>len\<close> pages from index \<open>b\<close> on to the physical pages from \<open>q\<close> on.\<close>

definition range_result :: "mmu_config \<Rightarrow> u64 \<Rightarrow> nat \<Rightarrow> nat \<Rightarrow> nat \<Rightarrow> nat \<Rightarrow> u32 \<Rightarrow> pt_state \<Rightarrow> (block_type \<times> u32) allocations \<Rightarrow> pt_state \<Rightarrow>
    (block_type \<times> u32) allocations \<Rightarrow> bool" where
  "range_result cfg p n b q len flags st pg st' pg' \<longleftrightarrow> pt_heap cfg st' pg' \<and> used_pages cfg pg \<subseteq> used_pages cfg pg' \<and> pt_ok (pt_ptes st') p n \<and>
     tabs (pt_ptes st') p n \<subseteq> tabs (pt_ptes st) p n \<union> (used_pages cfg pg' - used_pages cfg pg) \<and>
     agree (pt_ptes st) (pt_ptes st') (used_pages cfg pg - tabs (pt_ptes st) p n) \<and>
     (\<forall>x < 2 ^ (9 * n). if b \<le> x \<and> x < b + len then look (pt_ptes st') p n x = Some (q + (x - b), leaf_flags flags)
        else view (pt_ptes st') p n x = view (pt_ptes st) p n x)"

lemma range_none: "pt_heap cfg st pg \<Longrightarrow> pt_ok (pt_ptes st) p n \<Longrightarrow> range_result cfg p n b q 0 flags st pg st pg"
  by (auto simp: range_result_def agree_def)

lemma range_join:
  assumes r: "range_result cfg p n b q len flags st pg st1 pg1" and s: "range_result cfg p n (b + len) (q + len) len' flags st1 pg1 st2 pg2"
  shows "range_result cfg p n b q (len + len') flags st pg st2 pg2"
proof -
  let ?U = "used_pages cfg pg" let ?U1 = "used_pages cfg pg1" let ?U2 = "used_pages cfg pg2"
  let ?T = "tabs (pt_ptes st) p n" let ?T1 = "tabs (pt_ptes st1) p n" let ?T2 = "tabs (pt_ptes st2) p n"
  have u: "?U \<subseteq> ?U1" "?U1 \<subseteq> ?U2" and t: "?T1 \<subseteq> ?T \<union> (?U1 - ?U)" "?T2 \<subseteq> ?T1 \<union> (?U2 - ?U1)"
    and a: "agree (pt_ptes st) (pt_ptes st1) (?U - ?T)" "agree (pt_ptes st1) (pt_ptes st2) (?U1 - ?T1)"
    using r s by (simp_all add: range_result_def)
  have "agree (pt_ptes st) (pt_ptes st2) (?U - ?T)"
    using a(1) by (rule agree_trans) (rule agree_mono[OF a(2)], use u t in blast)
  moreover have "?T2 \<subseteq> ?T \<union> (?U2 - ?U)" using u t by blast
  moreover have "if b \<le> x \<and> x < b + (len + len') then look (pt_ptes st2) p n x = Some (q + (x - b), leaf_flags flags)
      else view (pt_ptes st2) p n x = view (pt_ptes st) p n x" if x: "x < 2 ^ (9 * n)" for x
  proof -
    have "if b \<le> x \<and> x < b + len then look (pt_ptes st1) p n x = Some (q + (x - b), leaf_flags flags) else view (pt_ptes st1) p n x = view (pt_ptes st) p n x"
      "if b + len \<le> x \<and> x < b + len + len' then look (pt_ptes st2) p n x = Some (q + len + (x - (b + len)), leaf_flags flags)
       else view (pt_ptes st2) p n x = view (pt_ptes st1) p n x"
      using r s x unfolding range_result_def by blast+
    then show ?thesis by (auto simp: look_view split: if_splits)
  qed
  ultimately show ?thesis using r s u unfolding range_result_def by blast
qed

lemma block_index:
  fixes z b :: nat
  assumes "2 ^ m dvd b"
  shows "z div 2 ^ m = b div 2 ^ m \<longleftrightarrow> b \<le> z \<and> z < b + 2 ^ m" and "z div 2 ^ m = b div 2 ^ m \<Longrightarrow> z mod 2 ^ m = z - b"
proof -
  obtain c where c: "b = c * 2 ^ m" using assms by (metis dvd_def mult.commute)
  have z: "z div 2 ^ m * 2 ^ m + z mod 2 ^ m = z" "z mod 2 ^ m < 2 ^ m" using div_mult_mod_eq[of z "2 ^ m"] by simp_all
  show "z div 2 ^ m = b div 2 ^ m \<Longrightarrow> z mod 2 ^ m = z - b" using z(1) unfolding c by simp
  show "z div 2 ^ m = b div 2 ^ m \<longleftrightarrow> b \<le> z \<and> z < b + 2 ^ m"
  proof
    assume "z div 2 ^ m = b div 2 ^ m"
    then have "z = b + z mod 2 ^ m" using z(1) unfolding c by simp
    then show "b \<le> z \<and> z < b + 2 ^ m" using z(2) by linarith
  next
    assume "b \<le> z \<and> z < b + 2 ^ m"
    then obtain d where "z = b + d" "d < 2 ^ m" by (metis add_less_cancel_left le_Suc_ex)
    then show "z div 2 ^ m = b div 2 ^ m" by (simp add: c)
  qed
qed

lemma map_range:
  assumes r: "map_result cfg p n k vpn ppn flags st pg st' pg'" and d: "2 ^ (9 * k) dvd unat vpn" and k: "k \<le> n"
  shows "range_result cfg p n (unat vpn mod 2 ^ (9 * n)) (unat ppn) (2 ^ (9 * k)) flags st pg st' pg'"
proof -
  let ?b = "unat vpn mod 2 ^ (9 * n)"
  have "(2::nat) ^ (9 * k) dvd 2 ^ (9 * n)" using k by (intro le_imp_power_dvd) simp
  then have b: "2 ^ (9 * k) dvd ?b" using d by (simp add: dvd_mod)
  have "if ?b \<le> x \<and> x < ?b + 2 ^ (9 * k) then look (pt_ptes st') p n x = Some (unat ppn + (x - ?b), leaf_flags flags)
      else view (pt_ptes st') p n x = view (pt_ptes st) p n x" if "x < 2 ^ (9 * n)" for x
    using that r block_index[OF b, of x] by (auto simp: map_result_def look_view)
  then show ?thesis using r unfolding map_result_def range_result_def by blast
qed

lemma view_mod: "view m p n (x mod 2 ^ (9 * n)) = view m p n x"
proof (induction n arbitrary: p x)
  case (Suc l)
  have "(2::nat) ^ (9 * l) dvd 2 ^ (9 * Suc l)" by (intro le_imp_power_dvd) simp
  then have r: "x mod 2 ^ (9 * Suc l) mod 2 ^ (9 * l) = x mod 2 ^ (9 * l)" by (rule mod_mod_cancel)
  have "x mod 2 ^ (9 * Suc l) div 2 ^ (9 * l) mod 512 = x div 2 ^ (9 * l) mod 512" unfolding index_top by simp
  moreover have "view m q l (x mod 2 ^ (9 * Suc l)) = view m q l x" for q using Suc.IH[of q x] Suc.IH[of q "x mod 2 ^ (9 * Suc l)"] unfolding r by simp
  ultimately show ?case unfolding view.simps Let_def r by simp
qed simp

text \<open>No page of a range is mapped by a leaf that \<^verbatim>\<open>pt_split\<close> cannot split.\<close>

definition none_huge :: "pt_mem \<Rightarrow> u64 \<Rightarrow> nat \<Rightarrow> nat \<Rightarrow> nat \<Rightarrow> bool" where
  "none_huge m p n b len \<longleftrightarrow> (\<forall>x. b \<le> x \<and> x < b + len \<longrightarrow> \<not> huge m p n x)"

lemma none_huge_rest:
  assumes "range_result cfg p n b q k flags st pg st' pg'" and "none_huge (pt_ptes st) p n b len" and "k \<le> len" and "b + len \<le> 2 ^ (9 * n)"
  shows "none_huge (pt_ptes st') p n (b + k) (len - k)"
  using assms unfolding none_huge_def huge_view range_result_def by (auto split: if_splits)

context pte_memory begin

lemma map_pages_ok:
  assumes f: "flags AND FLAG_RWX \<noteq> 0" "l \<le> 4"
  shows "pt_heap cfg st pg \<Longrightarrow> pt_ok (pt_ptes st) p (Suc l) \<Longrightarrow> tabs (pt_ptes st) p (Suc l) \<subseteq> used_pages cfg pg \<Longrightarrow>
    unat pages < 2 ^ 36 \<Longrightarrow> unat ppn + unat pages \<le> 2 ^ 44 \<Longrightarrow> unat vpn mod 2 ^ (9 * Suc l) + unat pages \<le> 2 ^ (9 * Suc l) \<Longrightarrow>
    unat vpn + unat pages < 2 ^ 64 \<Longrightarrow> tables_left mem_set cfg st (unat pages * l) \<Longrightarrow>
    none_huge (pt_ptes st) p (Suc l) (unat vpn mod 2 ^ (9 * Suc l)) (unat pages) \<Longrightarrow>
    \<exists>st' te' pg'. pt_map_pages mem_set cfg st p l vpn ppn pages flags te = Some (st', te') \<and>
      range_result cfg p (Suc l) (unat vpn mod 2 ^ (9 * Suc l)) (unat ppn) (unat pages) flags st pg st' pg'"
proof (induction "unat pages" arbitrary: st pg vpn ppn pages te rule: less_induct)
  case less
  note inv = less.prems(1) and ok = less.prems(2) and U = less.prems(3) and bnd = less.prems(4-7) and left = less.prems(8) and big = less.prems(9)
  show ?case
  proof (cases "pages = 0")
    case True
    then show ?thesis using range_none[OF inv ok] by (subst pt_map_pages.simps) auto
  next
    case False
    let ?k = "pt_calc_superpage l vpn ppn pages" let ?n = "push_bit (9 * ?k) 1 :: u64" let ?b = "unat vpn mod 2 ^ (9 * Suc l)"
    note k = superpage_level[OF refl False, of l vpn ppn]
    have n: "unat ?n = 2 ^ (9 * ?k)" using k(1) f(2) by (intro unat_super_len) simp
    have le: "2 ^ (9 * ?k) \<le> unat pages" using k(4) n by (simp add: word_le_nat_alt)
    then have "(2::nat) ^ (9 * ?k) < 2 ^ 36" using bnd(1) by linarith
    then have "9 * ?k < 36" by (rule power_less_imp_less_exp[rotated]) simp
    then have k1: "?k \<le> 3" by simp
    have pos: "0 < unat pages" using False by (simp add: unat_gt_0)
    then obtain j where j: "unat pages = Suc j" using gr0_implies_Suc by blast
    have "unat ppn < 2 ^ 44" using bnd(2) pos by linarith
    moreover have "tables_left mem_set cfg st (j * l + (l - ?k))" using left by (rule tables_left_less) (simp add: j)
    moreover have "\<not> huge (pt_ptes st) p (Suc l) (unat vpn)"
      using big pos unfolding none_huge_def huge_view view_mod[of _ _ "Suc l" "unat vpn", symmetric] by simp
    ultimately obtain st1 te1 pg1 where s1: "pt_map_1 mem_set cfg st p l vpn ppn ?k flags = Some (st1, te1)" "tables_left mem_set cfg st1 (j * l)"
        "map_result cfg p (Suc l) ?k vpn ppn flags st pg st1 pg1"
      using map_loop_ok[OF f(1) k1 k(3) _ k(1) inv ok U] unfolding pt_map_1_def by blast
    have "?k \<le> Suc l" using k(1) by simp
    note r1 = map_range[OF s1(3) k(2) this]
    have p1: "unat (pages - ?n) = unat pages - 2 ^ (9 * ?k)" using n le k(4) by (simp add: unat_sub_small)
    have v1: "unat (vpn + ?n) = unat vpn + 2 ^ (9 * ?k)" using n bnd(4) le by (subst unat_add_lem[THEN iffD1]) simp_all
    have q1: "unat (ppn + ?n) = unat ppn + 2 ^ (9 * ?k)" using n bnd(2) le by (subst unat_add_lem[THEN iffD1]) simp_all
    have nz: "?n \<noteq> 0" using n by (metis power_not_zero unat_0 zero_neq_numeral)
    have step: "pt_map_pages mem_set cfg st p l vpn ppn pages flags te =
        pt_map_pages mem_set cfg st1 p l (vpn + ?n) (ppn + ?n) (pages - ?n) flags (te \<or> te1)"
      using False nz s1(1) by (subst pt_map_pages.simps) (simp only: Let_def if_False option.case prod.case)
    show ?thesis
    proof (cases "unat pages = 2 ^ (9 * ?k)")
      case True
      then have z: "pages - ?n = 0" using p1 by (simp add: unat_eq_zero)
      show ?thesis unfolding step z using r1[folded True] by (subst pt_map_pages.simps) auto
    next
      case False
      then have lt: "2 ^ (9 * ?k) < unat pages" using le by simp
      have b1: "unat (vpn + ?n) mod 2 ^ (9 * Suc l) = ?b + 2 ^ (9 * ?k)"
      proof -
        have "?b + 2 ^ (9 * ?k) < 2 ^ (9 * Suc l)" using bnd(3) lt by linarith
        then show ?thesis unfolding v1 by (metis mod_add_left_eq mod_less)
      qed
      have "unat (pages - ?n) < unat pages" unfolding p1 using pos by simp
      moreover have "pt_heap cfg st1 pg1" "pt_ok (pt_ptes st1) p (Suc l)" "tabs (pt_ptes st1) p (Suc l) \<subseteq> used_pages cfg pg1"
        using r1 U unfolding range_result_def by blast+
      moreover have "unat (pages - ?n) < 2 ^ 36" "unat (ppn + ?n) + unat (pages - ?n) \<le> 2 ^ 44" "unat (vpn + ?n) + unat (pages - ?n) < 2 ^ 64"
        "unat (vpn + ?n) mod 2 ^ (9 * Suc l) + unat (pages - ?n) \<le> 2 ^ (9 * Suc l)"
        unfolding p1 v1[symmetric] q1 b1 unfolding v1 using bnd le by linarith+
      moreover have "unat (pages - ?n) \<le> j" using j one_le_power[of "2::nat" "9 * ?k"] unfolding p1 by linarith
      then have "tables_left mem_set cfg st1 (unat (pages - ?n) * l)" by (intro tables_left_less[OF s1(2)] mult_le_mono1)
      moreover have "none_huge (pt_ptes st1) p (Suc l) (?b + 2 ^ (9 * ?k)) (unat pages - 2 ^ (9 * ?k))"
        by (rule none_huge_rest[OF r1 big le bnd(3)])
      ultimately obtain st2 te2 pg2 where s2: "pt_map_pages mem_set cfg st1 p l (vpn + ?n) (ppn + ?n) (pages - ?n) flags (te \<or> te1) = Some (st2, te2)"
          "range_result cfg p (Suc l) (?b + 2 ^ (9 * ?k)) (unat ppn + 2 ^ (9 * ?k)) (unat pages - 2 ^ (9 * ?k)) flags st1 pg1 st2 pg2"
        using less.hyps[of "pages - ?n" st1 pg1 "ppn + ?n" "vpn + ?n" "te \<or> te1", unfolded b1 q1 p1] unfolding p1 b1 q1 by blast
      show ?thesis unfolding step s2(1) using range_join[OF r1 s2(2)] le by auto
    qed
  qed
qed

end

end
