(* ===== verification/Memprotect.thy ===== *)
theory Memprotect
  imports Page_Map
begin

text \<open>
  The memory protection interface on top of the tables: address translation, user and kernel mappings,
  an example of a context, and the properties.
\<close>

section \<open>Walking a tree\<close>

lemma walk_look:
  assumes "pt_ok m p n"
  shows "\<exists>w. pt_walk_loop m p vpn n = Some w \<and> w_vaddr_valid w \<and>
    (if w_found w then w_level w \<le> 3 \<and> 2 ^ (9 * w_level w) dvd unat (sub (w_pte w)) \<and>
       look m p n (unat vpn) = Some (unat (sub (w_pte w)) + unat vpn mod 2 ^ (9 * w_level w), mmu_pte_get_flags (w_pte w))
     else look m p n (unat vpn) = None)"
  using assms
proof (induction n arbitrary: p)
  case (Suc l)
  let ?i = "unat vpn div 2 ^ (9 * l) mod 512" let ?e = "m (slot p ?i)"
  have i: "?i < 512" by simp
  note unfold = pt_walk_loop.simps Let_def vpn_part
  consider "\<not> mmu_pte_is_valid ?e" | "leaf ?e" | "inner ?e" by (auto simp: leaf_def inner_def)
  then show ?case
  proof cases
    case 1
    then show ?thesis unfolding unfold by (simp add: leaf_def inner_def)
  next
    case 2
    then have l: "l \<le> 3" "2 ^ (9 * l) dvd unat (sub ?e)" using Suc.prems i unfolding pt_ok.simps by blast+
    have "\<not> (l \<noteq> 0 \<and> (l > 3 \<or> sub ?e AND (push_bit (9 * l) 1 - 1) \<noteq> 0))" using l by (simp add: and_mask_dvd del: push_bit_of_1)
    then have "pt_walk_loop m p vpn (Suc l) = Some \<lparr>w_paddr = slot p ?i, w_pte = ?e, w_level = l, w_found = True, w_vaddr_valid = True\<rparr>"
      using 2 unfolding unfold leaf_def by (simp del: push_bit_of_1)
    then show ?thesis using 2 l inner_not_leaf[of ?e] by (auto simp: Let_def)
  next
    case 3
    then have "pt_ok m (sub ?e) l" using ok_sub[OF Suc.prems i] by simp
    moreover have "pt_walk_loop m p vpn (Suc l) = pt_walk_loop m (sub ?e) vpn l" using 3 unfolding unfold by (simp add: inner_def)
    moreover have "look m p (Suc l) (unat vpn) = look m (sub ?e) l (unat vpn)" using 3 by (simp add: Let_def)
    ultimately show ?thesis using Suc.IH by (simp only:)
  qed
qed simp

lemma look_mod: "look m p n (x mod 2 ^ (9 * n)) = look m p n x"
  unfolding look_view view_mod ..

section \<open>Translating an address\<close>

text \<open>The virtual addresses that are not in the gap between the halves.\<close>

definition canonical :: "mmu_config \<Rightarrow> u64 \<Rightarrow> bool" where
  "canonical cfg vaddr \<longleftrightarrow> \<not> (vaddr \<ge> mmu_half_size cfg \<and> vaddr < mmu_high_vaddr cfg)"

definition half_ok :: "mmu_config \<Rightarrow> bool" where
  "half_ok cfg \<longleftrightarrow> 3 \<le> mmu_levels cfg \<and> mmu_levels cfg \<le> 5 \<and> mmu_half_size cfg = push_bit (11 + 9 * mmu_levels cfg) 1 \<and> mmu_high_vaddr cfg = - mmu_half_size cfg"

lemma early_init_half: "8 \<le> mode \<Longrightarrow> mode \<le> 10 \<Longrightarrow> half_ok (mmu_early_init mode cfg)"
  by (auto simp: half_ok_def mmu_early_init_def Let_def)

lemma unat_half:
  assumes "half_ok cfg"
  shows "unat (mmu_half_size cfg) = 2 ^ (11 + 9 * mmu_levels cfg)" and "unat (mmu_half_pages cfg) = 2 ^ (9 * mmu_levels cfg - 1)"
    and "(2::nat) ^ (11 + 9 * mmu_levels cfg) = 2 ^ (9 * mmu_levels cfg - 1) * 4096"
proof -
  have l: "3 \<le> mmu_levels cfg" "mmu_levels cfg \<le> 5" "mmu_half_size cfg = push_bit (11 + 9 * mmu_levels cfg) 1"
    using assms by (simp_all add: half_ok_def)
  show h: "unat (mmu_half_size cfg) = 2 ^ (11 + 9 * mmu_levels cfg)" unfolding l(3) using l(2) by (intro unat_super_len) simp
  have "11 + 9 * mmu_levels cfg = (9 * mmu_levels cfg - 1) + 12" using l(1) by simp
  then show e: "(2::nat) ^ (11 + 9 * mmu_levels cfg) = 2 ^ (9 * mmu_levels cfg - 1) * 4096" by (simp only: power_add) simp
  show "unat (mmu_half_pages cfg) = 2 ^ (9 * mmu_levels cfg - 1)" unfolding mmu_half_pages_def unat_div h e by (simp add: MMU_PAGE_SIZE_def)
qed

lemma canonical_vpn:
  assumes "half_ok cfg" and "canonical cfg vaddr"
  shows "\<not> (vaddr div MMU_PAGE_SIZE \<ge> mmu_half_pages cfg \<and> vaddr div MMU_PAGE_SIZE < mmu_high_vpn cfg)"
proof (cases "vaddr < mmu_half_size cfg")
  case True
  then have "unat vaddr < 2 ^ (9 * mmu_levels cfg - 1) * 4096" using unat_half[OF assms(1)] by (simp add: word_less_nat_alt)
  then have "unat (vaddr div MMU_PAGE_SIZE) < unat (mmu_half_pages cfg)"
    unfolding unat_half(2)[OF assms(1)] by (simp add: unat_div MMU_PAGE_SIZE_def less_mult_imp_div_less)
  then show ?thesis by (simp add: word_le_nat_alt)
next
  case False
  then have "mmu_high_vaddr cfg \<le> vaddr" using assms(2) by (auto simp: canonical_def)
  then have "unat (mmu_high_vpn cfg) \<le> unat (vaddr div MMU_PAGE_SIZE)"
    by (simp add: mmu_high_vpn_def unat_div word_le_nat_alt div_le_mono)
  then show ?thesis by (simp add: word_less_nat_alt)
qed

text \<open>What an address is translated to: nothing, or a physical address and the flags of its page.\<close>

definition translate :: "mmu_config \<Rightarrow> pt_mem \<Rightarrow> u64 \<Rightarrow> u64 \<Rightarrow> (u64 \<times> u32) option" where
  "translate cfg m root vaddr =
     (if canonical cfg vaddr then map_option (\<lambda>(q, f). (of_nat (q * 4096 + unat vaddr mod 4096), f)) (look m root (mmu_levels cfg) (unat vaddr div 4096))
      else None)"

lemma and_size: "unat (vaddr AND (push_bit (9 * k) MMU_PAGE_SIZE - 1)) = unat vaddr div 4096 mod 2 ^ (9 * k) * 4096 + unat vaddr mod 4096"
proof -
  have "push_bit (9 * k) MMU_PAGE_SIZE - 1 = mask (12 + 9 * k)"
    using push_bit_push_bit[of "9 * k" 12 "1 :: u64"] by (simp add: MMU_PAGE_SIZE_def mask_eq_exp_minus_1 ac_simps)
  then have "unat (vaddr AND (push_bit (9 * k) MMU_PAGE_SIZE - 1)) = unat vaddr mod (4096 * 2 ^ (9 * k))"
    by (simp add: take_bit_eq_mask[symmetric] unsigned_take_bit_eq) (simp add: take_bit_eq_mod power_add)
  then show ?thesis unfolding mod_mult2_eq by (simp only: mult.commute add.commute)
qed

lemma virt2phys_translate:
  assumes cfg: "half_ok cfg" and ok: "pt_ok m root (mmu_levels cfg)"
  shows "\<exists>r. memprotect_virt2phys cfg m root vaddr = Some r \<and>
    (vp_paddr r, vp_flags r) = (case translate cfg m root vaddr of None \<Rightarrow> (0, 0) | Some t \<Rightarrow> t)"
proof (cases "canonical cfg vaddr")
  case False
  then show ?thesis by (simp add: memprotect_virt2phys_def translate_def canonical_def Let_def)
next
  case True
  let ?vpn = "vaddr div MMU_PAGE_SIZE"
  have v: "unat ?vpn = unat vaddr div 4096" by (simp add: unat_div MMU_PAGE_SIZE_def)
  obtain w where w: "pt_walk cfg m root ?vpn = Some w"
    "if w_found w then w_level w \<le> 3 \<and> 2 ^ (9 * w_level w) dvd unat (sub (w_pte w)) \<and>
       look m root (mmu_levels cfg) (unat ?vpn) = Some (unat (sub (w_pte w)) + unat ?vpn mod 2 ^ (9 * w_level w), mmu_pte_get_flags (w_pte w))
     else look m root (mmu_levels cfg) (unat ?vpn) = None"
    using walk_look[OF ok, of ?vpn] canonical_vpn[OF cfg True] unfolding pt_walk_def by auto
  have c: "\<not> (vaddr \<ge> mmu_half_size cfg \<and> vaddr < mmu_high_vaddr cfg)" using True by (simp add: canonical_def)
  show ?thesis
  proof (cases "w_found w")
    case False
    then show ?thesis using w c True unfolding v by (simp add: memprotect_virt2phys_def translate_def Let_def)
  next
    case found: True
    let ?k = "w_level w" let ?e = "w_pte w"
    have l: "?k \<le> 3" "look m root (mmu_levels cfg) (unat vaddr div 4096) = Some (unat (sub ?e) + unat vaddr div 4096 mod 2 ^ (9 * ?k), mmu_pte_get_flags ?e)"
      using w(2) found unfolding v by simp_all
    have "sub ?e * MMU_PAGE_SIZE + (vaddr AND (push_bit (9 * ?k) MMU_PAGE_SIZE - 1)) =
        of_nat ((unat (sub ?e) + unat vaddr div 4096 mod 2 ^ (9 * ?k)) * 4096 + unat vaddr mod 4096)"
    proof -
      have "vaddr AND (push_bit (9 * ?k) MMU_PAGE_SIZE - 1) = of_nat (unat vaddr div 4096 mod 2 ^ (9 * ?k) * 4096 + unat vaddr mod 4096)"
        using and_size[of vaddr ?k] by (metis of_nat_unat_id)
      moreover have "sub ?e * MMU_PAGE_SIZE = of_nat (unat (sub ?e) * 4096)" by (simp add: MMU_PAGE_SIZE_def)
      ultimately show ?thesis by (simp only: add_mult_distrib of_nat_add[symmetric] add.assoc)
    qed
    then show ?thesis using w(1) c found True l(2) by (auto simp: memprotect_virt2phys_def translate_def Let_def)
  qed
qed

section \<open>User mappings\<close>

text \<open>A context: a root table whose tree lies in pages that the page allocator has handed out.\<close>

definition context_ok :: "mmu_config \<Rightarrow> pt_state \<Rightarrow> (block_type \<times> u32) allocations \<Rightarrow> u64 \<Rightarrow> bool" where
  "context_ok cfg st pg root \<longleftrightarrow> pt_heap cfg st pg \<and> pt_ok (pt_ptes st) root (mmu_levels cfg) \<and> tabs (pt_ptes st) root (mmu_levels cfg) \<subseteq> used_pages cfg pg"

definition user_flags :: "u32 \<Rightarrow> u32" where
  "user_flags flags = (if flags AND FLAG_W \<noteq> 0 then flags OR FLAG_R else flags) AND FLAG_RWX"

lemmas flag_defs = FLAG_R_def FLAG_W_def FLAG_RWX_def FLAG_GLOBAL_def FLAG_KERNEL_def

lemma user_flags_leaf:
  assumes "fl = flags AND NOT (FLAG_GLOBAL OR FLAG_KERNEL)" and "g = (if fl AND FLAG_W \<noteq> 0 then fl OR FLAG_R else fl)"
  shows "leaf_flags g = user_flags flags" and "g AND FLAG_GLOBAL = 0" and "flags AND FLAG_RWX \<noteq> 0 \<Longrightarrow> g AND FLAG_RWX \<noteq> 0"
proof -
  have f: "fl AND FLAG_W = flags AND FLAG_W" "fl AND FLAG_RWX = flags AND FLAG_RWX" "fl AND FLAG_GLOBAL = 0"
    "fl AND (FLAG_RWX OR FLAG_GLOBAL OR FLAG_KERNEL) = flags AND FLAG_RWX"
    unfolding assms(1) by (simp_all add: flag_defs and.assoc)
  have r: "FLAG_R AND FLAG_RWX = FLAG_R" "FLAG_R AND FLAG_GLOBAL = 0" "FLAG_R AND (FLAG_RWX OR FLAG_GLOBAL OR FLAG_KERNEL) = FLAG_R" by (simp_all add: flag_defs)
  show "leaf_flags g = user_flags flags" unfolding assms(2) leaf_flags_def user_flags_def f(1)
    by (simp add: bit.conj_disj_distrib2 f r)
  show "g AND FLAG_GLOBAL = 0" unfolding assms(2) by (simp add: bit.conj_disj_distrib2 f r)
  have "x OR FLAG_R \<noteq> 0" for x
  proof -
    have "bit (x OR FLAG_R) 0" by (simp add: bit_or_iff FLAG_R_def)
    then show ?thesis by auto
  qed
  then show "g AND FLAG_RWX \<noteq> 0" if "flags AND FLAG_RWX \<noteq> 0" using that unfolding assms(2) by (simp add: bit.conj_disj_distrib2 f r)
qed

lemma page_mod: "(x :: u64) mod MMU_PAGE_SIZE = take_bit 12 x"
  by (simp add: MMU_PAGE_SIZE_def take_bit_eq_mod)

lemma pages_aligned:
  assumes "unat a mod 4096 = 0" and "unat b mod 4096 = 0" and "unat c mod 4096 = 0"
  shows "(a OR b OR c :: u64) mod MMU_PAGE_SIZE = 0"
proof -
  have "take_bit 12 x = 0" if "unat x mod 4096 = 0" for x :: u64
  proof -
    have "unat (take_bit 12 x) = unat x mod 2 ^ 12" by (subst unsigned_take_bit_eq) (simp_all only: take_bit_eq_mod)
    then have "unat (take_bit 12 x) = 0" using that by simp
    then show ?thesis by (simp only: unat_eq_zero)
  qed
  then show ?thesis using assms unfolding page_mod take_bit_or by simp
qed

lemma low_index:
  assumes cfg: "half_ok cfg" and v: "canonical cfg v" and b: "b + n \<le> 2 ^ (9 * mmu_levels cfg - 1)"
  defines "x \<equiv> unat v div 4096"
  shows "b \<le> x mod 2 ^ (9 * mmu_levels cfg) \<and> x mod 2 ^ (9 * mmu_levels cfg) < b + n \<longleftrightarrow> b \<le> x \<and> x < b + n"
proof -
  let ?L = "9 * mmu_levels cfg" let ?h = "2 ^ (?L - 1) :: nat"
  have L: "3 \<le> mmu_levels cfg" "mmu_levels cfg \<le> 5" using cfg by (simp_all add: half_ok_def)
  have N: "2 ^ ?L = 2 * ?h" using L(1) by (simp flip: power_Suc)
  show ?thesis
  proof (cases "v < mmu_half_size cfg")
    case True
    then have "unat v < ?h * 4096" using unat_half[OF cfg] by (simp add: word_less_nat_alt)
    then have "x < ?h" unfolding x_def by (rule less_mult_imp_div_less)
    then show ?thesis using N by simp
  next
    case False
    then have "mmu_high_vaddr cfg \<le> v" using v by (auto simp: canonical_def)
    moreover have "unat (mmu_high_vaddr cfg) = 2 ^ 64 - ?h * 4096"
    proof -
      have "mmu_half_size cfg \<noteq> 0" using unat_half(1)[OF cfg] by (metis power_not_zero unat_0 zero_neq_numeral)
      then show ?thesis using cfg unat_half[OF cfg] unat_sub_wrap[of 0 "mmu_half_size cfg"] by (simp add: half_ok_def word_gt_0)
    qed
    ultimately have "2 ^ 64 - ?h * 4096 \<le> unat v" by (simp add: word_le_nat_alt)
    moreover have "unat v < 2 ^ 64" using unat_less[of v] by simp
    moreover obtain c where c: "(2::nat) ^ 52 = c * 2 ^ ?L" "2 \<le> c"
    proof -
      have "52 = (52 - ?L) + ?L" "1 \<le> 52 - ?L" using L(2) by simp_all
      then show ?thesis using that[of "2 ^ (52 - ?L)"] power_increasing[of 1 "52 - ?L" "2::nat"] by (metis one_le_numeral power_add power_one_right)
    qed
    ultimately have "(2 * c - 1) * ?h * 4096 \<le> unat v" "unat v < 2 * c * ?h * 4096" using N by (simp_all add: diff_mult_distrib)
    then have x: "(2 * c - 1) * ?h \<le> x" "x < 2 * c * ?h" unfolding x_def by (simp_all add: less_eq_div_iff_mult_less_eq less_mult_imp_div_less)
    obtain d where d: "c = Suc (Suc d)" using c(2) by (metis add_2_eq_Suc le_Suc_ex)
    have "?h \<le> x - Suc d * 2 ^ ?L" "x - Suc d * 2 ^ ?L < 2 ^ ?L" "Suc d * 2 ^ ?L \<le> x" "?h \<le> x"
      using x unfolding d N by (simp_all add: algebra_simps)
    moreover from this have "x mod 2 ^ ?L = x - Suc d * 2 ^ ?L" by (metis le_add_diff_inverse mod_less mod_mult_self3)
    ultimately have "?h \<le> x mod 2 ^ ?L" "?h \<le> x" by simp_all
    then show ?thesis using b by linarith
  qed
qed

lemma page_number: "unat (x div MMU_PAGE_SIZE) = unat x div 4096"
  by (simp add: unat_div MMU_PAGE_SIZE_def)

lemma page_range:
  fixes a n v :: nat
  assumes "a mod 4096 = 0" and "n mod 4096 = 0"
  shows "a div 4096 \<le> v div 4096 \<and> v div 4096 < a div 4096 + n div 4096 \<longleftrightarrow> a \<le> v \<and> v < a + n"
proof -
  obtain b k where "a = b * 4096" "n = k * 4096" using assms by (metis add_0_right div_mult_mod_eq)
  then show ?thesis by (auto simp: less_eq_div_iff_mult_less_eq div_less_iff_less_mult algebra_simps)
qed

lemma page_offset:
  fixes v vaddr paddr :: u64
  assumes "unat vaddr mod 4096 = 0" and "unat paddr mod 4096 = 0" and "unat vaddr \<le> unat v"
  shows "of_nat ((unat paddr div 4096 + (unat v div 4096 - unat vaddr div 4096)) * 4096 + unat v mod 4096) = paddr + (v - vaddr)"
proof -
  obtain b q where b: "unat vaddr = b * 4096" "unat paddr = q * 4096" using assms(1,2) by (metis add_0_right div_mult_mod_eq)
  have le: "b \<le> unat v div 4096" using assms(3) b(1) by (simp add: less_eq_div_iff_mult_less_eq)
  have "(q + (unat v div 4096 - b)) * 4096 + unat v mod 4096 = q * 4096 + (unat v div 4096 * 4096 + unat v mod 4096 - b * 4096)"
    using le by (simp add: add_mult_distrib diff_mult_distrib)
  also have "\<dots> = unat paddr + (unat v - unat vaddr)" unfolding b div_mult_mod_eq ..
  finally have "(unat paddr div 4096 + (unat v div 4096 - unat vaddr div 4096)) * 4096 + unat v mod 4096 = unat paddr + (unat v - unat vaddr)"
    unfolding b by simp
  then have "of_nat ((unat paddr div 4096 + (unat v div 4096 - unat vaddr div 4096)) * 4096 + unat v mod 4096) = (of_nat (unat paddr + (unat v - unat vaddr)) :: u64)"
    by (rule arg_cong)
  then show ?thesis using assms(3) by (simp add: of_nat_diff)
qed

lemma translate_range:
  assumes cfg: "half_ok cfg" and r: "range_result cfg root (mmu_levels cfg) (unat vaddr div 4096) (unat paddr div 4096) (unat len div 4096) fl st pg st' pg'"
    and al: "unat vaddr mod 4096 = 0" "unat paddr mod 4096 = 0" "unat len mod 4096 = 0" and up: "unat vaddr + unat len \<le> unat (mmu_half_size cfg)"
  shows "translate cfg (pt_ptes st') root v =
    (if unat vaddr \<le> unat v \<and> unat v < unat vaddr + unat len then Some (paddr + (v - vaddr), leaf_flags fl) else translate cfg (pt_ptes st) root v)"
proof (cases "canonical cfg v")
  case False
  then have "unat (mmu_half_size cfg) \<le> unat v" by (simp add: canonical_def word_le_nat_alt)
  then show ?thesis using False up by (simp add: translate_def)
next
  case True
  let ?x = "unat v div 4096" let ?b = "unat vaddr div 4096" let ?n = "unat len div 4096" let ?N = "2 ^ (9 * mmu_levels cfg) :: nat"
  have "?b + ?n \<le> 2 ^ (9 * mmu_levels cfg - 1)"
  proof -
    have "(unat vaddr + unat len) div 4096 \<le> 2 ^ (9 * mmu_levels cfg - 1) * 4096 div 4096" using up unat_half(1,3)[OF cfg] by (intro div_le_mono) simp
    then show ?thesis using al by (simp add: div_add mod_eq_0_iff_dvd)
  qed
  note low = low_index[OF cfg True this]
  have "?x mod ?N < ?N" by simp
  then have "look (pt_ptes st') root (mmu_levels cfg) (?x mod ?N) = (if ?b \<le> ?x mod ?N \<and> ?x mod ?N < ?b + ?n
      then Some (unat paddr div 4096 + (?x mod ?N - ?b), leaf_flags fl) else look (pt_ptes st) root (mmu_levels cfg) (?x mod ?N))"
    using r unfolding range_result_def look_view by metis
  moreover have "?x mod ?N = ?x" if "?b \<le> ?x \<and> ?x < ?b + ?n"
  proof -
    have "?x < 2 ^ (9 * mmu_levels cfg - 1)" using that \<open>?b + ?n \<le> _\<close> by linarith
    also have "\<dots> \<le> ?N" by (intro power_increasing) simp_all
    finally show ?thesis by simp
  qed
  ultimately have lk: "look (pt_ptes st') root (mmu_levels cfg) ?x = (if ?b \<le> ?x \<and> ?x < ?b + ?n
      then Some (unat paddr div 4096 + (?x - ?b), leaf_flags fl) else look (pt_ptes st) root (mmu_levels cfg) ?x)"
    unfolding low look_mod by simp
  show ?thesis
  proof (cases "unat vaddr \<le> unat v \<and> unat v < unat vaddr + unat len")
    case inside: True
    then show ?thesis using True page_offset[OF al(1,2), of v] unfolding translate_def lk page_range[OF al(1,3)] by (simp only: if_True simp_thms option.map prod.case)
  next
    case False
    then show ?thesis unfolding translate_def lk page_range[OF al(1,3)] by (simp only: if_False)
  qed
qed

context pte_memory begin

lemma memprotect_u_ok:
  assumes cfg: "half_ok cfg" and ctx: "context_ok cfg (mm_pt st) pg root"
    and al: "unat vaddr mod 4096 = 0" "unat paddr mod 4096 = 0" "unat len mod 4096 = 0"
    and bnd: "unat vaddr + unat len \<le> unat (mmu_half_size cfg)" "unat paddr + unat len \<le> 2 ^ 56" "unat len < 2 ^ 48"
    and big: "none_huge (pt_ptes (mm_pt st)) root (mmu_levels cfg) (unat vaddr div 4096) (unat len div 4096)"
    and f: "flags AND FLAG_RWX \<noteq> 0" and left: "tables_left mem_set cfg (mm_pt st) (unat len div 4096 * (mmu_levels cfg - 1))"
  shows "\<exists>st' pg'. memprotect_u mem_set cfg st root vaddr paddr len flags = Some (st', True) \<and> context_ok cfg (mm_pt st') pg' root \<and>
    (\<forall>v. translate cfg (pt_ptes (mm_pt st')) root v =
      (if unat vaddr \<le> unat v \<and> unat v < unat vaddr + unat len then Some (paddr + (v - vaddr), user_flags flags)
       else translate cfg (pt_ptes (mm_pt st)) root v))"
proof -
  obtain l where l: "mmu_levels cfg = Suc l" "l \<le> 4" using cfg by (cases "mmu_levels cfg") (auto simp: half_ok_def)
  let ?vpn = "vaddr div MMU_PAGE_SIZE" let ?ppn = "paddr div MMU_PAGE_SIZE" let ?pages = "len div MMU_PAGE_SIZE"
  define fl where "fl = flags AND NOT (FLAG_GLOBAL OR FLAG_KERNEL)"
  define g where "g = (if fl AND FLAG_W \<noteq> 0 then fl OR FLAG_R else fl)"
  note uf = user_flags_leaf[OF fl_def g_def]
  have n: "unat vaddr div 4096 + unat len div 4096 \<le> 2 ^ (9 * mmu_levels cfg - 1)"
  proof -
    have "(unat vaddr + unat len) div 4096 \<le> 2 ^ (9 * mmu_levels cfg - 1) * 4096 div 4096" using bnd(1) unat_half(1,3)[OF cfg] by (intro div_le_mono) simp
    then show ?thesis using al by (simp add: div_add mod_eq_0_iff_dvd)
  qed
  have h: "(2::nat) ^ (9 * mmu_levels cfg - 1) < 2 ^ (9 * Suc l)" unfolding l by (intro power_strict_increasing) simp_all
  have h': "(2::nat) ^ (9 * Suc l) \<le> 2 ^ 45" using l(2) by (intro power_increasing) simp_all
  have q: "unat paddr div 4096 + unat len div 4096 \<le> 2 ^ 44"
  proof -
    have "(unat paddr + unat len) div 4096 \<le> 2 ^ 56 div 4096" using bnd(2) by (rule div_le_mono)
    then show ?thesis using al by (simp add: div_add mod_eq_0_iff_dvd)
  qed
  have pg: "unat ?pages < 2 ^ 36" unfolding page_number using bnd(3) by (simp add: less_mult_imp_div_less)
  have "unat ?vpn < 2 ^ (9 * Suc l)" using n h unfolding page_number by linarith
  then have m: "unat ?vpn mod 2 ^ (9 * Suc l) = unat vaddr div 4096" unfolding page_number by simp
  have m': "unat vaddr div 4096 + unat ?pages \<le> 2 ^ (9 * Suc l)" using n h unfolding page_number by linarith
  have sum: "unat ?vpn + unat ?pages < 2 ^ 64" using n h h' power_strict_increasing[of 45 64 "2::nat"] unfolding page_number by linarith
  obtain s te pg' where s: "pt_map mem_set cfg (mm_pt st) root l ?vpn ?ppn ?pages g = Some (s, te)"
      "range_result cfg root (Suc l) (unat vaddr div 4096) (unat paddr div 4096) (unat len div 4096) g (mm_pt st) pg s pg'"
    using map_pages_ok[OF uf(3)[OF f] l(2), of "mm_pt st" pg root ?pages ?ppn ?vpn False, unfolded m] ctx pg q m' sum left big
    unfolding context_ok_def pt_map_def page_number l by auto
  have "\<not> ?vpn + ?pages > mmu_half_pages cfg"
    using n sum unat_half(2)[OF cfg] unat_add_lem[of ?vpn ?pages] by (simp add: word_less_nat_alt page_number)
  moreover have "memprotect_impl mem_set cfg st root ?vpn ?ppn ?pages fl = Some (st\<lparr>mm_pt := s\<rparr>)"
    using s(1) uf(2) uf(3)[OF f] l unfolding memprotect_impl_def Let_def g_def[symmetric] by simp
  ultimately have "memprotect_u mem_set cfg st root vaddr paddr len flags = Some (st\<lparr>mm_pt := s\<rparr>, True)"
    unfolding memprotect_u_def pages_aligned[OF al] Let_def fl_def[symmetric] by simp
  moreover have "context_ok cfg s pg' root" using ctx s(2) unfolding context_ok_def range_result_def l by blast
  moreover note translate_range[OF cfg s(2)[folded l(1)] al bnd(1), unfolded uf(1)]
  ultimately show ?thesis by auto
qed

end

section \<open>Memory for tables\<close>

lemma tables_from_pool:
  assumes hh: "in_hhdm cfg [pool]" "unat (mmu_hhdm_vaddr cfg) + 4096 \<le> unat (pages_start pool)"
  shows "heap_inv [pool] live \<Longrightarrow> \<forall>b \<in> held pool live. bb_order (blk pool b) = 0 \<Longrightarrow>
    w \<le> 2 ^ max_order pool \<Longrightarrow> \<forall>i < w. \<not> bb_is_waste (blk pool i) \<Longrightarrow> card (held pool live) + n \<le> w \<Longrightarrow> 0 < max_order pool \<Longrightarrow>
    pt_pools st = [pool] \<Longrightarrow> tables_left mem_set cfg st n"
  using hh
proof (induction n arbitrary: pool live st)
  case (Suc n)
  have lt: "card (held pool live) < w" using Suc.prems(5) by simp
  obtain pool' a where a: "buddy_allocate [pool] PAGE_SIZE BLOCK_TYPE_PAGE 0 = Some ([pool'], a)" "a \<noteq> 0" "heap_inv [pool'] (live(a \<mapsto> PAGE_SIZE))"
      "same_place pool pool'" "\<forall>b \<in> held pool' (live(a \<mapsto> PAGE_SIZE)). bb_order (blk pool' b) = 0" "card (held pool' (live(a \<mapsto> PAGE_SIZE))) = Suc (card (held pool live))"
    using page_served[OF Suc.prems(1-4) lt Suc.prems(6), of BLOCK_TYPE_PAGE 0] by blast
  note same = a(4)[unfolded same_place_def]
  obtain p b where "unat a = unat (pages_start ([pool'] ! p)) + b * 4096" "p < length [pool']"
    by (rule alloc_inside[OF a(3), of a PAGE_SIZE]) simp_all
  then have "unat (mmu_hhdm_vaddr cfg) + 4096 \<le> unat a" using same Suc.prems(9) by auto
  then have "4096 \<le> unat (a - mmu_hhdm_vaddr cfg)" by (subst unat_sub_small) (simp_all add: word_le_nat_alt)
  then have "0 < unat (a - mmu_hhdm_vaddr cfg) div 4096" by (simp add: div_greater_zero_iff)
  then have t: "(a - mmu_hhdm_vaddr cfg) div PAGE_SIZE \<noteq> 0" using unat_div[of "a - mmu_hhdm_vaddr cfg" PAGE_SIZE] by (auto simp: PAGE_SIZE_def)
  let ?st = "\<lparr>pt_pools = [pool'], pt_ptes = mem_set (pt_ptes st) a 0 PAGE_SIZE\<rparr>"
  have c: "card (held pool' (live(a \<mapsto> PAGE_SIZE))) + n \<le> w" using a(6) Suc.prems(5) by linarith
  have "in_hhdm cfg [pool']" using Suc.prems(8) same by (simp add: in_hhdm_def)
  then have "tables_left mem_set cfg ?st n"
    using Suc.prems(3-6,9) same by (intro Suc.IH[OF a(3,5) _ _ c]) simp_all
  then show ?case unfolding tables_left.simps new_table_eq Suc.prems(7) using a(1,2) t by (simp add: Let_def)
qed simp

section \<open>An example\<close>

text \<open>A \<open>mem_set\<close> that clears entries, and a context whose root table is the only page in use.\<close>

definition clear_ptes :: "mmu_config \<Rightarrow> pte_mem_set" where
  "clear_ptes cfg m a c n = (\<lambda>pa. if c = 0 \<and> unat (pa + mmu_hhdm_vaddr cfg - a) < unat n then MMU_PTE_NULL else m pa)"

interpretation clear: pte_memory "clear_ptes cfg" cfg for cfg
  by unfold_locales (simp add: clear_ptes_def)

definition sv39 :: mmu_config where
  "sv39 = mmu_early_init 8 \<lparr>mmu_levels = 0, mmu_hhdm_vaddr = 0, mmu_high_vaddr = 0, mmu_half_size = 0, mmu_svpbmt = False\<rparr>"

lemma sv39_fields: "mmu_levels sv39 = 3" "mmu_hhdm_vaddr sv39 = 0" "mmu_half_size sv39 = 0x4000000000" "mmu_high_vaddr sv39 = 0xFFFFFFC000000000" "half_ok sv39"
  by (simp_all add: sv39_def mmu_early_init_def half_ok_def Let_def)

text \<open>One more page from a pool of eight pages of which fewer than six are in use.\<close>

definition page_pool :: "memory_pool \<Rightarrow> (block_type \<times> u32) allocations \<Rightarrow> nat \<Rightarrow> bool" where
  "page_pool q pg n \<longleftrightarrow> page_heap [q] pg \<and> same_place (ready_pool 0x80000000 3 0) q \<and>
     (\<forall>b \<in> held q (\<lambda>a. map_option snd (pg a)). bb_order (blk q b) = 0) \<and> card (held q (\<lambda>a. map_option snd (pg a))) = n"

lemma ready_place:
  assumes "same_place (ready_pool 0x80000000 3 0) q"
  shows "max_order q = 3" and "pages_start q = 0x80001000" and "pages_end q = 0x80008000" and "\<forall>i < (6::nat). \<not> bb_is_waste (blk q i)"
proof -
  have m: "meta_pages 3 = 1" by (simp add: meta_pages_def)
  note same = assms[unfolded same_place_def]
  show "max_order q = 3" "pages_start q = 0x80001000" "pages_end q = 0x80008000" using same r3.ready_fields(1-3)[of 0] m by simp_all
  show "\<forall>i < (6::nat). \<not> bb_is_waste (blk q i)" using same r3.ready_blocks(1)[of _ 0] m by simp
qed

lemma page_pool_start: "page_pool (ready_pool 0x80000000 3 0) Map.empty 0"
  using heap_inv_page_heap[OF r3.ready_heap] by (simp add: page_pool_def same_place_def held_def)

lemma page_pool_next:
  assumes "page_pool q pg n" and "n < 6"
  shows "\<exists>q' root. page_pool q' (pg(root * 4096 \<mapsto> ((BLOCK_TYPE_PAGE, 0), PAGE_SIZE))) (Suc n) \<and> root * 4096 \<notin> dom pg \<and> unat root < 2 ^ 44"
proof -
  let ?live = "\<lambda>a. map_option snd (pg a)"
  note q = assms(1)[unfolded page_pool_def]
  have place: "same_place (ready_pool 0x80000000 3 0) q" using q by blast
  note f = ready_place[OF place]
  have inv: "heap_inv [q] ?live" using q page_heap_inv by blast
  obtain q' a where r: "buddy_allocate [q] PAGE_SIZE BLOCK_TYPE_PAGE 0 = Some ([q'], a)" "a \<noteq> 0" "heap_inv [q'] (?live(a \<mapsto> PAGE_SIZE))" "same_place q q'"
      "\<forall>b \<in> held q' (?live(a \<mapsto> PAGE_SIZE)). bb_order (blk q' b) = 0" "card (held q' (?live(a \<mapsto> PAGE_SIZE))) = Suc n"
    using page_served[OF inv, of 6 BLOCK_TYPE_PAGE 0] q f(1,4) assms(2) by auto
  have ph: "page_heap [q'] (pg(a \<mapsto> ((BLOCK_TYPE_PAGE, 0), PAGE_SIZE)))" and na: "a \<notin> dom pg"
    using page_heap_serve[of "[q]" pg PAGE_SIZE BLOCK_TYPE_PAGE 0] q r(1,2) by (simp_all add: PAGE_SIZE_def)
  have place': "same_place (ready_pool 0x80000000 3 0) q'" using place r(4) by (simp add: same_place_def)
  note f' = ready_place[OF place']
  have "(?live(a \<mapsto> PAGE_SIZE)) a = Some PAGE_SIZE" by simp
  then obtain p b where "p < length [q']" "unat a = unat (pages_start ([q'] ! p)) + b * 4096" "unat a + unat PAGE_SIZE \<le> unat (pages_end ([q'] ! p))"
    by (rule alloc_inside[OF r(3)])
  then have "unat a < 2 ^ 56" "unat a mod 4096 = 0" by (simp_all add: f' PAGE_SIZE_def)
  then have t: "unat (a div 4096) < 2 ^ 44" "a div 4096 * 4096 = a"
    using clear.phys_page[of sv39 a] by (simp_all add: sv39_fields PAGE_SIZE_def MMU_PAGE_SIZE_def)
  have e: "(\<lambda>x. map_option snd ((pg(a \<mapsto> ((BLOCK_TYPE_PAGE, 0), PAGE_SIZE))) x)) = ?live(a \<mapsto> PAGE_SIZE)" by (simp add: fun_eq_iff)
  have "page_pool q' (pg(a \<mapsto> ((BLOCK_TYPE_PAGE, 0), PAGE_SIZE))) (Suc n)" unfolding page_pool_def e using ph place' r(5,6) by blast
  then show ?thesis using t na by metis
qed

lemma page_pool_heap:
  assumes "page_pool q pg n" and "n + k \<le> 6"
  shows "pt_heap sv39 \<lparr>pt_pools = [q], pt_ptes = m\<rparr> pg" and "tables_left mem_set sv39 \<lparr>pt_pools = [q], pt_ptes = m\<rparr> k"
proof -
  note q = assms(1)[unfolded page_pool_def]
  note f = ready_place[OF conjunct1[OF conjunct2[OF q]]]
  have hh: "in_hhdm sv39 [q]" by (simp add: in_hhdm_def sv39_fields f)
  show "pt_heap sv39 \<lparr>pt_pools = [q], pt_ptes = m\<rparr> pg" using q hh by (simp add: pt_heap_def)
  have "heap_inv [q] (\<lambda>a. map_option snd (pg a))" using q page_heap_inv by blast
  then show "tables_left mem_set sv39 \<lparr>pt_pools = [q], pt_ptes = m\<rparr> k"
    using q f(1,4) assms(2) by (intro tables_from_pool[OF hh, where w = 6]) (auto simp: sv39_fields f)
qed

lemma example_roots:
  "\<exists>pools pg root root'. root \<in> used_pages sv39 pg \<and> root' \<in> used_pages sv39 pg \<and> root \<noteq> root' \<and>
     (\<forall>m. pt_heap sv39 \<lparr>pt_pools = pools, pt_ptes = m\<rparr> pg \<and> tables_left mem_set sv39 \<lparr>pt_pools = pools, pt_ptes = m\<rparr> 2)"
proof -
  obtain q root where q: "page_pool q (Map.empty(root * 4096 \<mapsto> ((BLOCK_TYPE_PAGE, 0), PAGE_SIZE))) 1" "unat root < 2 ^ 44"
    using page_pool_next[OF page_pool_start] by auto
  let ?pg = "Map.empty(root * 4096 \<mapsto> ((BLOCK_TYPE_PAGE, 0::u32), PAGE_SIZE))"
  obtain q' root' where q': "page_pool q' (?pg(root' * 4096 \<mapsto> ((BLOCK_TYPE_PAGE, 0), PAGE_SIZE))) 2" "root' * 4096 \<notin> dom ?pg" "unat root' < 2 ^ 44"
    using page_pool_next[OF q(1)] by (auto simp: numeral_2_eq_2)
  let ?pg' = "?pg(root' * 4096 \<mapsto> ((BLOCK_TYPE_PAGE, 0), PAGE_SIZE))"
  have "root \<in> used_pages sv39 ?pg'" "root' \<in> used_pages sv39 ?pg'" "root \<noteq> root'"
    using q(2) q'(2,3) by (auto simp: used_pages_def sv39_fields MMU_PAGE_SIZE_def)
  moreover have "pt_heap sv39 \<lparr>pt_pools = [q'], pt_ptes = m\<rparr> ?pg' \<and> tables_left mem_set sv39 \<lparr>pt_pools = [q'], pt_ptes = m\<rparr> 2" for m
    using page_pool_heap(1)[OF q'(1), of 2 m] page_pool_heap(2)[OF q'(1), of 2 mem_set m] by simp
  ultimately show ?thesis by blast
qed

text \<open>
  A root table as \<^verbatim>\<open>memprotect_create\<close> copies it from the global one: the first gibibyte of the direct map, as one leaf
  of 1 GiB at the start of the upper half, and nothing else.
\<close>

abbreviation hhdm_leaf :: mmu_pte where
  "hhdm_leaf \<equiv> mmu_pte_new_leaf sv39 0 0x33"

lemma hhdm_table:
  assumes table: "\<forall>i < 512. m (slot t i) = (if i = 256 then hhdm_leaf else MMU_PTE_NULL)" and t: "unat t < 2 ^ 44"
  shows "pt_ok m t 3" and "tabs m t 3 \<subseteq> {t}" and "view m t 3 x = (if x div 2 ^ 18 mod 512 = 256 then (Some (x mod 2 ^ 18, 0x33), True) else (None, False))"
proof -
  note m = table[rule_format]
  have e: "leaf hhdm_leaf" "sub hhdm_leaf = 0" "mmu_pte_get_flags hhdm_leaf = 0x33"
    using pte_new_leaf_leaf[of "0x33" 0 sv39] by (simp_all add: get_flags_new_leaf leaf_flags_def flag_defs)
  have ni: "\<not> inner hhdm_leaf" using e(1) inner_not_leaf by blast
  have inn: "\<not> inner (m (slot t i))" if "i < 512" for i using m[OF that] ni null_entry(1) by simp
  have lf: "leaf (m (slot t i)) \<longleftrightarrow> i = 256" if "i < 512" for i using m[OF that] e(1) null_entry(2) by simp
  have al: "sub (m (slot t i)) = 0" if "i < 512" "i = 256" for i using m[OF that(1)] that(2) e(2) by simp
  have s: "(2::nat) ^ (9 * Suc (Suc 0)) = 2 ^ 18" by simp
  have a: "\<forall>i < 512. leaf (m (slot t i)) \<longrightarrow> Suc (Suc 0) \<le> 3 \<and> 2 ^ (9 * Suc (Suc 0)) dvd unat (sub (m (slot t i)))" using lf al by simp
  show "pt_ok m t 3" unfolding numeral_3_eq_3 pt_ok.simps(2)[of m t "Suc (Suc 0)"] using t a inn by blast
  show "tabs m t 3 \<subseteq> {t}" unfolding numeral_3_eq_3 tabs.simps(2)[of m t "Suc (Suc 0)"] using inn by blast
  let ?i = "x div 2 ^ 18 mod 512"
  have i: "?i < 512" by simp
  show "view m t 3 x = (if ?i = 256 then (Some (x mod 2 ^ 18, 0x33), True) else (None, False))"
    unfolding numeral_3_eq_3 view.simps(2)[of m t "Suc (Suc 0)"] Let_def s using inn[OF i] lf[OF i] m[OF i] e
    by (cases "?i = 256") simp_all
qed

lemma slot_256: "unat p < 2 ^ 44 \<Longrightarrow> unat q < 2 ^ 44 \<Longrightarrow> i < 512 \<Longrightarrow> slot p i = slot q 256 \<longleftrightarrow> p = q \<and> i = 256"
  using slot_inj[of p i q 256] by auto

lemma example_context:
  "\<exists>st pg root. context_ok sv39 st pg root \<and> tables_left mem_set sv39 st 2 \<and> none_huge (pt_ptes st) root 3 1 1 \<and>
     translate sv39 (pt_ptes st) root 0xFFFFFFC000001234 = Some (0x1234, 0x33)"
proof -
  obtain pools pg root where e: "root \<in> used_pages sv39 pg" "\<And>m. pt_heap sv39 \<lparr>pt_pools = pools, pt_ptes = m\<rparr> pg"
    "\<And>m. tables_left mem_set sv39 \<lparr>pt_pools = pools, pt_ptes = m\<rparr> 2" using example_roots by blast
  have r: "unat root < 2 ^ 44" using e(1) by (simp add: used_pages_def)
  let ?m = "(\<lambda>_. MMU_PTE_NULL)(slot root 256 := hhdm_leaf)"
  have "\<forall>i < 512. ?m (slot root i) = (if i = 256 then hhdm_leaf else MMU_PTE_NULL)"
    unfolding fun_upd_apply using slot_256[OF r r] by (simp only: simp_thms split: if_split) blast
  note t = hhdm_table[of ?m root, OF this r]
  have "context_ok sv39 \<lparr>pt_pools = pools, pt_ptes = ?m\<rparr> pg root"
    unfolding context_ok_def sv39_fields using t(1,2) e(1,2) by (simp only: pt_state.simps) blast
  moreover have "none_huge ?m root 3 1 1" unfolding none_huge_def huge_view t(3) by auto
  moreover have "translate sv39 ?m root 0xFFFFFFC000001234 = Some (0x1234, 0x33)"
    unfolding translate_def look_view sv39_fields t(3) by (simp add: canonical_def sv39_fields)
  ultimately show ?thesis using e(3) by (metis pt_state.select_convs(2))
qed

section \<open>Properties\<close>

text \<open>
  C4: \<^verbatim>\<open>memprotect_u\<close> maps what it is asked to and nothing else. The request is for a page-aligned range in the lower
  half, smaller than 256 TiB, to physical addresses below \<open>2 ^ 56\<close>, with at least one of the permissions to read, write
  and execute; no page of the range lies in an existing leaf of 1 GiB or more, since \<^verbatim>\<open>pt_split\<close> breaks those (see
  \<open>pt_split_gigapage_panics\<close>); and the page allocator still has a table for every level below the root and every page. The
  context may have such leaves elsewhere, as the direct map does. Then the request is accepted, every address of the range
  translates to the same offset from \<open>paddr\<close> with the requested permissions, the translation of every other address is
  unchanged, and the tables still form a tree in allocated pages.
\<close>

theorem memprotect_u_translates:
  assumes "pte_memory mem_set cfg" and "8 \<le> mode" and "mode \<le> 10" and "cfg = mmu_early_init mode cfg0" and "context_ok cfg (mm_pt st) pg root"
    and "unat vaddr mod 4096 = 0" and "unat paddr mod 4096 = 0" and "unat len mod 4096 = 0"
    and "unat vaddr + unat len \<le> unat (mmu_half_size cfg)" and "unat paddr + unat len \<le> 2 ^ 56" and "unat len < 2 ^ 48"
    and "none_huge (pt_ptes (mm_pt st)) root (mmu_levels cfg) (unat vaddr div 4096) (unat len div 4096)"
    and "flags AND FLAG_RWX \<noteq> 0" and "tables_left mem_set cfg (mm_pt st) (unat len div 4096 * (mmu_levels cfg - 1))"
  shows "\<exists>st' pg'. memprotect_u mem_set cfg st root vaddr paddr len flags = Some (st', True) \<and> context_ok cfg (mm_pt st') pg' root \<and>
    (\<forall>v. translate cfg (pt_ptes (mm_pt st')) root v =
      (if unat vaddr \<le> unat v \<and> unat v < unat vaddr + unat len then Some (paddr + (v - vaddr), user_flags flags)
       else translate cfg (pt_ptes (mm_pt st)) root v))"
  using pte_memory.memprotect_u_ok[OF assms(1) _ assms(5-14)] early_init_half[OF assms(2,3)] assms(4) by blast

theorem memprotect_u_translates_witness:
  "\<exists>st root st'. memprotect_u (clear_ptes sv39) sv39 st root 0x1000 0x80005000 0x1000 3 = Some (st', True) \<and>
     translate sv39 (pt_ptes (mm_pt st')) root 0x1234 = Some (0x80005234, 3) \<and>
     translate sv39 (pt_ptes (mm_pt st')) root 0xFFFFFFC000001234 = Some (0x1234, 0x33)"
proof -
  obtain s pg root where s: "context_ok sv39 s pg root" "tables_left (clear_ptes sv39) sv39 s 2" "none_huge (pt_ptes s) root 3 1 1"
    "translate sv39 (pt_ptes s) root 0xFFFFFFC000001234 = Some (0x1234, 0x33)" using example_context by blast
  let ?st = "\<lparr>mm_pt = s, mm_global = 0, mm_ctx_list = []\<rparr>"
  have "context_ok sv39 (mm_pt ?st) pg root" "tables_left (clear_ptes sv39) sv39 (mm_pt ?st) (unat (0x1000::u64) div 4096 * (mmu_levels sv39 - 1))"
    "none_huge (pt_ptes (mm_pt ?st)) root (mmu_levels sv39) (unat (0x1000::u64) div 4096) (unat (0x1000::u64) div 4096)"
    using s by (simp_all add: sv39_fields)
  from memprotect_u_translates[OF clear.pte_memory_axioms _ _ sv39_def this(1), where vaddr = "0x1000" and paddr = "0x80005000" and len = "0x1000" and flags = 3] this(2,3)
  obtain st' where "memprotect_u (clear_ptes sv39) sv39 ?st root 0x1000 0x80005000 0x1000 3 = Some (st', True)"
    "\<forall>v. translate sv39 (pt_ptes (mm_pt st')) root v = (if unat (0x1000::u64) \<le> unat v \<and> unat v < unat (0x1000::u64) + unat (0x1000::u64)
      then Some (0x80005000 + (v - 0x1000), user_flags 3) else translate sv39 (pt_ptes (mm_pt ?st)) root v)"
    by (auto simp: sv39_fields FLAG_RWX_def)
  moreover from spec[OF this(2), of "0x1234"] spec[OF this(2), of "0xFFFFFFC000001234"] s(4)
  have "translate sv39 (pt_ptes (mm_pt st')) root 0x1234 = Some (0x80005234, 3)" "translate sv39 (pt_ptes (mm_pt st')) root 0xFFFFFFC000001234 = Some (0x1234, 0x33)"
    by (simp_all add: user_flags_def FLAG_RWX_def FLAG_W_def FLAG_R_def)
  ultimately show ?thesis by blast
qed

text \<open>
  C8: \<^verbatim>\<open>memprotect_virt2phys\<close> is the translation: on a tree of tables, whose leaves are aligned and of any level up to the
  third, it never panics, and gives the physical address and flags of the mapping for every address that has one and zeros
  for every other.
\<close>

theorem memprotect_virt2phys_translates:
  assumes "8 \<le> mode" and "mode \<le> 10" and "cfg = mmu_early_init mode cfg0" and "pt_ok m root (mmu_levels cfg)"
  shows "\<exists>r. memprotect_virt2phys cfg m root vaddr = Some r \<and>
    (vp_paddr r, vp_flags r) = (case translate cfg m root vaddr of None \<Rightarrow> (0, 0) | Some t \<Rightarrow> t)"
  by (rule virt2phys_translate[OF _ assms(4)]) (simp add: assms(3) early_init_half[OF assms(1,2)])

theorem memprotect_virt2phys_translates_witness:
  "\<exists>m root r. memprotect_virt2phys sv39 m root 0xFFFFFFC000001234 = Some r \<and> vp_paddr r = 0x1234 \<and> vp_flags r = 0x33"
proof -
  obtain s pg root where "context_ok sv39 s pg root" and tr: "translate sv39 (pt_ptes s) root 0xFFFFFFC000001234 = Some (0x1234, 0x33)"
    using example_context by blast
  then have "pt_ok (pt_ptes s) root (mmu_levels sv39)" by (simp add: context_ok_def)
  from memprotect_virt2phys_translates[OF _ _ sv39_def this, of "0xFFFFFFC000001234"] show ?thesis by (auto simp: tr)
qed

lemma broadcast_other:
  assumes "unat dest < 2 ^ 44" and "unat t < 2 ^ 44" and "t \<noteq> dest" and "j < 512"
  shows "pt_ptes (broadcast_to dest src st) (slot t j) = pt_ptes st (slot t j)"
proof -
  have "\<forall>i \<in> set is. i < 512 \<Longrightarrow> pt_ptes (fold (\<lambda>i st. let pte = pt_ptes st (slot src i)
      in if mmu_pte_is_valid pte then mmu_write_pte (slot dest i) pte st else st) is st) (slot t j) = pt_ptes st (slot t j)" for "is"
  proof (induction "is" arbitrary: st)
    case (Cons i "is")
    have "slot t j \<noteq> slot dest i" using slot_inj(1)[OF assms(2,4,1)] assms(3) Cons.prems by auto
    then show ?case using Cons.IH Cons.prems by (simp add: Let_def)
  qed simp
  note this[of "[256..<512]"]
  moreover have "\<forall>i \<in> set [256..<512]. i < (512::nat)" by (simp only: set_upt Ball_def atLeastLessThan_iff) blast
  ultimately show ?thesis unfolding broadcast_to_def by blast
qed

lemma broadcasts_other:
  assumes "unat dest < 2 ^ 44" and "unat t < 2 ^ 44" and "t \<noteq> dest" and "j < 512"
  shows "pt_ptes (fold (\<lambda>root. broadcast_to dest root) roots st) (slot t j) = pt_ptes st (slot t j)"
  by (induction roots arbitrary: st) (simp_all add: broadcast_other[OF assms])

context pte_memory begin

lemma kernel_map:
  assumes cfg: "half_ok cfg" and ctx: "context_ok cfg (mm_pt st) pg (mm_global st)" and f: "flags AND FLAG_RWX \<noteq> 0"
    and big: "none_huge (pt_ptes (mm_pt st)) (mm_global st) (mmu_levels cfg) (unat vpn mod 2 ^ (9 * mmu_levels cfg)) (unat pages)"
    and bnd: "unat pages < 2 ^ 36" "unat ppn + unat pages \<le> 2 ^ 44" "unat vpn mod 2 ^ (9 * mmu_levels cfg) + unat pages \<le> 2 ^ (9 * mmu_levels cfg)"
      "unat vpn + unat pages < 2 ^ 64" and left: "tables_left mem_set cfg (mm_pt st) (unat pages * (mmu_levels cfg - 1))"
    and root: "root \<in> used_pages cfg pg" "root \<notin> tabs (pt_ptes (mm_pt st)) (mm_global st) (mmu_levels cfg)" and i: "i < 512"
  shows "\<exists>st'. memprotect_impl mem_set cfg st (mm_global st) vpn ppn pages flags = Some st' \<and>
    pt_ptes (mm_pt st') (slot root i) = pt_ptes (mm_pt st) (slot root i)"
proof -
  obtain l where l: "mmu_levels cfg = Suc l" "l \<le> 4" using cfg by (cases "mmu_levels cfg") (auto simp: half_ok_def)
  let ?m = "pt_ptes (mm_pt st)" let ?g = "mm_global st"
  define g where "g = (if flags AND FLAG_W \<noteq> 0 then flags OR FLAG_R else flags)"
  have fg: "g AND FLAG_RWX \<noteq> 0"
  proof -
    have "bit ((flags OR FLAG_R) AND FLAG_RWX) 0" by (simp add: bit_simps FLAG_R_def FLAG_RWX_def)
    then have "(flags OR FLAG_R) AND FLAG_RWX \<noteq> 0" by auto
    then show ?thesis using f by (simp add: g_def)
  qed
  obtain s te pg' where s: "pt_map mem_set cfg (mm_pt st) ?g l vpn ppn pages g = Some (s, te)"
      "range_result cfg ?g (Suc l) (unat vpn mod 2 ^ (9 * Suc l)) (unat ppn) (unat pages) g (mm_pt st) pg s pg'"
    using map_pages_ok[OF fg l(2), of "mm_pt st" pg ?g pages ppn vpn False] ctx bnd left big
    unfolding context_ok_def pt_map_def l by auto
  have "agree ?m (pt_ptes s) (used_pages cfg pg - tabs ?m ?g (Suc l))" using s(2) unfolding range_result_def by blast
  then have keep: "pt_ptes s (slot root i) = ?m (slot root i)" using root i unfolding l by (intro agreeD[of _ _ "used_pages cfg pg - tabs ?m ?g (Suc l)"]) simp_all
  have u: "unat root < 2 ^ 44" using root(1) by (simp add: used_pages_def)
  have g44: "unat ?g < 2 ^ 44" and ng: "root \<noteq> ?g" using ctx root(2) unfolding context_ok_def l by auto
  note bo = broadcasts_other[OF g44 u ng i]
  show ?thesis
    unfolding memprotect_impl_def Let_def g_def[symmetric] l using fg s(1) keep bo by simp
qed

lemma split_gigapage:
  assumes inv: "pt_heap cfg st pg" and root: "root \<in> used_pages cfg pg" and e: "e = pt_ptes st (slot root (unat vpn div 2 ^ 18 mod 512))" "leaf e" "2 ^ 18 dvd unat (sub e)"
    and split: "pt_split mem_set cfg st (slot root (unat vpn div 2 ^ 18 mod 512)) e = Some (st', t)" and j: "unat vpn div 512 mod 512 \<noteq> 0"
  shows "\<exists>w. pt_walk_loop (pt_ptes st) root vpn 3 = Some w \<and> w_found w" and "pt_walk_loop (pt_ptes st') root vpn 3 = None"
proof -
  let ?i = "unat vpn div 2 ^ 18 mod 512" let ?j = "unat vpn div 512 mod 512" let ?m = "pt_ptes st" let ?m' = "pt_ptes st'"
  have i: "?i < 512" "?j < 512" by simp_all
  note unfold = pt_walk_loop.simps Let_def vpn_part
  have v: "mmu_pte_is_valid e" "mmu_pte_is_leaf e" using e(2) by (simp_all add: leaf_def)
  have al: "sub e AND (push_bit (9 * 2) 1 - 1) = 0" using e(3) unfolding and_mask_dvd by simp
  show "\<exists>w. pt_walk_loop ?m root vpn 3 = Some w \<and> w_found w"
    unfolding numeral_3_eq_3 unfold using v e(1) al by (simp flip: numeral_2_eq_2)
  obtain pg2 where g: "t \<notin> used_pages cfg pg" "unat t < 2 ^ 44"
    "\<forall>q j. unat q < 2 ^ 44 \<longrightarrow> j < 512 \<longrightarrow> ?m' (slot q j) =
      (if q = root \<and> j = ?i then mmu_pte_new t else if q = t then mmu_pte_new_leaf cfg (sub e + of_nat j) (mmu_pte_get_flags e) else ?m (slot q j))"
    by (rule split_entries[OF inv root i(1) split])
  have r44: "unat root < 2 ^ 44" using root by (simp add: used_pages_def)
  have top: "?m' (slot root ?i) = mmu_pte_new t" using g(3) r44 i(1) by simp
  let ?f = "mmu_pte_new_leaf cfg (sub e + of_nat ?j) (mmu_pte_get_flags e)"
  have low: "?m' (slot t ?j) = ?f" using g(1,3) root g(2) i(2) by auto
  obtain c where c: "unat (sub e) = c * 2 ^ 18" using e(3) by (metis dvd_def mult.commute)
  have "c * 2 ^ 18 < 2 ^ 26 * 2 ^ 18" using unat_sub_pte[of e] unfolding c by simp
  then have "c < 2 ^ 26" by (simp only: mult_less_cancel2)
  then have s: "unat (sub e) + ?j < 2 ^ 44" using i(2) unfolding c by simp
  have u: "unat (sub e + of_nat ?j) = unat (sub e) + ?j"
    using s unat_of_nat_small[of "unat (sub e) + ?j", where 'a = 64] by simp
  have lf: "leaf ?f" "sub ?f = sub e + of_nat ?j" using pte_new_leaf_leaf[OF get_flags_leaf(2)[OF e(2)], of "sub e + of_nat ?j" cfg] s u by simp_all
  have "\<not> 512 dvd unat (sub e) + ?j" using j i(2) unfolding c by (simp add: dvd_add_right_iff dvd_mult nat_dvd_not_less)
  then have mis: "sub ?f AND (push_bit (9 * 1) 1 - 1) \<noteq> 0" unfolding and_mask_dvd lf(2) u by simp
  have inn: "inner (mmu_pte_new t)" "sub (mmu_pte_new t) = t" by (rule pte_new_inner[OF g(2)])+
  show "pt_walk_loop ?m' root vpn 3 = None"
    unfolding numeral_3_eq_3 unfold using top low lf(1) inn mis by (simp add: leaf_def inner_def flip: numeral_2_eq_2)
qed

end


text \<open>
  C25: a kernel mapping does not reach the other contexts. After a mapping in the global table, the
  entries of every other context's root table are what they were, although the tables are
  broadcast: \<^verbatim>\<open>broadcast_to\<close> is called with the global table as its destination. The mapping is one that goes through:
  it has a permission, fewer than \<open>2 ^ 36\<close> pages, lies in the space the tables span and in 44-bit physical page numbers, meets no
  existing leaf of 1 GiB or more, and there is memory for its tables; the other root table is an allocated page outside
  the global tree.
\<close>

theorem kernel_map_not_broadcast:
  assumes "pte_memory mem_set cfg" and "8 \<le> mode" and "mode \<le> 10" and "cfg = mmu_early_init mode cfg0"
    and "context_ok cfg (mm_pt st) pg (mm_global st)" and "flags AND FLAG_RWX \<noteq> 0"
    and "none_huge (pt_ptes (mm_pt st)) (mm_global st) (mmu_levels cfg) (unat vpn mod 2 ^ (9 * mmu_levels cfg)) (unat pages)"
    and "unat pages < 2 ^ 36" and "unat ppn + unat pages \<le> 2 ^ 44" and "unat vpn mod 2 ^ (9 * mmu_levels cfg) + unat pages \<le> 2 ^ (9 * mmu_levels cfg)"
    and "unat vpn + unat pages < 2 ^ 64" and "tables_left mem_set cfg (mm_pt st) (unat pages * (mmu_levels cfg - 1))"
    and "root \<in> used_pages cfg pg" and "root \<notin> tabs (pt_ptes (mm_pt st)) (mm_global st) (mmu_levels cfg)" and "i < 512"
  shows "\<exists>st'. memprotect_impl mem_set cfg st (mm_global st) vpn ppn pages flags = Some st' \<and>
    pt_ptes (mm_pt st') (slot root i) = pt_ptes (mm_pt st) (slot root i)"
  using pte_memory.kernel_map[OF assms(1) _ assms(5-15)] early_init_half[OF assms(2,3)] assms(4) by blast

theorem kernel_map_not_broadcast_witness:
  "\<exists>st root st'. root \<in> set (mm_ctx_list st) \<and> memprotect_impl (clear_ptes sv39) sv39 st (mm_global st) 0xFFFFFFFC00000 0x80005 1 0x33 = Some st' \<and>
     mmu_pte_is_valid (pt_ptes (mm_pt st') (slot root 256)) \<and> \<not> mmu_pte_is_valid (pt_ptes (mm_pt st') (slot root 496))"
proof -
  obtain pools pg g root where e: "g \<in> used_pages sv39 pg" "root \<in> used_pages sv39 pg" "g \<noteq> root"
    "\<And>m. pt_heap sv39 \<lparr>pt_pools = pools, pt_ptes = m\<rparr> pg \<and> tables_left (clear_ptes sv39) sv39 \<lparr>pt_pools = pools, pt_ptes = m\<rparr> 2"
    using example_roots by blast
  let ?m = "(\<lambda>_. MMU_PTE_NULL)(slot g 256 := hhdm_leaf, slot root 256 := hhdm_leaf)"
  let ?s = "\<lparr>pt_pools = pools, pt_ptes = ?m\<rparr>" let ?st = "\<lparr>mm_pt = ?s, mm_global = g, mm_ctx_list = [root]\<rparr>"
  have u: "unat g < 2 ^ 44" "unat root < 2 ^ 44" using e(1,2) by (simp_all add: used_pages_def)
  have m: "\<forall>i < 512. ?m (slot q i) = (if i = 256 then hhdm_leaf else MMU_PTE_NULL)" if q: "q = g \<or> q = root" for q
  proof -
    have "unat q < 2 ^ 44" using q u by blast
    from slot_256[OF this u(1)] slot_256[OF this u(2)] show ?thesis unfolding fun_upd_apply using q by (simp only: simp_thms split: if_split) blast
  qed
  note t = hhdm_table[OF m[OF disjI1[OF refl]] u(1)]
  have three: "mmu_levels sv39 = 3" by (simp add: sv39_fields)
  have "context_ok sv39 (mm_pt ?st) pg (mm_global ?st)" unfolding context_ok_def three using t(1,2) e(1,4) by (simp only: mmu_state.simps pt_state.simps) blast
  moreover have "root \<notin> tabs (pt_ptes (mm_pt ?st)) (mm_global ?st) (mmu_levels sv39)" unfolding three using t(2) e(3) by (simp only: mmu_state.simps pt_state.simps) blast
  moreover have "tables_left (clear_ptes sv39) sv39 (mm_pt ?st) (unat (1::u64) * (mmu_levels sv39 - 1))" using e(4) by (simp add: sv39_fields)
  moreover have "none_huge (pt_ptes (mm_pt ?st)) (mm_global ?st) (mmu_levels sv39) (unat (0xFFFFFFFC00000::u64) mod 2 ^ (9 * mmu_levels sv39)) (unat (1::u64))"
  proof -
    have "\<not> huge ?m g 3 130023424" unfolding huge_view t(3) by simp
    then have "none_huge ?m g 3 130023424 1" unfolding none_huge_def by (metis add.commute le_antisym less_Suc_eq_le plus_1_eq_Suc)
    then show ?thesis unfolding three mmu_state.simps pt_state.simps by simp
  qed
  ultimately have k: "\<exists>st'. memprotect_impl (clear_ptes sv39) sv39 ?st (mm_global ?st) 0xFFFFFFFC00000 0x80005 1 0x33 = Some st' \<and>
      pt_ptes (mm_pt st') (slot root i) = pt_ptes (mm_pt ?st) (slot root i)" if "i < 512" for i
    using e(2) that by (intro kernel_map_not_broadcast[OF clear.pte_memory_axioms _ _ sv39_def, where pg = pg]) (simp_all add: FLAG_RWX_def sv39_fields)
  obtain st' where st': "memprotect_impl (clear_ptes sv39) sv39 ?st (mm_global ?st) 0xFFFFFFFC00000 0x80005 1 0x33 = Some st'"
    "pt_ptes (mm_pt st') (slot root 256) = ?m (slot root 256)" using k[of 256] by auto
  have k2: "pt_ptes (mm_pt st') (slot root 496) = ?m (slot root 496)" using k[of 496] st'(1) by auto
  have mr: "?m (slot root 256) = hhdm_leaf" "?m (slot root 496) = MMU_PTE_NULL" using m[of root, rule_format, of 256] m[of root, rule_format, of 496] by simp_all
  have "mmu_pte_is_valid hhdm_leaf" by (simp add: mmu_pte_is_valid_def mmu_pte_new_leaf_def FLAG_RWX_def)
  then have "mmu_pte_is_valid (pt_ptes (mm_pt st') (slot root 256))" unfolding st'(2) mr .
  moreover have "\<not> mmu_pte_is_valid (pt_ptes (mm_pt st') (slot root 496))" unfolding k2 mr by (simp add: mmu_pte_is_valid_def MMU_PTE_NULL_def)
  moreover have "root \<in> set (mm_ctx_list ?st)" by simp
  ultimately show ?thesis using st'(1) by blast
qed

text \<open>
  C23: splitting a 1 GiB page loses it. A leaf of the third level translates every one of its addresses;
  after \<^verbatim>\<open>pt_split\<close> the walk for any address past its first 2 MiB panics, since the new leaves are 4 KiB
  apart and so misaligned for their level.
\<close>

theorem pt_split_gigapage_panics:
  assumes "pte_memory mem_set cfg" and "pt_heap cfg st pg" and "root \<in> used_pages cfg pg"
    and "e = pt_ptes st (slot root (unat vpn div 2 ^ 18 mod 512))" and "leaf e" and "2 ^ 18 dvd unat (sub e)"
    and "pt_split mem_set cfg st (slot root (unat vpn div 2 ^ 18 mod 512)) e = Some (st', t)" and "unat vpn div 512 mod 512 \<noteq> 0"
  shows "(\<exists>w. pt_walk_loop (pt_ptes st) root vpn 3 = Some w \<and> w_found w) \<and> pt_walk_loop (pt_ptes st') root vpn 3 = None"
  using pte_memory.split_gigapage[OF assms] by blast

theorem pt_split_gigapage_panics_witness:
  "\<exists>st root st' t. pt_split (clear_ptes sv39) sv39 st (slot root 0) (mmu_pte_new_leaf sv39 0 3) = Some (st', t) \<and>
     (\<exists>w. pt_walk_loop (pt_ptes st) root 512 3 = Some w \<and> w_found w) \<and> pt_walk_loop (pt_ptes st') root 512 3 = None"
proof -
  obtain pools pg root where e: "root \<in> used_pages sv39 pg"
    "\<And>m. pt_heap sv39 \<lparr>pt_pools = pools, pt_ptes = m\<rparr> pg" "\<And>m. tables_left (clear_ptes sv39) sv39 \<lparr>pt_pools = pools, pt_ptes = m\<rparr> 2"
    using example_roots by blast
  let ?e = "mmu_pte_new_leaf sv39 0 3" let ?s = "\<lparr>pt_pools = pools, pt_ptes = \<lambda>_. ?e\<rparr>"
  obtain s1 t where "pt_new_table (clear_ptes sv39) sv39 ?s = Some (s1, t)" 
    using e(3)[of "\<lambda>_. ?e"] by (auto simp: numeral_2_eq_2 split: option.splits)
  then obtain s2 where s2: "pt_split (clear_ptes sv39) sv39 ?s (slot root 0) ?e = Some (s2, t)" using split_pools by blast
  have l: "leaf ?e" "sub ?e = 0" using pte_new_leaf_leaf[of 3 0 sv39] by (simp_all add: FLAG_RWX_def)
  have z: "unat (512::u64) div 2 ^ 18 mod 512 = 0" "unat (512::u64) div 512 mod 512 \<noteq> 0" by simp_all
  have "?e = pt_ptes ?s (slot root (unat (512::u64) div 2 ^ 18 mod 512))" by simp
  from pt_split_gigapage_panics[OF clear.pte_memory_axioms e(2,1) this l(1) _ _ z(2), unfolded z(1), of s2 t] s2 l(2)
  have "(\<exists>w. pt_walk_loop (pt_ptes ?s) root 512 3 = Some w \<and> w_found w) \<and> pt_walk_loop (pt_ptes s2) root 512 3 = None" by simp
  then show ?thesis using s2 by blast
qed

text \<open>
  C24: \<^verbatim>\<open>pt_unmap_1\<close> indexes every table with the lowest part of the page number. A mapped page stays mapped when
  the top-level entry with that index is not valid, and the caller is told that all is well.
\<close>

theorem pt_unmap_1_keeps_mapping:
  assumes "look (pt_ptes st) root (Suc l) (unat vpn) = Some z" and "0 < l" and "\<not> mmu_pte_is_valid (pt_ptes st (slot root (unat vpn mod 512)))"
  shows "\<exists>st'. pt_unmap_1 mem_set cfg st root l vpn 0 = Some (st', False) \<and> look (pt_ptes st') root (Suc l) (unat vpn) = Some z"
proof -
  have "pt_unmap_1 mem_set cfg st root l vpn 0 = Some (st, False)"
    unfolding pt_unmap_1_def by (subst pt_unmap_loop.simps) (use assms(2,3) in \<open>simp add: vpn_part Let_def\<close>)
  then show ?thesis using assms(1) by blast
qed

theorem pt_unmap_1_keeps_mapping_witness:
  "\<exists>(st :: pt_state) st'. look (pt_ptes st) 1 2 512 = Some (0x80005, 3) \<and> pt_unmap_1 (clear_ptes sv39) sv39 st 1 1 512 0 = Some (st', False) \<and> look (pt_ptes st') 1 2 512 = Some (0x80005, 3)"
proof -
  let ?m = "(\<lambda>_. MMU_PTE_NULL)(slot 1 1 := mmu_pte_new 2, slot 2 0 := mmu_pte_new_leaf sv39 0x80005 3)" let ?s = "\<lparr>pt_pools = [], pt_ptes = ?m\<rparr>"
  have a: "slot 1 1 = 0x1008" "slot 2 0 = 0x2000" "slot 1 0 = 0x1000" by (simp_all add: pte_address_def MMU_PAGE_SIZE_def)
  have i: "inner (mmu_pte_new 2)" "sub (mmu_pte_new 2) = 2" using pte_new_inner[of 2] by simp_all
  have e: "leaf (mmu_pte_new_leaf sv39 0x80005 3)" "sub (mmu_pte_new_leaf sv39 0x80005 3) = 0x80005" using pte_new_leaf_leaf[of 3 "0x80005" sv39] by (simp_all add: FLAG_RWX_def)
  have f: "mmu_pte_get_flags (mmu_pte_new_leaf sv39 0x80005 3) = 3" unfolding get_flags_new_leaf by (simp add: leaf_flags_def FLAG_RWX_def FLAG_GLOBAL_def FLAG_KERNEL_def)
  have l: "look (pt_ptes ?s) 1 (Suc 1) (unat (512::u64)) = Some (0x80005, 3)" using i e f inner_not_leaf[of "mmu_pte_new_leaf sv39 0x80005 3"] by (auto simp: Let_def a)
  have "\<not> mmu_pte_is_valid (pt_ptes ?s (slot 1 (unat (512::u64) mod 512)))" by (simp add: pte_address_def MMU_PAGE_SIZE_def mmu_pte_is_valid_def MMU_PTE_NULL_def)
  from pt_unmap_1_keeps_mapping[OF l zero_less_one this, of "clear_ptes sv39" sv39]
  have "\<exists>st'. pt_unmap_1 (clear_ptes sv39) sv39 ?s 1 1 512 0 = Some (st', False) \<and> look (pt_ptes st') 1 (Suc 1) (unat (512::u64)) = Some (0x80005, 3)" by blast
  moreover have "Suc 1 = (2::nat)" "unat (512::u64) = 512" by simp_all
  ultimately show ?thesis using l by (metis (no_types))
qed

end
