(* ===== verification/Arrays.thy ===== *)
theory Arrays
  imports Badger_Prelude
begin

text \<open>
  The sorted arrays of \<^verbatim>\<open>arrays.h\<close>, a header of the badgelib library that the kernel's tables of
  address ranges and timers rely on. The library is a parameter: a record of its functions, whose
  documented behaviour the locale states. Arrays are lists; an insertion can fail for lack of memory.
\<close>

record 'a array_ops =
  arr_binsearch :: "('a \<Rightarrow> 'a \<Rightarrow> int) \<Rightarrow> 'a list \<Rightarrow> 'a \<Rightarrow> bool \<times> nat"
  arr_insert :: "'a list \<Rightarrow> 'a \<Rightarrow> nat \<Rightarrow> 'a list option"
  arr_remove :: "'a list \<Rightarrow> nat \<Rightarrow> 'a \<times> 'a list"
  arr_sorted_insert :: "('a \<Rightarrow> 'a \<Rightarrow> int) \<Rightarrow> 'a list \<Rightarrow> 'a \<Rightarrow> 'a list option"

definition put_at :: "'a list \<Rightarrow> nat \<Rightarrow> 'a \<Rightarrow> 'a list" where
  "put_at xs i x = take i xs @ x # drop i xs"

definition cut_at :: "'a list \<Rightarrow> nat \<Rightarrow> 'a list" where
  "cut_at xs i = take i xs @ drop (Suc i) xs"

locale sorted_array =
  fixes ops :: "'a array_ops" and cmp :: "'a \<Rightarrow> 'a \<Rightarrow> int" and key :: "'a \<Rightarrow> 'k::linorder"
  assumes cmp_less: "cmp a b < 0 \<longleftrightarrow> key a < key b" and cmp_eq: "cmp a b = 0 \<longleftrightarrow> key a = key b"
    and binsearch: "sorted (map key xs) \<Longrightarrow> arr_binsearch ops cmp xs x = (found, i) \<Longrightarrow>
      (if found then i < length xs \<and> key (xs ! i) = key x
       else i \<le> length xs \<and> (\<forall>j < i. key (xs ! j) < key x) \<and> (\<forall>j. i \<le> j \<and> j < length xs \<longrightarrow> key x < key (xs ! j)))"
    and insert: "i \<le> length xs \<Longrightarrow> arr_insert ops xs x i = Some ys \<Longrightarrow> ys = put_at xs i x"
    and remove: "i < length xs \<Longrightarrow> arr_remove ops xs i = (xs ! i, cut_at xs i)"
    and sorted_insert: "sorted (map key xs) \<Longrightarrow> arr_sorted_insert ops cmp xs x = Some ys \<Longrightarrow>
      \<exists>i \<le> length xs. ys = put_at xs i x \<and> sorted (map key ys)"
begin

lemma binsearch_found:
  assumes "sorted (map key xs)" and "arr_binsearch ops cmp xs x = (found, i)"
  shows "found \<longleftrightarrow> (\<exists>y \<in> set xs. key y = key x)"
proof
  assume "found"
  then show "\<exists>y \<in> set xs. key y = key x" using binsearch[OF assms] by auto
next
  assume "\<exists>y \<in> set xs. key y = key x"
  then obtain j where "j < length xs" "key (xs ! j) = key x" by (auto simp: in_set_conv_nth)
  then show "found" using binsearch[OF assms] by (cases "j < i"; cases found) (auto simp: not_less)
qed

end

section \<open>Lists with an element put in or cut out\<close>

lemma sum_put_at: "(\<Sum>y \<leftarrow> put_at xs i x. f y) = f x + (\<Sum>y \<leftarrow> xs. f y :: nat)"
proof -
  have "(\<Sum>y \<leftarrow> xs. f y) = (\<Sum>y \<leftarrow> take i xs @ drop i xs. f y)" by simp
  then show ?thesis unfolding put_at_def map_append sum_list_append by simp
qed

lemma sum_cut_at: "i < length xs \<Longrightarrow> f (xs ! i) + (\<Sum>y \<leftarrow> cut_at xs i. f y) = (\<Sum>y \<leftarrow> xs. f y :: nat)"
  using arg_cong[OF id_take_nth_drop[of i xs], of "\<lambda>ys. \<Sum>y \<leftarrow> ys. f y"] by (simp add: cut_at_def)

lemma sum_update: "i < length xs \<Longrightarrow> (\<Sum>y \<leftarrow> xs[i := x]. f y) + f (xs ! i) = f x + (\<Sum>y \<leftarrow> xs. f y :: nat)"
  using sum_cut_at[of i xs f] by (simp add: cut_at_def upd_conv_take_nth_drop)

lemma sum_cut_update:
  assumes "i < length xs" and "l < length xs" and "l \<noteq> i" and "f (xs ! l) + y + f (xs ! i) = f d"
  shows "(\<Sum>z \<leftarrow> cut_at (xs[l := d]) i. f z) = y + (\<Sum>z \<leftarrow> xs. f z :: nat)"
  using sum_cut_at[of i "xs[l := d]" f] sum_update[OF assms(2), of f d] assms by simp

lemma set_put_at: "set (put_at xs i x) = insert x (set xs)"
proof -
  have "set xs = set (take i xs @ drop i xs)" by simp
  then show ?thesis unfolding put_at_def set_append by auto
qed

lemma set_cut_at: "set (cut_at xs i) \<subseteq> set xs"
  unfolding cut_at_def by (auto dest: in_set_takeD in_set_dropD)

lemma sorted_parts:
  assumes "sorted (map f xs)"
  shows "sorted (map f (take i xs))" and "sorted (map f (drop i xs))" and "y \<in> set (take i xs) \<Longrightarrow> z \<in> set (drop i xs) \<Longrightarrow> f y \<le> f z"
proof -
  have "sorted (map f (take i xs) @ map f (drop i xs))" using assms by (simp flip: map_append)
  then show "sorted (map f (take i xs))" "sorted (map f (drop i xs))" "y \<in> set (take i xs) \<Longrightarrow> z \<in> set (drop i xs) \<Longrightarrow> f y \<le> f z"
    by (auto simp: sorted_append)
qed

lemma sorted_cut_at: "sorted (map f xs) \<Longrightarrow> sorted (map f (cut_at xs i))"
  using sorted_parts[where f = f and xs = xs and i = i] sorted_parts(2)[of f xs "Suc i"] set_drop_subset_set_drop[of i "Suc i" xs]
  by (auto simp: cut_at_def sorted_append)

lemma sorted_put_at:
  assumes "sorted (map f xs)" and "i \<le> length xs" and "\<forall>j < i. f (xs ! j) \<le> f x" and "\<forall>j. i \<le> j \<and> j < length xs \<longrightarrow> f x \<le> f (xs ! j)"
  shows "sorted (map f (put_at xs i x))"
proof -
  have "\<forall>y \<in> set (take i xs). f y \<le> f x" using assms(2,3) by (auto simp: in_set_conv_nth)
  moreover have "\<forall>y \<in> set (drop i xs). f x \<le> f y" using assms(2,4) by (auto simp: in_set_conv_nth)
  ultimately show ?thesis unfolding put_at_def using sorted_parts[OF assms(1), where i = i] by (auto simp: sorted_append)
qed

lemma sorted_update_at:
  assumes "sorted (map f xs)" and "i < length xs" and "\<forall>j < i. f (xs ! j) \<le> f y" and "\<forall>j. i < j \<and> j < length xs \<longrightarrow> f y \<le> f (xs ! j)"
  shows "sorted (map f (xs[i := y]))"
proof -
  have "\<forall>z \<in> set (take i xs). f z \<le> f y" using assms(2,3) by (auto simp: in_set_conv_nth)
  moreover have "\<forall>z \<in> set (drop (Suc i) xs). f y \<le> f z" using assms(2,4) by (auto simp: in_set_conv_nth)
  ultimately show ?thesis unfolding upd_conv_take_nth_drop[OF assms(2)]
    using sorted_parts[OF assms(1), where i = i] sorted_parts(2)[OF assms(1), of "Suc i"] set_drop_subset_set_drop[of i "Suc i" xs] by (auto simp: sorted_append)
qed

section \<open>An instance\<close>

text \<open>Arrays by linear search, on which the interface is interpreted for each order the kernel sorts by.\<close>

definition list_binsearch :: "('a \<Rightarrow> 'a \<Rightarrow> int) \<Rightarrow> 'a list \<Rightarrow> 'a \<Rightarrow> bool \<times> nat" where
  "list_binsearch cmp xs x = (let i = length (takeWhile (\<lambda>y. cmp y x < 0) xs) in (i < length xs \<and> cmp (xs ! i) x = 0, i))"

definition list_ops :: "'a array_ops" where
  "list_ops = \<lparr>arr_binsearch = list_binsearch, arr_insert = (\<lambda>xs x i. Some (put_at xs i x)), arr_remove = (\<lambda>xs i. (xs ! i, cut_at xs i)),
     arr_sorted_insert = (\<lambda>cmp xs x. Some (put_at xs (snd (list_binsearch cmp xs x)) x))\<rparr>"

lemma list_sorted_array:
  fixes key :: "'a \<Rightarrow> 'k::linorder"
  assumes less: "\<And>a b. cmp a b < 0 \<longleftrightarrow> key a < key b" and eq: "\<And>a b. cmp a b = 0 \<longleftrightarrow> key a = key b"
  shows "sorted_array list_ops cmp key"
proof -
  have pos: "snd (list_binsearch cmp xs x) \<le> length xs \<and> (\<forall>j < snd (list_binsearch cmp xs x). key (xs ! j) < key x) \<and>
      (\<forall>j. snd (list_binsearch cmp xs x) \<le> j \<and> j < length xs \<longrightarrow> key x \<le> key (xs ! j)) \<and>
      (\<not> fst (list_binsearch cmp xs x) \<longrightarrow> (\<forall>j. snd (list_binsearch cmp xs x) \<le> j \<and> j < length xs \<longrightarrow> key x < key (xs ! j)))"
    if s: "sorted (map key xs)" for xs x
  proof -
    let ?i = "length (takeWhile (\<lambda>y. cmp y x < 0) xs)"
    have low: "key (xs ! j) < key x" if "j < ?i" for j using that less nth_mem[of j "takeWhile (\<lambda>y. cmp y x < 0) xs"] set_takeWhileD[of _ _ xs]
      by (metis takeWhile_nth)
    have at: "\<not> key (xs ! ?i) < key x" if "?i < length xs" using nth_length_takeWhile[OF that] less by simp
    have mono: "key (xs ! ?i) \<le> key (xs ! j)" if "?i \<le> j" "j < length xs" for j using sorted_nth_mono[OF s that(1)] that by simp
    have up: "key x \<le> key (xs ! j)" if "?i \<le> j" "j < length xs" for j using at mono[OF that] that by force
    have "key x < key (xs ! j)" if "?i \<le> j" "j < length xs" "\<not> (?i < length xs \<and> cmp (xs ! ?i) x = 0)" for j
      using up[of ?i] mono[OF that(1,2)] that eq by force
    then show ?thesis using low up length_takeWhile_le by (auto simp: list_binsearch_def Let_def)
  qed
  show ?thesis
  proof unfold_locales
    fix xs x found i assume s: "sorted (map key xs)" and r: "arr_binsearch list_ops cmp xs x = (found, i)"
    then show "if found then i < length xs \<and> key (xs ! i) = key x
       else i \<le> length xs \<and> (\<forall>j < i. key (xs ! j) < key x) \<and> (\<forall>j. i \<le> j \<and> j < length xs \<longrightarrow> key x < key (xs ! j))"
      using pos[OF s, of x] eq by (cases found) (auto simp: list_ops_def list_binsearch_def Let_def)
  next
    fix xs x ys assume "sorted (map key xs)" "arr_sorted_insert list_ops cmp xs x = Some ys"
    then show "\<exists>i \<le> length xs. ys = put_at xs i x \<and> sorted (map key ys)"
      using pos[of xs x] by (intro exI[of _ "snd (list_binsearch cmp xs x)"]) (auto simp: list_ops_def intro!: sorted_put_at less_imp_le)
  qed (use less eq in \<open>simp_all add: list_ops_def\<close>)
qed

end
