(* ===== verification/Vmm.thy ===== *)
theory Vmm
  imports Page_Map Arrays
begin

text \<open>
  The allocator of kernel virtual addresses and the start-up of virtual memory, from
  \<^verbatim>\<open>kernel/port/generic/src/memprotect.c\<close> and \<^verbatim>\<open>kernel/cpu/riscv/src/memprotect/mmu.c\<close>. The mutex
  \<^verbatim>\<open>vmm_mtx\<close> makes each call one step. The storage of the two arrays is not part of the state; what the
  memory behind the free array holds is a parameter, since \<^verbatim>\<open>memprotect_free_vaddr\<close> reads it.
\<close>

section \<open>Definitions\<close>

definition MEMMAP_PAGE_SIZE :: u64 where
  "MEMMAP_PAGE_SIZE = 4096"

definition FLAG_RW :: u32 where
  "FLAG_RW = 3"

definition FLAG_RX :: u32 where
  "FLAG_RX = 5"

definition mmu_hhdm_vpn :: "mmu_config \<Rightarrow> u64" where
  "mmu_hhdm_vpn cfg = mmu_hhdm_vaddr cfg div MMU_PAGE_SIZE"

record vmm_info =
  vi_vpn :: u64
  vi_pages :: u64

definition vmm_info_cmp :: "vmm_info \<Rightarrow> vmm_info \<Rightarrow> int" where
  "vmm_info_cmp a b = (if vi_vpn a > vi_vpn b then 1 else if vi_vpn a < vi_vpn b then - 1 else 0)"

record vmm_state =
  vmm_used :: "vmm_info list"
  vmm_free :: "vmm_info list"

text \<open>The keys of the searches are page numbers, of which the comparison reads nothing else.\<close>

definition vmm_key :: "u64 \<Rightarrow> vmm_info" where
  "vmm_key vpn = \<lparr>vi_vpn = vpn, vi_pages = 0\<rparr>"

definition vmm_mark_reserved :: "vmm_info array_ops \<Rightarrow> mmu_config \<Rightarrow> u64 \<Rightarrow> u64 \<Rightarrow> vmm_state \<Rightarrow> vmm_state option" where
  "vmm_mark_reserved ops cfg vpn0 pages0 st =
     (let (vpn, pages) = (if vpn0 < mmu_high_vpn cfg then (mmu_high_vpn cfg, pages0 - (mmu_high_vpn cfg - vpn0)) else (vpn0, pages0));
          pages = (if vpn + pages > mmu_high_vpn cfg + mmu_half_size cfg then mmu_high_vpn cfg + mmu_half_size cfg - vpn else pages);
          free = vmm_free st;
          (found, index) = arr_binsearch ops vmm_info_cmp free (vmm_key vpn)
      in if \<not> (found \<or> index > 0) then None
         else
           let index = (if found then index else index - 1); range = free ! index; range_end = vi_vpn range + vi_pages range
           in if \<not> (vpn \<ge> vi_vpn range \<and> vpn + pages \<le> range_end) then None
              else if vi_vpn range = vpn \<and> vi_pages range = pages then Some (st\<lparr>vmm_free := snd (arr_remove ops free index)\<rparr>)
              else if vpn > vi_vpn range \<and> vpn + pages < range_end then
                (case arr_insert ops free \<lparr>vi_vpn = vpn + pages, vi_pages = range_end - vpn - pages\<rparr> (index + 1) of
                   None \<Rightarrow> None
                 | Some free \<Rightarrow> Some (st\<lparr>vmm_free := free[index := \<lparr>vi_vpn = vi_vpn range, vi_pages = vpn - vi_vpn range\<rparr>]\<rparr>))
              else if vpn > vi_vpn range then Some (st\<lparr>vmm_free := free[index := range\<lparr>vi_pages := vpn - vi_vpn range\<rparr>]\<rparr>)
              else Some (st\<lparr>vmm_free := free[index := \<lparr>vi_vpn = vpn + pages, vi_pages = range_end - vpn - pages\<rparr>]\<rparr>))"

text \<open>The first free range of at least so many pages.\<close>

fun find_range :: "vmm_info list \<Rightarrow> u64 \<Rightarrow> nat \<Rightarrow> nat option" where
  "find_range [] pages i = None"
| "find_range (r # rs) pages i = (if vi_pages r \<ge> pages then Some i else find_range rs pages (i + 1))"

definition memprotect_alloc_vaddr :: "vmm_info array_ops \<Rightarrow> u64 \<Rightarrow> vmm_state \<Rightarrow> (vmm_state \<times> u64) option" where
  "memprotect_alloc_vaddr ops len st =
     (let pages = (len - 1) div MEMMAP_PAGE_SIZE + 3; free = vmm_free st
      in case find_range free pages 0 of
           None \<Rightarrow> None
         | Some i \<Rightarrow>
             let range = free ! i
             in case arr_sorted_insert ops vmm_info_cmp (vmm_used st) \<lparr>vi_vpn = vi_vpn range, vi_pages = pages\<rparr> of
                  None \<Rightarrow> None
                | Some used \<Rightarrow>
                    Some (\<lparr>vmm_used = used,
                            vmm_free = (if vi_pages range > pages then free[i := \<lparr>vi_vpn = vi_vpn range + pages, vi_pages = vi_pages range - pages\<rparr>]
                                        else snd (arr_remove ops free i))\<rparr>,
                          (vi_vpn range + 1) * MEMMAP_PAGE_SIZE))"

text \<open>The entry of an array at an index, or what lies behind the array.\<close>

definition entry_at :: "vmm_info \<Rightarrow> vmm_info list \<Rightarrow> nat \<Rightarrow> vmm_info" where
  "entry_at beyond xs i = (if i < length xs then xs ! i else beyond)"

text \<open>
  A range given back to the free array, merged with its neighbours. The developer assertion that the array has no
  range of that start has no result when it fails.
\<close>

definition vmm_give_back :: "vmm_info array_ops \<Rightarrow> vmm_info \<Rightarrow> vmm_info list \<Rightarrow> vmm_info \<Rightarrow> vmm_info list option" where
  "vmm_give_back ops beyond avail rng =
     (let (found, i) = arr_binsearch ops vmm_info_cmp avail rng; left = avail ! (i - 1); right = entry_at beyond avail i;
          merge_left = (i \<noteq> 0 \<and> vi_vpn left + vi_pages left = vi_vpn rng);
          merge_right = (vi_vpn rng + vi_pages rng = vi_vpn right)
      in if found then None
         else if merge_left \<and> merge_right then Some (snd (arr_remove ops (avail[i - 1 := left\<lparr>vi_pages := vi_vpn right + vi_pages right - vi_vpn left\<rparr>]) i))
         else if merge_left then Some (avail[i - 1 := left\<lparr>vi_pages := vi_vpn rng + vi_pages rng - vi_vpn left\<rparr>])
         else if merge_right then Some (avail[i := \<lparr>vi_vpn = vi_vpn rng, vi_pages = vi_pages right + (vi_vpn right - vi_vpn rng)\<rparr>])
         else arr_insert ops avail rng i)"

definition memprotect_free_vaddr :: "vmm_info array_ops \<Rightarrow> vmm_info \<Rightarrow> u64 \<Rightarrow> vmm_state \<Rightarrow> vmm_state option" where
  "memprotect_free_vaddr ops beyond vaddr st =
     (if vaddr mod MEMMAP_PAGE_SIZE \<noteq> 0 then None
      else
        let vpn = vaddr div MEMMAP_PAGE_SIZE - 1; (found, index) = arr_binsearch ops vmm_info_cmp (vmm_used st) (vmm_key vpn)
        in if \<not> found then None
           else
             let (range, used) = arr_remove ops (vmm_used st) index
             in if vi_vpn range \<noteq> vpn then None
                else map_option (\<lambda>free. \<lparr>vmm_used = used, vmm_free = free\<rparr>) (vmm_give_back ops beyond (vmm_free st) range))"

subsection \<open>Start-up\<close>

text \<open>Where the loader put the kernel, and the lengths of its sections.\<close>

record kernel_layout =
  hhdm_pages :: u64
  kernel_vpn :: u64
  kernel_ppn :: u64
  kernel_pages :: u64
  text_len :: u64
  rodata_len :: u64
  data_len :: u64

record vm_state =
  vm_cfg :: mmu_config
  vm_mmu :: mmu_state
  vm_vmm :: vmm_state

definition map_kernel_section :: "pte_mem_set \<Rightarrow> mmu_config \<Rightarrow> u64 \<Rightarrow> u64 \<Rightarrow> u64 \<Rightarrow> u64 \<Rightarrow> u32 \<Rightarrow> pt_state \<Rightarrow> pt_state option" where
  "map_kernel_section mem_set cfg root vpn ppn pages rwx pt =
     map_option fst (pt_map mem_set cfg pt root (mmu_levels cfg - 1) vpn ppn pages (rwx OR FLAG_GLOBAL OR FLAG_KERNEL))"

text \<open>
  \<open>probe\<close> is the result of \<^verbatim>\<open>isr_noexc_copy_u8\<close>: whether the machine could read the byte.
\<close>

definition mmu_init :: "pte_mem_set \<Rightarrow> vmm_info array_ops \<Rightarrow> vmm_info \<Rightarrow> (u64 \<Rightarrow> bool) \<Rightarrow> kernel_layout \<Rightarrow> vm_state \<Rightarrow> vm_state option" where
  "mmu_init mem_set ops beyond probe k st =
     (case memprotect_alloc_vaddr ops MMU_PAGE_SIZE (vm_vmm st) of
        None \<Rightarrow> None
      | Some (vmm, va) \<Rightarrow>
          let pa = kernel_vpn k * MMU_PAGE_SIZE; cfg = (vm_cfg st)\<lparr>mmu_svpbmt := True\<rparr>
          in if va = 0 then None
             else case memprotect_k mem_set cfg (vm_mmu st) va pa MMU_PAGE_SIZE (FLAG_R OR FLAG_IO) of
                    Some (mmu, True) \<Rightarrow>
                      let cfg = cfg\<lparr>mmu_svpbmt := probe pa\<rparr>
                      in (case memprotect_k mem_set cfg mmu va pa MMU_PAGE_SIZE 0 of
                            Some (mmu, True) \<Rightarrow> map_option (\<lambda>vmm. \<lparr>vm_cfg = cfg, vm_mmu = mmu, vm_vmm = vmm\<rparr>) (memprotect_free_vaddr ops beyond va vmm)
                          | _ \<Rightarrow> None)
                  | _ \<Rightarrow> None)"

definition memprotect_postheap_init :: "pte_mem_set \<Rightarrow> vmm_info array_ops \<Rightarrow> vmm_info \<Rightarrow> (u64 \<Rightarrow> bool) \<Rightarrow> kernel_layout \<Rightarrow> vm_state \<Rightarrow> vm_state option" where
  "memprotect_postheap_init mem_set ops beyond probe k st =
     (let cfg = vm_cfg st; all = \<lparr>vi_vpn = mmu_high_vpn cfg, vi_pages = mmu_half_pages cfg\<rparr>; vmm = (vm_vmm st)\<lparr>vmm_free := [all]\<rparr>
      in case Option.bind (vmm_mark_reserved ops cfg (kernel_vpn k - 1) (kernel_pages k + 2) vmm)
                (vmm_mark_reserved ops cfg (mmu_hhdm_vpn cfg - 1) (hhdm_pages k + 2)) of
           None \<Rightarrow> None
         | Some vmm \<Rightarrow>
             (case pt_new_table mem_set cfg (mm_pt (vm_mmu st)) of
                None \<Rightarrow> None
              | Some (pt, root) \<Rightarrow>
                  let text = text_len k div MMU_PAGE_SIZE; rodata = rodata_len k div MMU_PAGE_SIZE; data = data_len k div MMU_PAGE_SIZE;
                      vpn = kernel_vpn k; ppn = kernel_ppn k;
                      pt = map_kernel_section mem_set cfg root (mmu_hhdm_vaddr cfg div MMU_PAGE_SIZE) 0 (hhdm_pages k) FLAG_RW pt;
                      pt = Option.bind pt (map_kernel_section mem_set cfg root vpn ppn text FLAG_RX);
                      pt = Option.bind pt (map_kernel_section mem_set cfg root (vpn + text) (ppn + text) rodata FLAG_R);
                      pt = Option.bind pt (map_kernel_section mem_set cfg root (vpn + text + rodata) (ppn + text + rodata) data FLAG_RW)
                  in Option.bind pt (\<lambda>pt. mmu_init mem_set ops beyond probe k \<lparr>vm_cfg = cfg, vm_mmu = (vm_mmu st)\<lparr>mm_pt := pt, mm_global := root\<rparr>, vm_vmm = vmm\<rparr>)))"

section \<open>Ranges\<close>

definition span :: "vmm_info \<Rightarrow> nat set" where
  "span r = {unat (vi_vpn r)..<unat (vi_vpn r) + unat (vi_pages r)}"

text \<open>How many ranges of a list hold a page.\<close>

definition holders :: "vmm_info list \<Rightarrow> nat \<Rightarrow> nat" where
  "holders rs x = (\<Sum>r \<leftarrow> rs. of_bool (x \<in> span r))"

definition range_ok :: "vmm_info \<Rightarrow> bool" where
  "range_ok r \<longleftrightarrow> vi_pages r \<noteq> 0 \<and> unat (vi_vpn r) + unat (vi_pages r) \<le> 2 ^ 52"

text \<open>Both arrays are sorted, and no page is in two ranges.\<close>

definition vmm_ok :: "vmm_state \<Rightarrow> bool" where
  "vmm_ok st \<longleftrightarrow> sorted (map vi_vpn (vmm_used st)) \<and> sorted (map vi_vpn (vmm_free st)) \<and>
     (\<forall>r \<in> set (vmm_used st) \<union> set (vmm_free st). range_ok r) \<and> (\<forall>x. holders (vmm_used st) x + holders (vmm_free st) x \<le> 1)"

definition same_pages :: "vmm_state \<Rightarrow> vmm_state \<Rightarrow> bool" where
  "same_pages st st' \<longleftrightarrow> (\<forall>x. holders (vmm_used st') x + holders (vmm_free st') x = holders (vmm_used st) x + holders (vmm_free st) x)"

lemma holders_member: "r \<in> set rs \<Longrightarrow> x \<in> span r \<Longrightarrow> 1 \<le> holders rs x"
  unfolding holders_def by (induction rs) auto

lemma range_ok_first: "range_ok r \<Longrightarrow> unat (vi_vpn r) \<in> span r"
  by (simp add: range_ok_def span_def unat_gt_0)

lemma range_ok_sum: "range_ok r \<Longrightarrow> unat (vi_vpn r + vi_pages r) = unat (vi_vpn r) + unat (vi_pages r)"
  using unat_add_lem[of "vi_vpn r" "vi_pages r"] by (simp add: range_ok_def)

lemma vmm_okD:
  assumes "vmm_ok st"
  shows "sorted (map vi_vpn (vmm_used st))" "sorted (map vi_vpn (vmm_free st))" "r \<in> set (vmm_used st) \<Longrightarrow> range_ok r" "r \<in> set (vmm_free st) \<Longrightarrow> range_ok r"
    "holders (vmm_used st) x + holders (vmm_free st) x \<le> 1"
  using assms unfolding vmm_ok_def by blast+

lemma vmm_okI:
  assumes "vmm_ok st" and "same_pages st st'" and "sorted (map vi_vpn (vmm_used st'))" and "sorted (map vi_vpn (vmm_free st'))"
    and "\<forall>r \<in> set (vmm_used st') \<union> set (vmm_free st'). range_ok r"
  shows "vmm_ok st'"
  using assms unfolding vmm_ok_def same_pages_def by simp

lemma used_free_apart:
  assumes "vmm_ok st" and "r \<in> set (vmm_used st)" and "s \<in> set (vmm_free st)"
  shows "span r \<inter> span s = {}"
proof (rule ccontr)
  assume "span r \<inter> span s \<noteq> {}"
  then obtain x where "x \<in> span r" "x \<in> span s" by blast
  then show False using holders_member[OF assms(2)] holders_member[OF assms(3)] vmm_okD(5)[OF assms(1), of x] by force
qed

lemma index_apart:
  assumes "\<forall>x. holders rs x \<le> 1" and "i < length rs" and "j < length rs" and "i \<noteq> j"
  shows "span (rs ! i) \<inter> span (rs ! j) = {}"
proof (rule ccontr)
  assume "span (rs ! i) \<inter> span (rs ! j) \<noteq> {}"
  then obtain x where x: "x \<in> span (rs ! i)" "x \<in> span (rs ! j)" by blast
  have "rs ! j \<in> set (cut_at rs i)"
  proof (cases "j < i")
    case True
    then show ?thesis using assms(2) by (auto simp: cut_at_def in_set_conv_nth intro!: disjI1 exI[of _ j])
  next
    case False
    then show ?thesis using assms(3,4) by (auto simp: cut_at_def in_set_conv_nth intro!: disjI2 exI[of _ "j - Suc i"])
  qed
  then have "1 \<le> holders (cut_at rs i) x" using x(2) by (rule holders_member)
  moreover have "of_bool (x \<in> span (rs ! i)) + holders (cut_at rs i) x = holders rs x" unfolding holders_def by (rule sum_cut_at[OF assms(2)])
  ultimately show False using x(1) assms(1)[rule_format, of x] by simp
qed

lemma find_range_Some: "find_range rs pages k = Some i \<Longrightarrow> \<exists>j < length rs. i = k + j \<and> pages \<le> vi_pages (rs ! j)"
proof (induction rs arbitrary: k)
  case (Cons r rs)
  show ?case
  proof (cases "vi_pages r \<ge> pages")
    case True
    then show ?thesis using Cons.prems by auto
  next
    case False
    then obtain j where "j < length rs" "i = k + 1 + j" "pages \<le> vi_pages (rs ! j)" using Cons.IH[of "k + 1"] Cons.prems by auto
    then show ?thesis by (intro exI[of _ "Suc j"]) simp
  qed
qed simp

text \<open>A range split in two, and two ranges joined.\<close>

lemma span_split:
  assumes "unat (vi_vpn r) + unat (vi_pages r) \<le> 2 ^ 52" and "pages \<le> vi_pages r" and "a = \<lparr>vi_vpn = vi_vpn r, vi_pages = pages\<rparr>"
    and "b = \<lparr>vi_vpn = vi_vpn r + pages, vi_pages = vi_pages r - pages\<rparr>"
  shows "of_bool (x \<in> span a) + of_bool (x \<in> span b) = (of_bool (x \<in> span r) :: nat)"
    and "unat (vi_vpn b) + unat (vi_pages b) = unat (vi_vpn r) + unat (vi_pages r)"
proof -
  have p: "unat pages \<le> unat (vi_pages r)" using assms(2) by (simp add: word_le_nat_alt)
  have "unat (vi_vpn r + pages) = unat (vi_vpn r) + unat pages" using assms(1) p unat_add_lem[of "vi_vpn r" pages] by simp
  moreover have "unat (vi_pages r - pages) = unat (vi_pages r) - unat pages" using assms(2) by (simp add: unat_sub_small)
  ultimately show "of_bool (x \<in> span a) + of_bool (x \<in> span b) = (of_bool (x \<in> span r) :: nat)"
    "unat (vi_vpn b) + unat (vi_pages b) = unat (vi_vpn r) + unat (vi_pages r)"
    using p by (auto simp: assms(3,4) span_def)
qed

lemma span_join:
  assumes "range_ok a" and "range_ok b" and "vi_vpn a + vi_pages a = vi_vpn b" and "c = \<lparr>vi_vpn = vi_vpn a, vi_pages = vi_vpn b + vi_pages b - vi_vpn a\<rparr>"
  shows "of_bool (x \<in> span a) + of_bool (x \<in> span b) = (of_bool (x \<in> span c) :: nat)" and "range_ok c" and "vi_pages c = vi_pages a + vi_pages b"
proof -
  show p: "vi_pages c = vi_pages a + vi_pages b" unfolding assms(4) using assms(3) by (metis add_diff_cancel_left' diff_add_eq vmm_info.select_convs(2) add.assoc)
  have b: "unat (vi_vpn b) = unat (vi_vpn a) + unat (vi_pages a)" using range_ok_sum[OF assms(1)] assms(3) by simp
  moreover have u: "unat (vi_pages c) = unat (vi_pages a) + unat (vi_pages b)"
    unfolding p using assms(2) b unat_add_lem[of "vi_pages a" "vi_pages b"] by (simp add: range_ok_def)
  ultimately show "of_bool (x \<in> span a) + of_bool (x \<in> span b) = (of_bool (x \<in> span c) :: nat)" by (auto simp: span_def assms(4))
  have "unat (vi_vpn c) + unat (vi_pages c) \<le> 2 ^ 52" using b u assms(2,4) by (simp add: range_ok_def)
  moreover have "vi_pages c \<noteq> 0" using u assms(1) by (metis add_is_0 range_ok_def unat_0 unat_eq_zero)
  ultimately show "range_ok c" by (simp add: range_ok_def)
qed

text \<open>In a sorted array of disjoint ranges, each ends before the next begins.\<close>

lemma range_before:
  assumes "sorted (map vi_vpn rs)" and "\<forall>r \<in> set rs. range_ok r" and "\<forall>x. holders rs x \<le> 1" and "i < k" and "k < length rs"
  shows "unat (vi_vpn (rs ! i)) + unat (vi_pages (rs ! i)) \<le> unat (vi_vpn (rs ! k))"
proof (rule ccontr)
  assume "\<not> ?thesis"
  moreover have "vi_vpn (rs ! i) \<le> vi_vpn (rs ! k)" using sorted_nth_mono[OF assms(1), of i k] assms(4,5) by simp
  ultimately have "unat (vi_vpn (rs ! k)) \<in> span (rs ! i)" by (simp add: span_def word_le_nat_alt)
  moreover have "span (rs ! i) \<inter> span (rs ! k) = {}" using index_apart[OF assms(3), of i k] assms(4,5) by simp
  ultimately show False using range_ok_first[of "rs ! k"] assms(2,5) by auto
qed

lemma ranges_update: "range_ok a \<Longrightarrow> \<forall>r \<in> set rs. range_ok r \<Longrightarrow> \<forall>r \<in> set (rs[i := a]). range_ok r"
  using set_update_subset_insert[of rs i a] by blast

lemma ranges_put_at: "range_ok a \<Longrightarrow> \<forall>r \<in> set rs. range_ok r \<Longrightarrow> \<forall>r \<in> set (put_at rs i a). range_ok r"
  unfolding set_put_at by blast

text \<open>A range in three parts, of which the middle one is given.\<close>

lemma span_three:
  assumes rok: "range_ok r" and g: "vi_vpn r \<le> vpn" "vpn + pages \<le> vi_vpn r + vi_pages r" and c: "unat vpn + unat pages \<le> 2 ^ 52"
  shows "unat (vpn + pages) = unat vpn + unat pages"
    and "unat (vi_vpn r) \<le> unat vpn" and "unat vpn + unat pages \<le> unat (vi_vpn r) + unat (vi_pages r)"
    and "of_bool (x \<in> span \<lparr>vi_vpn = vi_vpn r, vi_pages = vpn - vi_vpn r\<rparr>) + of_bool (x \<in> span \<lparr>vi_vpn = vpn, vi_pages = pages\<rparr>) +
      of_bool (x \<in> span \<lparr>vi_vpn = vpn + pages, vi_pages = vi_vpn r + vi_pages r - vpn - pages\<rparr>) = (of_bool (x \<in> span r) :: nat)"
    and "vpn > vi_vpn r \<Longrightarrow> range_ok \<lparr>vi_vpn = vi_vpn r, vi_pages = vpn - vi_vpn r\<rparr>"
    and "vpn + pages < vi_vpn r + vi_pages r \<Longrightarrow> range_ok \<lparr>vi_vpn = vpn + pages, vi_pages = vi_vpn r + vi_pages r - vpn - pages\<rparr>"
    and "vpn + pages = vi_vpn r + vi_pages r \<Longrightarrow> x \<notin> span \<lparr>vi_vpn = vpn + pages, vi_pages = vi_vpn r + vi_pages r - vpn - pages\<rparr>"
    and "vpn = vi_vpn r \<Longrightarrow> x \<notin> span \<lparr>vi_vpn = vi_vpn r, vi_pages = vpn - vi_vpn r\<rparr>"
proof -
  show um: "unat (vpn + pages) = unat vpn + unat pages" using c unat_add_lem[of vpn pages] by simp
  have ue: "unat (vi_vpn r + vi_pages r) = unat (vi_vpn r) + unat (vi_pages r)" by (rule range_ok_sum[OF rok])
  show le: "unat (vi_vpn r) \<le> unat vpn" "unat vpn + unat pages \<le> unat (vi_vpn r) + unat (vi_pages r)" using g um ue by (simp_all add: word_le_nat_alt)
  have ua: "unat (vpn - vi_vpn r) = unat vpn - unat (vi_vpn r)" using g(1) by (simp add: unat_sub_small)
  have ub: "unat (vi_vpn r + vi_pages r - vpn - pages) = unat (vi_vpn r) + unat (vi_pages r) - (unat vpn + unat pages)"
    unfolding diff_diff_add using g(2) um ue by (simp add: unat_sub_small)
  show "of_bool (x \<in> span \<lparr>vi_vpn = vi_vpn r, vi_pages = vpn - vi_vpn r\<rparr>) + of_bool (x \<in> span \<lparr>vi_vpn = vpn, vi_pages = pages\<rparr>) +
      of_bool (x \<in> span \<lparr>vi_vpn = vpn + pages, vi_pages = vi_vpn r + vi_pages r - vpn - pages\<rparr>) = (of_bool (x \<in> span r) :: nat)"
    using le um ua ub by (auto simp: span_def)
  show "range_ok \<lparr>vi_vpn = vi_vpn r, vi_pages = vpn - vi_vpn r\<rparr>" if "vpn > vi_vpn r" using that le rok ua by (auto simp: range_ok_def)
  show "range_ok \<lparr>vi_vpn = vpn + pages, vi_pages = vi_vpn r + vi_pages r - vpn - pages\<rparr>" if "vpn + pages < vi_vpn r + vi_pages r"
    using that le rok ub um ue by (auto simp: range_ok_def word_less_nat_alt unat_eq_zero[symmetric])
  show "x \<notin> span \<lparr>vi_vpn = vpn + pages, vi_pages = vi_vpn r + vi_pages r - vpn - pages\<rparr>" if "vpn + pages = vi_vpn r + vi_pages r"
    using that ub um ue by (simp add: span_def)
  show "x \<notin> span \<lparr>vi_vpn = vi_vpn r, vi_pages = vpn - vi_vpn r\<rparr>" if "vpn = vi_vpn r" using that by (simp add: span_def)
qed

section \<open>Allocating and freeing\<close>

text \<open>
  \<^verbatim>\<open>memprotect_free_vaddr\<close> compares the end of the freed range with the entry behind its place in the free array, which is
  past the end of the array when no free range lies behind. Either one does, or the memory there differs.
\<close>

definition read_inside :: "vmm_info \<Rightarrow> vmm_info list \<Rightarrow> vmm_info \<Rightarrow> bool" where
  "read_inside beyond avail rng \<longleftrightarrow> (\<exists>s \<in> set avail. vi_vpn rng < vi_vpn s) \<or> vi_vpn beyond \<noteq> vi_vpn rng + vi_pages rng"

locale vmm_array = sorted_array ops vmm_info_cmp vi_vpn for ops :: "vmm_info array_ops"
begin

lemma take_range_ok:
  fixes avail :: "vmm_info list"
  assumes s: "sorted (map vi_vpn avail)" and all: "\<forall>r \<in> set avail. range_ok r" and one: "\<forall>x. holders avail x \<le> 1"
    and i: "i < length avail" and n: "n \<noteq> 0" "n \<le> vi_pages (avail ! i)"
  defines "a \<equiv> \<lparr>vi_vpn = vi_vpn (avail ! i), vi_pages = n\<rparr>" and "b \<equiv> \<lparr>vi_vpn = vi_vpn (avail ! i) + n, vi_pages = vi_pages (avail ! i) - n\<rparr>"
  defines "avail' \<equiv> if vi_pages (avail ! i) > n then avail[i := b] else snd (arr_remove ops avail i)"
  shows "sorted (map vi_vpn avail') \<and> (\<forall>r \<in> set avail'. range_ok r) \<and> (\<forall>x. holders avail' x + of_bool (x \<in> span a) = holders avail x)"
proof -
  let ?r = "avail ! i"
  have rok: "range_ok ?r" using all i by simp
  note sp = span_split[OF conjunct2[OF rok[unfolded range_ok_def]] n(2) meta_eq_to_obj_eq[OF a_def] meta_eq_to_obj_eq[OF b_def]]
  have a_ok: "range_ok a" using rok n by (auto simp: range_ok_def a_def word_le_nat_alt)
  show ?thesis
  proof (cases "vi_pages ?r > n")
    case True
    have b: "range_ok b" using sp(2) rok True by (auto simp: range_ok_def b_def)
    have "vi_vpn ?r \<le> vi_vpn b" using range_ok_sum[OF a_ok] by (simp add: word_le_nat_alt a_def b_def)
    then have low: "vi_vpn (avail ! k) \<le> vi_vpn b" if "k < i" for k using sorted_nth_mono[OF s, of k i] that i by simp
    have up: "vi_vpn b \<le> vi_vpn (avail ! k)" if "i < k" "k < length avail" for k
      using range_before[OF s all one that] sp(2) by (simp add: word_le_nat_alt)
    have "sorted (map vi_vpn (avail[i := b]))" using low up by (intro sorted_update_at[OF s i]) blast+
    moreover have "holders (avail[i := b]) x + of_bool (x \<in> span a) = holders avail x" for x
      using sum_update[OF i, of "\<lambda>r. of_bool (x \<in> span r)" b] sp(1)[of x] by (simp add: holders_def)
    ultimately show ?thesis using True b all set_update_subset_insert[of avail i b] by (auto simp: avail'_def)
  next
    case False
    then have "vi_pages ?r = n" using n(2) by simp
    then have "a = ?r" unfolding a_def by (metis vmm_info.surjective old.unit.exhaust)
    then have "holders (cut_at avail i) x + of_bool (x \<in> span a) = holders avail x" for x
      using sum_cut_at[OF i, of "\<lambda>r. of_bool (x \<in> span r)"] by (simp add: holders_def add.commute)
    then show ?thesis using False remove[OF i] sorted_cut_at[OF s] set_cut_at[of avail i] all by (auto simp: avail'_def)
  qed
qed

lemma mark_reserved_ok:
  assumes s: "sorted (map vi_vpn (vmm_free st))" and all: "\<forall>r \<in> set (vmm_free st). range_ok r" and one: "\<forall>x. holders (vmm_free st) x \<le> 1"
    and c: "mmu_high_vpn cfg \<le> vpn" "\<not> vpn + pages > mmu_high_vpn cfg + mmu_half_size cfg" "unat vpn + unat pages \<le> 2 ^ 52"
    and r: "vmm_mark_reserved ops cfg vpn pages st = Some st'"
  shows "vmm_used st' = vmm_used st \<and> sorted (map vi_vpn (vmm_free st')) \<and> (\<forall>r \<in> set (vmm_free st'). range_ok r) \<and>
    (\<forall>x. holders (vmm_free st') x + of_bool (x \<in> span \<lparr>vi_vpn = vpn, vi_pages = pages\<rparr>) = holders (vmm_free st) x)"
proof -
  let ?free = "vmm_free st" let ?m = "\<lparr>vi_vpn = vpn, vi_pages = pages\<rparr>"
  obtain found index where bs: "arr_binsearch ops vmm_info_cmp ?free (vmm_key vpn) = (found, index)" by (cases "arr_binsearch ops vmm_info_cmp ?free (vmm_key vpn)")
  define i where "i = (if found then index else index - 1)"
  define r where "r = ?free ! i"
  have nc: "\<not> vpn < mmu_high_vpn cfg" using c(1) by simp
  note def = assms(7)[unfolded vmm_mark_reserved_def Let_def if_not_P[OF nc] prod.case if_not_P[OF c(2)] bs]
  have g: "found \<or> index > 0" "vpn \<ge> vi_vpn r" "vpn + pages \<le> vi_vpn r + vi_pages r" using def unfolding i_def r_def by (auto split: if_splits)
  have i: "i < length ?free" using g(1) binsearch[OF s bs] unfolding i_def by (auto split: if_splits)
  have rok: "range_ok r" using all i by (simp add: r_def)
  note sp = span_three[OF rok g(2,3) c(3)]
  let ?a = "\<lparr>vi_vpn = vi_vpn r, vi_pages = vpn - vi_vpn r\<rparr>" let ?b = "\<lparr>vi_vpn = vpn + pages, vi_pages = vi_vpn r + vi_pages r - vpn - pages\<rparr>"
  note um = sp(1) and le = sp(2,3) and parts = sp(4) and ra = sp(5) and rb = sp(6)
  have keep: "sorted (map vi_vpn (?free[i := ?a]))" using s i by (metis (no_types, lifting) list_update_id map_update r_def vmm_info.select_convs(1))
  have after: "unat (vpn + pages) \<le> unat (vi_vpn (?free ! k))" if "i < k" "k < length ?free" for k
    using range_before[OF s all one that] le(2) um by (simp add: r_def)
  have before: "unat (vi_vpn (?free ! k)) \<le> unat (vpn + pages)" if "k \<le> i" for k
    using sorted_nth_mono[OF s that] i that le(1) um by (simp add: r_def word_le_nat_alt)
  let ?f = "\<lambda>x r. of_bool (x \<in> span r) :: nat"
  consider (exact) "vi_vpn r = vpn" "vi_pages r = pages" | (mid) "vpn > vi_vpn r" "vpn + pages < vi_vpn r + vi_pages r"
    | (tail) "vpn > vi_vpn r" "vpn + pages = vi_vpn r + vi_pages r" | (head) "vpn = vi_vpn r" "vpn + pages < vi_vpn r + vi_pages r"
    using g(2,3) by (metis add_left_cancel order_le_less)
  then show ?thesis
  proof cases
    case exact
    have "r = ?m" using exact by (metis vmm_info.surjective old.unit.exhaust)
    moreover have "st' = st\<lparr>vmm_free := cut_at ?free i\<rparr>" using def exact g remove[OF i] unfolding i_def[symmetric] r_def[symmetric] by simp
    ultimately show ?thesis using sum_cut_at[OF i, of "?f x" for x] sorted_cut_at[OF s] set_cut_at[of ?free i] all
      by (auto simp: holders_def r_def[symmetric] add.commute)
  next
    case mid
    then obtain avail where av: "arr_insert ops ?free ?b (i + 1) = Some avail" "st' = st\<lparr>vmm_free := avail[i := ?a]\<rparr>"
      using def g unfolding i_def[symmetric] r_def[symmetric] by (auto split: option.splits if_splits)
    have "i + 1 \<le> length ?free" using i by simp
    note put = insert[OF this av(1)]
    have ai: "i < length avail" "avail ! i = r" using i unfolding put put_at_def by (simp_all add: nth_append r_def)
    have "sorted (map vi_vpn avail)" unfolding put using before after i by (intro sorted_put_at[OF s]) (simp_all add: word_le_nat_alt)
    then have "sorted (map vi_vpn (avail[i := ?a]))" using ai by (metis (no_types, lifting) list_update_id map_update vmm_info.select_convs(1))
    moreover have "holders (avail[i := ?a]) x + ?f x ?m = holders ?free x" for x
      using sum_update[OF ai(1), of "?f x" ?a] sum_put_at[of "?f x" ?free "i + 1" ?b] parts[of x] unfolding holders_def ai(2) put[symmetric] by linarith
    moreover have "\<forall>r \<in> set avail. range_ok r" unfolding put by (rule ranges_put_at[OF rb[OF mid(2)] all])
    then have "\<forall>r \<in> set (avail[i := ?a]). range_ok r" by (rule ranges_update[OF ra[OF mid(1)]])
    ultimately show ?thesis using av(2) by simp
  next
    case tail
    have a: "r\<lparr>vi_pages := vpn - vi_vpn r\<rparr> = ?a" by (cases r) simp
    have st': "st' = st\<lparr>vmm_free := ?free[i := ?a]\<rparr>" using def tail g unfolding i_def[symmetric] r_def[symmetric] a by (auto split: if_splits)
    have "holders (?free[i := ?a]) x + ?f x ?m = holders ?free x" for x
      using sum_update[OF i, of "?f x" ?a] parts[of x] sp(7)[OF tail(2), of x] by (simp add: holders_def r_def[symmetric])
    then show ?thesis using keep ranges_update[OF ra[OF tail(1)] all, of i] by (simp add: st')
  next
    case head
    then have st': "st' = st\<lparr>vmm_free := ?free[i := ?b]\<rparr>" using def g unfolding i_def[symmetric] r_def[symmetric] by (auto split: if_splits)
    have "holders (?free[i := ?b]) x + ?f x ?m = holders ?free x" for x
      using sum_update[OF i, of "?f x" ?b] parts[of x] sp(8)[OF head(1), of x] by (simp add: holders_def r_def[symmetric])
    moreover have "sorted (map vi_vpn (?free[i := ?b]))" using before after by (intro sorted_update_at[OF s i]) (auto simp: word_le_nat_alt)
    ultimately show ?thesis using ranges_update[OF rb[OF head(2)] all, of i] by (simp add: st')
  qed
qed

lemma alloc_pages:
  fixes len :: u64
  shows "unat ((len - 1) div MEMMAP_PAGE_SIZE + 3) = unat (len - 1) div 4096 + 3"
proof -
  have "unat ((len - 1) div MEMMAP_PAGE_SIZE) = unat (len - 1) div 4096" by (simp add: unat_div MEMMAP_PAGE_SIZE_def)
  moreover have "unat (len - 1) div 4096 < 2 ^ 52" using unat_less[of "len - 1"] by (simp add: less_mult_imp_div_less)
  ultimately show ?thesis using unat_add_lem[of "(len - 1) div MEMMAP_PAGE_SIZE" 3] by simp
qed

lemma alloc_vaddr_ok:
  assumes ok: "vmm_ok st" and r: "memprotect_alloc_vaddr ops len st = Some (st', va)"
  shows "vmm_ok st'" and "same_pages st st'"
    and "\<exists>r. set (vmm_used st') = insert r (set (vmm_used st)) \<and> r \<notin> set (vmm_used st) \<and> unat (vi_pages r) = unat (len - 1) div 4096 + 3 \<and> unat va = (unat (vi_vpn r) + 1) * 4096"
proof -
  let ?n = "(len - 1) div MEMMAP_PAGE_SIZE + 3" let ?free = "vmm_free st"
  obtain i used where i: "find_range ?free ?n 0 = Some i" "arr_sorted_insert ops vmm_info_cmp (vmm_used st) \<lparr>vi_vpn = vi_vpn (?free ! i), vi_pages = ?n\<rparr> = Some used"
    and st': "st' = \<lparr>vmm_used = used, vmm_free = (if vi_pages (?free ! i) > ?n then ?free[i := \<lparr>vi_vpn = vi_vpn (?free ! i) + ?n, vi_pages = vi_pages (?free ! i) - ?n\<rparr>]
        else snd (arr_remove ops ?free i))\<rparr>" and va: "va = (vi_vpn (?free ! i) + 1) * MEMMAP_PAGE_SIZE"
    using r unfolding memprotect_alloc_vaddr_def Let_def by (auto split: option.splits)
  have il: "i < length ?free" and le: "?n \<le> vi_pages (?free ! i)" using find_range_Some[OF i(1)] by auto
  have nz: "?n \<noteq> 0" using alloc_pages[of len] by (metis add_is_0 unat_0 zero_neq_numeral)
  let ?r = "?free ! i" let ?a = "\<lparr>vi_vpn = vi_vpn ?r, vi_pages = ?n\<rparr>"
  have rok: "range_ok ?r" using vmm_okD(4)[OF ok] il by simp
  then have a_ok: "range_ok ?a" using le nz by (auto simp: range_ok_def word_le_nat_alt)
  have one: "\<forall>x. holders ?free x \<le> 1" using vmm_okD(5)[OF ok] by (metis le_add2 le_trans)
  have "\<forall>r \<in> set ?free. range_ok r" using vmm_okD(4)[OF ok] by blast
  note t = take_range_ok[OF vmm_okD(2)[OF ok] this one il nz le]
  obtain j where j: "used = put_at (vmm_used st) j ?a" "sorted (map vi_vpn used)" using sorted_insert[OF vmm_okD(1)[OF ok] i(2)] by blast
  have hu: "holders used x = of_bool (x \<in> span ?a) + holders (vmm_used st) x" for x unfolding j(1) holders_def by (rule sum_put_at)
  have hf: "holders (vmm_free st') x + of_bool (x \<in> span ?a) = holders ?free x" for x using t by (simp add: st')
  have upd: "vmm_used st' = used" using st' by simp
  show same: "same_pages st st'" unfolding same_pages_def upd hu hf[symmetric] by simp
  have us: "set used = insert ?a (set (vmm_used st))" unfolding j(1) by (rule set_put_at)
  have "sorted (map vi_vpn (vmm_free st'))" "\<forall>r \<in> set (vmm_free st'). range_ok r" using t unfolding st' by simp_all
  then show "vmm_ok st'" using a_ok us vmm_okD(3)[OF ok] by (intro vmm_okI[OF ok same]) (auto simp: upd j(2))
  have "?a \<notin> set (vmm_used st)"
    using used_free_apart[OF ok, of ?a ?r] il range_ok_first[OF a_ok] range_ok_first[OF rok] by auto
  moreover have "unat va = (unat (vi_vpn ?r) + 1) * 4096"
  proof -
    have "va = of_nat ((unat (vi_vpn ?r) + 1) * 4096)" by (simp add: va MEMMAP_PAGE_SIZE_def)
    moreover have "(unat (vi_vpn ?r) + 1) * 4096 < 2 ^ LENGTH(64)" using a_ok alloc_pages[of len] by (simp add: range_ok_def)
    ultimately show ?thesis using unat_of_nat_small by metis
  qed
  ultimately show "\<exists>r. set (vmm_used st') = insert r (set (vmm_used st)) \<and> r \<notin> set (vmm_used st) \<and> unat (vi_pages r) = unat (len - 1) div 4096 + 3 \<and> unat va = (unat (vi_vpn r) + 1) * 4096"
    using us alloc_pages[of len] by (intro exI[of _ ?a]) (simp add: upd)
qed

lemma give_back_absent:
  assumes "sorted (map vi_vpn avail)" and "\<forall>r \<in> set avail. range_ok r" and "range_ok rng" and "\<forall>r \<in> set avail. span rng \<inter> span r = {}"
  shows "\<not> fst (arr_binsearch ops vmm_info_cmp avail rng)"
  using binsearch_found[OF assms(1) surjective_pairing] range_ok_first assms(2-4) by fastforce

lemma give_back_ok:
  assumes s: "sorted (map vi_vpn avail)" and all: "\<forall>r \<in> set avail. range_ok r" and rng: "range_ok rng"
    and apart: "\<forall>r \<in> set avail. span rng \<inter> span r = {}" and inside: "read_inside beyond avail rng"
    and r: "vmm_give_back ops beyond avail rng = Some avail'"
  shows "sorted (map vi_vpn avail') \<and> (\<forall>r \<in> set avail'. range_ok r) \<and> (\<forall>x. holders avail' x = of_bool (x \<in> span rng) + holders avail x)"
proof -
  obtain found i where bs: "arr_binsearch ops vmm_info_cmp avail rng = (found, i)" by (cases "arr_binsearch ops vmm_info_cmp avail rng")
  have nf: "\<not> found" using give_back_absent[OF s all rng apart] bs by simp
  then have i: "i \<le> length avail" "\<forall>j < i. vi_vpn (avail ! j) < vi_vpn rng" "\<forall>j. i \<le> j \<and> j < length avail \<longrightarrow> vi_vpn rng < vi_vpn (avail ! j)"
    using binsearch[OF s bs] by simp_all
  let ?L = "avail ! (i - 1)" let ?R = "entry_at beyond avail i"
  let ?ml = "i \<noteq> 0 \<and> vi_vpn ?L + vi_pages ?L = vi_vpn rng" let ?mr = "vi_vpn rng + vi_pages rng = vi_vpn ?R"
  let ?c = "?L\<lparr>vi_pages := vi_vpn rng + vi_pages rng - vi_vpn ?L\<rparr>"
  note def = r[unfolded vmm_give_back_def Let_def bs prod.case if_not_P[OF nf]]
  have R: "i < length avail" "?R = avail ! i" "range_ok (avail ! i)" if ?mr
  proof -
    show l: "i < length avail"
    proof (rule ccontr)
      assume "\<not> i < length avail"
      then have "\<forall>s \<in> set avail. vi_vpn s < vi_vpn rng" and "?R = beyond" using i(1,2) by (auto simp: in_set_conv_nth entry_at_def)
      then show False using inside that unfolding read_inside_def by (auto dest: less_asym)
    qed
    then show "?R = avail ! i" "range_ok (avail ! i)" using all by (simp_all add: entry_at_def)
  qed
  have L: "i - 1 < length avail" "range_ok ?L" if ?ml using that i(1) all by auto
  have keep: "sorted (map vi_vpn (avail[i - 1 := y]))" if "vi_vpn y = vi_vpn ?L" for y
    using s that by (simp add: map_update) (metis list_update_id map_update)
  have join: "of_bool (x \<in> span ?L) + of_bool (x \<in> span rng) = (of_bool (x \<in> span ?c) :: nat)" "range_ok ?c" if ?ml for x
    using span_join[OF L(2)[OF that] rng, of ?c] that by simp_all
  consider (both) ?ml ?mr | (left) ?ml "\<not> ?mr" | (right) "\<not> ?ml" ?mr | (none) "\<not> ?ml" "\<not> ?mr" by blast
  then show ?thesis
  proof cases
    case both
    let ?d = "?L\<lparr>vi_pages := vi_vpn ?R + vi_pages ?R - vi_vpn ?L\<rparr>"
    have il: "i < length (avail[i - 1 := ?d])" using R(1)[OF both(2)] by simp
    have avail': "avail' = cut_at (avail[i - 1 := ?d]) i" using def both remove[OF il] by simp
    have "vi_vpn ?c + vi_pages ?c = vi_vpn (avail ! i)" using both(2) R(2)[OF both(2)] by simp
    then have d: "of_bool (x \<in> span ?c) + of_bool (x \<in> span (avail ! i)) = (of_bool (x \<in> span ?d) :: nat)" "range_ok ?d" for x
      using span_join[OF join(2)[OF both(1)] R(3)[OF both(2)], of ?d] R(2)[OF both(2)] by simp_all
    have "i - 1 \<noteq> i" using both(1) by auto
    then have "holders avail' x = of_bool (x \<in> span rng) + holders avail x" for x
      unfolding avail' holders_def using d(1)[of x] join(1)[OF both(1), of x] by (intro sum_cut_update R(1)[OF both(2)] L(1)[OF both(1)]) simp_all
    moreover have "sorted (map vi_vpn avail')" unfolding avail' by (rule sorted_cut_at, rule keep) simp
    moreover have "\<forall>r \<in> set avail'. range_ok r" using d(2) all set_cut_at[of "avail[i - 1 := ?d]" i] set_update_subset_insert[of avail "i - 1" ?d] unfolding avail' by blast
    ultimately show ?thesis by blast
  next
    case left
    have avail': "avail' = avail[i - 1 := ?c]" using def left by simp
    have "holders avail' x = of_bool (x \<in> span rng) + holders avail x" for x
      using sum_update[OF L(1)[OF left(1)], of "\<lambda>r. of_bool (x \<in> span r)" ?c] join(1)[OF left(1), of x] unfolding avail' holders_def by linarith
    moreover have "sorted (map vi_vpn avail')" unfolding avail' by (rule keep) simp
    moreover have "\<forall>r \<in> set avail'. range_ok r" using join(2)[OF left(1)] all set_update_subset_insert[of avail "i - 1" ?c] unfolding avail' by blast
    ultimately show ?thesis by blast
  next
    case right
    let ?e = "\<lparr>vi_vpn = vi_vpn rng, vi_pages = vi_pages ?R + (vi_vpn ?R - vi_vpn rng)\<rparr>"
    have avail': "avail' = avail[i := ?e]" using def right by (auto split: if_splits)
    have e: "of_bool (x \<in> span rng) + of_bool (x \<in> span (avail ! i)) = (of_bool (x \<in> span ?e) :: nat)" "range_ok ?e" for x
      using span_join[OF rng R(3)[OF right(2)], of ?e] right(2) R(2)[OF right(2)] by (simp_all add: algebra_simps)
    have "holders avail' x = of_bool (x \<in> span rng) + holders avail x" for x
      using sum_update[OF R(1)[OF right(2)], of "\<lambda>r. of_bool (x \<in> span r)" ?e] e(1)[of x] unfolding avail' holders_def by linarith
    moreover have "sorted (map vi_vpn avail')" unfolding avail' by (rule sorted_update_at[OF s R(1)[OF right(2)]]) (use i in \<open>auto simp: less_imp_le\<close>)
    moreover have "\<forall>r \<in> set avail'. range_ok r" using e(2) all set_update_subset_insert[of avail i ?e] unfolding avail' by blast
    ultimately show ?thesis by blast
  next
    case none
    then have avail': "avail' = put_at avail i rng" using def insert[OF i(1), of rng avail'] by (auto split: if_splits)
    have "sorted (map vi_vpn avail')" unfolding avail' using i by (intro sorted_put_at[OF s i(1)]) (auto simp: less_imp_le)
    moreover have "holders avail' x = of_bool (x \<in> span rng) + holders avail x" for x unfolding avail' holders_def by (rule sum_put_at)
    ultimately show ?thesis using rng all unfolding avail' set_put_at by blast
  qed
qed

end

context vmm_array begin

text \<open>The range in use is found and taken out of its array, whatever becomes of it.\<close>

lemma free_vaddr_used:
  assumes ok: "vmm_ok st" and r: "r \<in> set (vmm_used st)" and va: "unat va = (unat (vi_vpn r) + 1) * 4096"
  shows "\<exists>used. memprotect_free_vaddr ops beyond va st = map_option (\<lambda>avail. \<lparr>vmm_used = used, vmm_free = avail\<rparr>) (vmm_give_back ops beyond (vmm_free st) r) \<and>
    sorted (map vi_vpn used) \<and> set used = set (vmm_used st) - {r} \<and> (\<forall>x. of_bool (x \<in> span r) + holders used x = holders (vmm_used st) x)"
proof -
  let ?used = "vmm_used st" let ?free = "vmm_free st"
  have al: "va mod MEMMAP_PAGE_SIZE = 0"
  proof -
    have "unat (va mod MEMMAP_PAGE_SIZE) = 0" using va by (simp add: unat_mod MEMMAP_PAGE_SIZE_def)
    then show ?thesis by (simp only: unat_eq_zero)
  qed
  have vpn: "va div MEMMAP_PAGE_SIZE - 1 = vi_vpn r"
  proof -
    have "unat (va div MEMMAP_PAGE_SIZE) = unat (vi_vpn r) + 1" using va by (simp add: unat_div MEMMAP_PAGE_SIZE_def)
    then have "va div MEMMAP_PAGE_SIZE = vi_vpn r + 1" by (metis of_nat_1 of_nat_add of_nat_unat_id)
    then show ?thesis by simp
  qed
  obtain found i where bs: "arr_binsearch ops vmm_info_cmp ?used (vmm_key (vi_vpn r)) = (found, i)" by (cases "arr_binsearch ops vmm_info_cmp ?used (vmm_key (vi_vpn r))")
  have "found" unfolding binsearch_found[OF vmm_okD(1)[OF ok] bs] using r by (auto simp: vmm_key_def)
  then have i: "i < length ?used" "vi_vpn (?used ! i) = vi_vpn r" using binsearch[OF vmm_okD(1)[OF ok] bs] by (simp_all add: vmm_key_def)
  have one: "\<forall>x. holders ?used x \<le> 1" using vmm_okD(5)[OF ok] by (metis le_add1 le_trans)
  have rok: "range_ok r" and iok: "range_ok (?used ! i)" using vmm_okD(3)[OF ok] r i(1) by auto
  have ri: "?used ! i = r"
  proof (rule ccontr)
    assume n: "?used ! i \<noteq> r"
    obtain j where j: "j < length ?used" "?used ! j = r" using r by (auto simp: in_set_conv_nth)
    then have "span (?used ! i) \<inter> span r = {}" using index_apart[OF one i(1) j(1)] n by auto
    then show False using range_ok_first[OF rok] range_ok_first[OF iok] i(2) by auto
  qed
  have def: "memprotect_free_vaddr ops beyond va st = map_option (\<lambda>avail. \<lparr>vmm_used = cut_at ?used i, vmm_free = avail\<rparr>) (vmm_give_back ops beyond ?free r)"
    unfolding memprotect_free_vaddr_def Let_def al vpn bs using \<open>found\<close> remove[OF i(1)] ri by simp
  have hu: "of_bool (x \<in> span r) + holders (cut_at ?used i) x = holders ?used x" for x
    using sum_cut_at[OF i(1), of "\<lambda>r. of_bool (x \<in> span r)"] by (simp add: ri holders_def)
  have "set (cut_at ?used i) = set ?used - {r}"
  proof -
    have "r \<notin> set (cut_at ?used i)"
    proof
      assume "r \<in> set (cut_at ?used i)"
      then have "1 \<le> holders (cut_at ?used i) (unat (vi_vpn r))" using range_ok_first[OF rok] by (rule holders_member)
      then show False using hu[of "unat (vi_vpn r)"] one[rule_format, of "unat (vi_vpn r)"] range_ok_first[OF rok] by simp
    qed
    moreover have "set ?used = insert r (set (cut_at ?used i))"
      using arg_cong[OF id_take_nth_drop[OF i(1)], of set] by (auto simp: cut_at_def ri)
    ultimately show ?thesis by blast
  qed
  then show ?thesis using def hu sorted_cut_at[OF vmm_okD(1)[OF ok]] by blast
qed

lemma used_absent:
  assumes ok: "vmm_ok st" and r: "r \<in> set (vmm_used st)"
  shows "\<not> fst (arr_binsearch ops vmm_info_cmp (vmm_free st) r)"
  using give_back_absent[OF vmm_okD(2)[OF ok]] vmm_okD(3,4)[OF ok] used_free_apart[OF ok r] r by blast

lemma free_vaddr_ok:
  assumes ok: "vmm_ok st" and r: "r \<in> set (vmm_used st)" and inside: "read_inside beyond (vmm_free st) r"
    and va: "unat va = (unat (vi_vpn r) + 1) * 4096"
  shows "memprotect_free_vaddr ops beyond va st = None \<and> (\<exists>i. arr_insert ops (vmm_free st) r i = None) \<or>
    (\<exists>st'. memprotect_free_vaddr ops beyond va st = Some st' \<and> vmm_ok st' \<and> same_pages st st' \<and> set (vmm_used st') = set (vmm_used st) - {r})"
proof -
  let ?free = "vmm_free st"
  obtain used where u: "memprotect_free_vaddr ops beyond va st = map_option (\<lambda>avail. \<lparr>vmm_used = used, vmm_free = avail\<rparr>) (vmm_give_back ops beyond ?free r)"
    "sorted (map vi_vpn used)" "set used = set (vmm_used st) - {r}" "\<And>x. of_bool (x \<in> span r) + holders used x = holders (vmm_used st) x"
    using free_vaddr_used[OF ok r va, of beyond] by blast
  show ?thesis
  proof (cases "vmm_give_back ops beyond ?free r")
    case None
    then have "\<exists>i. arr_insert ops ?free r i = None" using used_absent[OF ok r] unfolding vmm_give_back_def Let_def by (auto split: if_splits prod.splits)
    then show ?thesis using None u(1) by simp
  next
    case (Some avail)
    have g: "sorted (map vi_vpn avail)" "\<forall>r \<in> set avail. range_ok r" "holders avail x = of_bool (x \<in> span r) + holders ?free x" for x
      using give_back_ok[OF vmm_okD(2)[OF ok] _ vmm_okD(3)[OF ok r] _ inside Some] vmm_okD(4)[OF ok] used_free_apart[OF ok r] by blast+
    let ?st = "\<lparr>vmm_used = used, vmm_free = avail\<rparr>"
    have same: "same_pages st ?st" unfolding same_pages_def vmm_state.simps g(3) using u(4) by (metis add.assoc add.commute)
    moreover have "vmm_ok ?st" using u(2,3) g(1,2) vmm_okD(3)[OF ok] by (intro vmm_okI[OF ok same]) auto
    ultimately show ?thesis using u(1,3) Some by auto
  qed
qed

text \<open>A freed range with nothing free behind it, merged with what only looks like a range, is in neither array.\<close>

lemma free_vaddr_loses:
  assumes ok: "vmm_ok st" and r: "r \<in> set (vmm_used st)" and va: "unat va = (unat (vi_vpn r) + 1) * 4096"
    and last: "\<forall>s \<in> set (vmm_free st). vi_vpn s < vi_vpn r" and apart: "\<forall>s \<in> set (vmm_free st). vi_vpn s + vi_pages s \<noteq> vi_vpn r"
    and beyond: "vi_vpn beyond = vi_vpn r + vi_pages r"
  shows "\<exists>st'. memprotect_free_vaddr ops beyond va st = Some st' \<and> vmm_free st' = vmm_free st \<and> set (vmm_used st') = set (vmm_used st) - {r} \<and>
    (\<forall>s \<in> set (vmm_used st') \<union> set (vmm_free st'). span r \<inter> span s = {})"
proof -
  let ?free = "vmm_free st"
  obtain used where u: "memprotect_free_vaddr ops beyond va st = map_option (\<lambda>avail. \<lparr>vmm_used = used, vmm_free = avail\<rparr>) (vmm_give_back ops beyond ?free r)"
    "set used = set (vmm_used st) - {r}" "\<And>x. of_bool (x \<in> span r) + holders used x = holders (vmm_used st) x"
    using free_vaddr_used[OF ok r va, of beyond] by blast
  obtain i where bs: "arr_binsearch ops vmm_info_cmp ?free r = (False, i)" using used_absent[OF ok r] by (cases "arr_binsearch ops vmm_info_cmp ?free r") simp
  then have i: "i \<le> length ?free" "\<forall>j. i \<le> j \<and> j < length ?free \<longrightarrow> vi_vpn r < vi_vpn (?free ! j)"
    using binsearch[OF vmm_okD(2)[OF ok] bs] by simp_all
  have il: "i = length ?free" using i last by (metis le_eq_less_or_eq less_asym nth_mem order_refl)
  have nl: "(i \<noteq> 0 \<and> vi_vpn (?free ! (i - 1)) + vi_pages (?free ! (i - 1)) = vi_vpn r) = False" using apart unfolding il by auto
  have mr: "(vi_vpn r + vi_pages r = vi_vpn (entry_at beyond ?free i)) = True" using beyond by (simp add: entry_at_def il)
  have "?free[i := e] = ?free" for e unfolding il by (rule list_update_beyond) simp
  then have "vmm_give_back ops beyond ?free r = Some ?free"
    unfolding vmm_give_back_def Let_def bs prod.case nl mr by (simp only: simp_thms if_False if_True)
  moreover have "span r \<inter> span s = {}" if "s \<in> set used" for s
  proof (rule ccontr)
    assume "span r \<inter> span s \<noteq> {}"
    then obtain x where "x \<in> span r" "x \<in> span s" by blast
    then show False using holders_member[OF that] u(3)[of x] vmm_okD(5)[OF ok, of x] by force
  qed
  ultimately show ?thesis using u(1,2) used_free_apart[OF ok r] by auto
qed

end

section \<open>Sequences of operations\<close>

text \<open>
  Ranges are allocated, and ranges in use are given back. What lies behind the free array is arbitrary in each step, as
  long as the step does not take it for the range after the freed one.
\<close>

inductive vmm_step :: "vmm_info array_ops \<Rightarrow> vmm_state \<Rightarrow> vmm_state \<Rightarrow> bool" for ops where
  alloc: "memprotect_alloc_vaddr ops len st = Some (st', va) \<Longrightarrow> vmm_step ops st st'"
| free: "r \<in> set (vmm_used st) \<Longrightarrow> read_inside beyond (vmm_free st) r \<Longrightarrow> unat va = (unat (vi_vpn r) + 1) * 4096 \<Longrightarrow>
    memprotect_free_vaddr ops beyond va st = Some st' \<Longrightarrow> vmm_step ops st st'"

context vmm_array begin

lemma steps_ok: "(vmm_step ops)\<^sup>*\<^sup>* st st' \<Longrightarrow> vmm_ok st \<Longrightarrow> vmm_ok st' \<and> same_pages st st'"
proof (induction rule: rtranclp_induct)
  case base
  then show ?case by (simp add: same_pages_def)
next
  case (step s s')
  then have ok: "vmm_ok s" "same_pages st s" by simp_all
  from step.hyps(2) have "vmm_ok s' \<and> same_pages s s'"
  proof cases
    case (alloc len va)
    then show ?thesis using alloc_vaddr_ok(1,2)[OF ok(1)] by blast
  next
    case (free r beyond va)
    then show ?thesis using free_vaddr_ok[OF ok(1) free(1,2,3)] by auto
  qed
  then show ?case using ok(2) by (simp add: same_pages_def)
qed

end

interpretation vmm: vmm_array list_ops
  by (unfold vmm_array_def, rule list_sorted_array) (auto simp: vmm_info_cmp_def)

section \<open>Properties\<close>

text \<open>
  C14: kernel virtual addresses are neither handed out twice nor lost. In every state reached by allocations
  and by freeing live allocations, the ranges in use are pairwise disjoint and disjoint from the free ones, and
  a page is in some range exactly when it was at the start. This is under a condition on each freeing step
  (\<open>read_inside\<close>): some free range lies behind the freed one, or the memory behind the free array, which the code
  then reads, does not look like a range that starts where the freed one ends. What happens otherwise is the
  theorem \<open>vmm_free_loses_range\<close>.
\<close>

theorem vmm_ranges_conserved:
  assumes "sorted_array ops vmm_info_cmp vi_vpn" and "vmm_ok st" and "(vmm_step ops)\<^sup>*\<^sup>* st st'"
  shows "(\<forall>i < length (vmm_used st'). \<forall>j < length (vmm_used st'). i \<noteq> j \<longrightarrow> span (vmm_used st' ! i) \<inter> span (vmm_used st' ! j) = {}) \<and>
    (\<forall>r \<in> set (vmm_used st'). \<forall>s \<in> set (vmm_free st'). span r \<inter> span s = {}) \<and>
    (\<forall>x. (\<exists>r \<in> set (vmm_used st') \<union> set (vmm_free st'). x \<in> span r) \<longleftrightarrow> (\<exists>r \<in> set (vmm_used st) \<union> set (vmm_free st). x \<in> span r))"
proof -
  have ok: "vmm_ok st'" "same_pages st st'" using vmm_array.steps_ok[of ops, OF _ assms(3,2)] assms(1) by (simp_all add: vmm_array_def)
  have "\<forall>x. holders (vmm_used st') x \<le> 1" using vmm_okD(5)[OF ok(1)] by (metis le_add1 le_trans)
  moreover have h: "(\<exists>r \<in> set rs \<union> set ss. x \<in> span r) \<longleftrightarrow> holders rs x + holders ss x \<noteq> 0" for rs ss x
    by (auto simp: holders_def sum_list_eq_0_iff)
  ultimately show ?thesis using index_apart used_free_apart[OF ok(1)] ok(2) unfolding h same_pages_def by simp
qed

theorem vmm_ranges_conserved_witness:
  "\<exists>st'. (vmm_step list_ops)\<^sup>*\<^sup>* \<lparr>vmm_used = [], vmm_free = [\<lparr>vi_vpn = 0x1000, vi_pages = 0x100\<rparr>]\<rparr> st' \<and>
     vmm_used st' = [\<lparr>vi_vpn = 0x1003, vi_pages = 4\<rparr>] \<and> length (vmm_free st') = 2 \<and> (\<forall>s \<in> set (vmm_free st'). span (vmm_used st' ! 0) \<inter> span s = {})"
proof -
  let ?s = "\<lparr>vmm_used = [], vmm_free = [\<lparr>vi_vpn = 0x1000, vi_pages = 0x100\<rparr>]\<rparr>"
  let ?t = "\<lparr>vmm_used = [\<lparr>vi_vpn = 0x1000, vi_pages = 3\<rparr>], vmm_free = [\<lparr>vi_vpn = 0x1003, vi_pages = 0xFD\<rparr>]\<rparr>"
  let ?u = "\<lparr>vmm_used = [\<lparr>vi_vpn = 0x1000, vi_pages = 3\<rparr>, \<lparr>vi_vpn = 0x1003, vi_pages = 4\<rparr>], vmm_free = [\<lparr>vi_vpn = 0x1007, vi_pages = 0xF9\<rparr>]\<rparr>"
  let ?v = "\<lparr>vmm_used = [\<lparr>vi_vpn = 0x1003, vi_pages = 4\<rparr>], vmm_free = [\<lparr>vi_vpn = 0x1000, vi_pages = 3\<rparr>, \<lparr>vi_vpn = 0x1007, vi_pages = 0xF9\<rparr>]\<rparr>"
  let ?b = "\<lparr>vi_vpn = 0, vi_pages = 0\<rparr>"
  have a: "memprotect_alloc_vaddr list_ops 100 ?s = Some (?t, 0x1001000)" "memprotect_alloc_vaddr list_ops 5000 ?t = Some (?u, 0x1004000)"
    by (simp_all add: memprotect_alloc_vaddr_def MEMMAP_PAGE_SIZE_def list_ops_def list_binsearch_def put_at_def vmm_info_cmp_def Let_def)
  have "memprotect_free_vaddr list_ops ?b 0x1001000 ?u = Some ?v"
    by (simp add: memprotect_free_vaddr_def vmm_give_back_def vmm_key_def entry_at_def MEMMAP_PAGE_SIZE_def list_ops_def list_binsearch_def put_at_def cut_at_def vmm_info_cmp_def Let_def)
  moreover have "read_inside ?b (vmm_free ?u) \<lparr>vi_vpn = 0x1000, vi_pages = 3\<rparr>" by (simp add: read_inside_def)
  ultimately have f: "vmm_step list_ops ?u ?v" by (intro vmm_step.free[where r = "\<lparr>vi_vpn = 0x1000, vi_pages = 3\<rparr>"]) simp_all
  have r: "(vmm_step list_ops)\<^sup>*\<^sup>* ?s ?v" using vmm_step.alloc[OF a(1)] vmm_step.alloc[OF a(2)] f by (meson r_into_rtranclp rtranclp_trans)
  have "vmm_ok ?s" by (auto simp: vmm_ok_def range_ok_def holders_def)
  from vmm_ranges_conserved[OF vmm.sorted_array_axioms this r]
  have "\<forall>r \<in> set (vmm_used ?v). \<forall>s \<in> set (vmm_free ?v). span r \<inter> span s = {}" by blast
  then show ?thesis using r by (intro exI[of _ ?v]) simp
qed

text \<open>
  C15: freeing can lose a range for good. When no free range lies behind a range in use and none ends where it begins,
  \<^verbatim>\<open>memprotect_free_vaddr\<close> reads the entry past the end of the free array. If the memory there holds the number of the page
  after the range, as it does when that range was the last of the array and was just handed out, the call returns
  normally, the free array is unchanged and the freed pages are in neither array.
\<close>

theorem vmm_free_loses_range:
  assumes "sorted_array ops vmm_info_cmp vi_vpn" and "vmm_ok st" and "r \<in> set (vmm_used st)" and "unat va = (unat (vi_vpn r) + 1) * 4096"
    and "\<forall>s \<in> set (vmm_free st). vi_vpn s < vi_vpn r" and "\<forall>s \<in> set (vmm_free st). vi_vpn s + vi_pages s \<noteq> vi_vpn r"
    and "vi_vpn beyond = vi_vpn r + vi_pages r"
  shows "\<exists>st'. memprotect_free_vaddr ops beyond va st = Some st' \<and> vmm_free st' = vmm_free st \<and> set (vmm_used st') = set (vmm_used st) - {r} \<and>
    (\<forall>s \<in> set (vmm_used st') \<union> set (vmm_free st'). span r \<inter> span s = {})"
  using vmm_array.free_vaddr_loses[of ops, OF _ assms(2-7)] assms(1) by (simp add: vmm_array_def)

theorem vmm_free_loses_range_witness:
  "\<exists>st' va. memprotect_alloc_vaddr list_ops 1024000 \<lparr>vmm_used = [\<lparr>vi_vpn = 0x1000, vi_pages = 3\<rparr>], vmm_free = [\<lparr>vi_vpn = 0x1003, vi_pages = 0xFC\<rparr>]\<rparr> = Some (st', va) \<and>
     vmm_free st' = [] \<and>
     (\<exists>st''. memprotect_free_vaddr list_ops \<lparr>vi_vpn = 0x1003, vi_pages = 0xFC\<rparr> 0x1001000 st' = Some st'' \<and> vmm_free st'' = [] \<and>
       (\<forall>s \<in> set (vmm_used st''). span \<lparr>vi_vpn = 0x1000, vi_pages = 3\<rparr> \<inter> span s = {}))"
proof -
  let ?s = "\<lparr>vmm_used = [\<lparr>vi_vpn = 0x1000, vi_pages = 3\<rparr>], vmm_free = [\<lparr>vi_vpn = 0x1003, vi_pages = 0xFC\<rparr>]\<rparr>"
  let ?t = "\<lparr>vmm_used = [\<lparr>vi_vpn = 0x1000, vi_pages = 3\<rparr>, \<lparr>vi_vpn = 0x1003, vi_pages = 0xFC\<rparr>], vmm_free = []\<rparr>"
  let ?r = "\<lparr>vi_vpn = 0x1000, vi_pages = 3\<rparr>" let ?b = "\<lparr>vi_vpn = 0x1003, vi_pages = 0xFC\<rparr>"
  have a: "memprotect_alloc_vaddr list_ops 1024000 ?s = Some (?t, 0x1004000)"
    by (simp add: memprotect_alloc_vaddr_def MEMMAP_PAGE_SIZE_def list_ops_def list_binsearch_def put_at_def cut_at_def vmm_info_cmp_def Let_def)
  have "vmm_ok ?t" by (auto simp: vmm_ok_def range_ok_def holders_def span_def)
  then have "\<exists>st''. memprotect_free_vaddr list_ops ?b 0x1001000 ?t = Some st'' \<and> vmm_free st'' = vmm_free ?t \<and> set (vmm_used st'') = set (vmm_used ?t) - {?r} \<and>
      (\<forall>s \<in> set (vmm_used st'') \<union> set (vmm_free st''). span ?r \<inter> span s = {})"
    by (intro vmm_free_loses_range[OF vmm.sorted_array_axioms]) simp_all
  then show ?thesis using a by auto
qed

end
