(* ===== verification/Spec2Isabelle.thy ===== *)
theory Spec2Isabelle
  imports Int_Routines Num_To_Str Spinlock Mutex Block_Device Memprotect Vmm
begin

text \<open>
  Verification of the BadgerOS kernel (\<^verbatim>\<open>src/kernel\<close>).
\<close>

end
